(* ===== verification/Prox_Prelude.thy ===== *)
theory Prox_Prelude
  imports Complex_Main "HOL-Library.Word" "HOL-Library.Signed_Division"
begin

text \<open>
  What every component of the development shares: the machine types of the Go program
  (\<open>int64\<close>, \<open>int32\<close> and \<open>uint64\<close> as words, \<open>time.Duration\<close> as an \<open>int64\<close> number of
  nanoseconds, an instant of the monotonic clock as an unbounded number of nanoseconds),
  the collections of simplification rules the component theories extend, and generic
  facts on lists and options.
\<close>

section \<open>Machine types\<close>

type_synonym int64 = "64 word"
type_synonym int32 = "32 word"
type_synonym uint64 = "64 word"
type_synonym duration = int64
type_synonym instant = int

named_theorems frame \<open>fields an operation leaves unchanged\<close>

definition max_int64 :: int where
  "max_int64 = 2 ^ 63 - 1"

definition min_int64 :: int where
  "min_int64 = - (2 ^ 63)"

text \<open>\<open>time.Since\<close>: the difference of two instants, saturating at the \<open>int64\<close> range.\<close>

definition time_since :: "instant \<Rightarrow> instant \<Rightarrow> duration" where
  "time_since now t = word_of_int (max min_int64 (min max_int64 (now - t)))"

lemma sint_int64_range: "min_int64 \<le> sint (x :: int64) \<and> sint x \<le> max_int64"
  using sint_lt[of x] sint_ge[of x] by (simp add: min_int64_def max_int64_def)

lemma sint_word_of_int64:
  "min_int64 \<le> k \<Longrightarrow> k \<le> max_int64 \<Longrightarrow> sint (word_of_int k :: int64) = k"
  by (simp add: min_int64_def max_int64_def signed_of_int signed_take_bit_int_eq_self)

lemma sint_time_since:
  "sint (time_since now t) = max min_int64 (min max_int64 (now - t))"
  unfolding time_since_def
  by (rule sint_word_of_int64) (auto simp: min_int64_def max_int64_def)

lemma sint_word_of_int32:
  "- (2 ^ 31) \<le> k \<Longrightarrow> k < 2 ^ 31 \<Longrightarrow> sint (word_of_int k :: int32) = k"
  by (simp add: signed_of_int signed_take_bit_int_eq_self)

lemma sint_int32_range: "- (2 ^ 31) \<le> sint (x :: int32) \<and> sint x < 2 ^ 31"
  using sint_lt[of x] sint_ge[of x] by simp

text \<open>Adding one on a word is exact below the top of the signed range.\<close>

lemma sint_inc32: "sint (x :: int32) < 2 ^ 31 - 1 \<Longrightarrow> sint (x + 1) = sint x + 1"
proof -
  assume a: "sint x < 2 ^ 31 - 1"
  have "sint (word_of_int (sint x + 1) :: int32) = sint x + 1"
    by (rule sint_word_of_int32) (use a sint_int32_range[of x] in \<open>auto\<close>)
  then show ?thesis by simp
qed

lemma sint_inc64: "sint (x :: int64) < max_int64 \<Longrightarrow> sint (x + 1) = sint x + 1"
proof -
  assume a: "sint x < max_int64"
  have "sint (word_of_int (sint x + 1) :: int64) = sint x + 1"
    by (rule sint_word_of_int64) (use a sint_int64_range[of x] in \<open>auto\<close>)
  then show ?thesis by simp
qed

section \<open>Outcomes of Go code\<close>

text \<open>
  A piece of Go code run under a given schedule returns (\<open>Done\<close>), panics, or is blocked for
  good because the schedule never makes the channel operation it waits for ready.
\<close>

datatype 'a run = Done 'a | Panic | Blocked

fun bind_run :: "'a run \<Rightarrow> ('a \<Rightarrow> 'b run) \<Rightarrow> 'b run" where
  "bind_run (Done x) f = f x"
| "bind_run Panic f = Panic"
| "bind_run Blocked f = Blocked"

lemma bind_run_Done_iff [simp]:
  "bind_run m f = Done y \<longleftrightarrow> (\<exists>x. m = Done x \<and> f x = Done y)"
  by (cases m) auto

lemma bind_run_Panic_iff [simp]:
  "bind_run m f = Panic \<longleftrightarrow> m = Panic \<or> (\<exists>x. m = Done x \<and> f x = Panic)"
  by (cases m) auto

lemma bind_run_assoc: "bind_run (bind_run m f) g = bind_run m (\<lambda>x. bind_run (f x) g)"
  by (cases m) auto

end
