(* ===== verification/Go_Strings.thy ===== *)
theory Go_Strings
  imports Prox_Prelude "HOL-Library.Sublist"
begin

text \<open>
  The string operations of the Go standard library that the program calls, on Go strings as
  byte sequences (\<open>string\<close> is a list of bytes): \<open>strings.ToLower\<close>, \<open>strings.HasPrefix\<close>,
  \<open>strings.Contains\<close>, the verbs \<open>%d\<close> and \<open>%q\<close> of \<open>fmt\<close>.  On ASCII input they are computed
  here; what \<open>ToLower\<close> and \<open>%q\<close> do with other bytes depends on the Unicode tables, which are
  an argument (\<open>uni\<close>) of the two functions.
\<close>

definition is_ascii :: "char \<Rightarrow> bool" where
  "is_ascii c \<longleftrightarrow> (of_char c :: nat) < 128"

definition lower_char :: "char \<Rightarrow> char" where
  "lower_char c = (if 65 \<le> (of_char c :: nat) \<and> (of_char c :: nat) \<le> 90
                   then char_of ((of_char c :: nat) + 32) else c)"

definition to_lower :: "(string \<Rightarrow> string) \<Rightarrow> string \<Rightarrow> string" where
  "to_lower uni s = (if list_all is_ascii s then map lower_char s else uni s)"

fun has_prefix :: "string \<Rightarrow> string \<Rightarrow> bool" where
  "has_prefix s [] = True"
| "has_prefix [] (p # ps) = False"
| "has_prefix (c # s) (p # ps) = (c = p \<and> has_prefix s ps)"

fun contains :: "string \<Rightarrow> string \<Rightarrow> bool" where
  "contains [] p = (p = [])"
| "contains (c # s) p = (has_prefix (c # s) p \<or> contains s p)"

text \<open>The decimal numeral of \<open>%d\<close>.\<close>

definition digit_char :: "nat \<Rightarrow> char" where
  "digit_char d = char_of (48 + d)"

fun nat_digits :: "nat \<Rightarrow> string" where
  "nat_digits n = (if n < 10 then [digit_char n] else nat_digits (n div 10) @ [digit_char (n mod 10)])"

declare nat_digits.simps [simp del]

definition itoa :: "int \<Rightarrow> string" where
  "itoa k = (if k < 0 then CHR ''-'' # nat_digits (nat (- k)) else nat_digits (nat k))"

text \<open>The quoted string of \<open>%q\<close> (\<open>strconv.Quote\<close>).\<close>

definition hex_char :: "nat \<Rightarrow> char" where
  "hex_char d = (if d < 10 then char_of (48 + d) else char_of (87 + d))"

definition quote_char :: "char \<Rightarrow> string" where
  "quote_char c =
     (let n = (of_char c :: nat); b = CHR 0x5C in
      if n = 34 \<or> n = 92 then [b, c]
      else if 32 \<le> n \<and> n < 127 then [c]
      else if n = 7 then [b, CHR ''a''] else if n = 8 then [b, CHR ''b'']
      else if n = 12 then [b, CHR ''f''] else if n = 10 then [b, CHR ''n'']
      else if n = 13 then [b, CHR ''r''] else if n = 9 then [b, CHR ''t'']
      else if n = 11 then [b, CHR ''v'']
      else [b, CHR ''x'', hex_char (n div 16), hex_char (n mod 16)])"

definition go_quote :: "(string \<Rightarrow> string) \<Rightarrow> string \<Rightarrow> string" where
  "go_quote uni s =
     (if list_all is_ascii s then CHR 0x22 # concat (map quote_char s) @ [CHR 0x22] else uni s)"

section \<open>Facts\<close>

lemma has_prefix_iff: "has_prefix s p \<longleftrightarrow> prefix p s"
  by (induction s p rule: has_prefix.induct) auto

lemma contains_iff: "contains s p \<longleftrightarrow> sublist p s"
  by (induction s) (auto simp: has_prefix_iff sublist_Cons_right simp del: has_prefix.simps)

lemma contains_Nil [simp]: "contains s []"
  by (simp add: contains_iff)

lemma contains_append: "contains (xs @ p @ ys) p"
  by (auto simp: contains_iff)

lemma contains_refl [simp]: "contains s s"
  by (simp add: contains_iff)

lemma contains_prepend: "contains s p \<Longrightarrow> contains (xs @ s) p"
  by (auto simp: contains_iff intro: sublist_order.order_trans)

lemma contains_extend: "contains s p \<Longrightarrow> contains (s @ ys) p"
  by (auto simp: contains_iff intro: sublist_order.order_trans)

lemma contains_trans: "contains s q \<Longrightarrow> contains q p \<Longrightarrow> contains s p"
  by (auto simp: contains_iff)

lemma lower_char_idem [simp]: "lower_char (lower_char c) = lower_char c"
  by (auto simp: lower_char_def)

lemma is_ascii_lower [simp]: "is_ascii (lower_char c) \<longleftrightarrow> is_ascii c"
  by (auto simp: lower_char_def is_ascii_def)

lemma to_lower_idem:
  "list_all is_ascii s \<Longrightarrow> to_lower uni (to_lower uni s) = to_lower uni s"
  by (simp add: to_lower_def list_all_iff)

lemma to_lower_append:
  "list_all is_ascii s \<Longrightarrow> list_all is_ascii t \<Longrightarrow>
   to_lower uni (s @ t) = to_lower uni s @ to_lower uni t"
  by (simp add: to_lower_def)

lemma nat_digits_nonempty [simp]: "nat_digits n \<noteq> []"
  by (subst nat_digits.simps) simp

end
