(* ===== verification/Go_Errors.thy ===== *)
theory Go_Errors
  imports Go_Strings
begin

text \<open>
  Go error values: the package's sentinels (\<open>config.go\<close>), the two sentinels of the
  \<open>context\<close> package, the errors of \<open>errors.New\<close> and \<open>fmt.Errorf\<close> (an \<open>ErrWrap\<close> is
  \<open>fmt.Errorf\<close> with one \<open>%w\<close>: the text before it, the wrapped error, the text after it), the
  \<open>url.Error\<close> of \<open>net/url\<close>, the wrapper of \<open>retry.Unrecoverable\<close> and the
  \<open>healthCheckError\<close> of \<open>health.go\<close>.  A \<open>nil\<close> error is \<open>None\<close> of \<open>gerr option\<close>.
\<close>

datatype gerr =
    ErrAllProxiesBlocked
  | ErrPoolNotFound
  | ErrNoPools
  | ErrAmbiguousPool
  | ErrClientClosed
  | CtxCanceled
  | CtxDeadlineExceeded
  | ErrText string
  | ErrWrap string gerr string
  | UrlError string string gerr
  | Unrecoverable gerr
  | HealthCheckError int64

text \<open>\<open>err.Error()\<close>; \<open>q\<close> is the Unicode part of \<open>%q\<close> (\<open>url.Error\<close> quotes its URL).\<close>

fun error_text :: "(string \<Rightarrow> string) \<Rightarrow> gerr \<Rightarrow> string" where
  "error_text q ErrAllProxiesBlocked = ''proxator: all proxies are blocked or unavailable''"
| "error_text q ErrPoolNotFound = ''proxator: pool not found''"
| "error_text q ErrNoPools = ''proxator: no pools configured''"
| "error_text q ErrAmbiguousPool =
     ''proxator: pool name required when multiple pools are configured''"
| "error_text q ErrClientClosed = ''proxator: client is closed''"
| "error_text q CtxCanceled = ''context canceled''"
| "error_text q CtxDeadlineExceeded = ''context deadline exceeded''"
| "error_text q (ErrText s) = s"
| "error_text q (ErrWrap pre e post) = pre @ error_text q e @ post"
| "error_text q (UrlError op u e) = op @ '' '' @ go_quote q u @ '': '' @ error_text q e"
| "error_text q (Unrecoverable e) = error_text q e"
| "error_text q (HealthCheckError n) =
     ''health check failed with status '' @ itoa (sint n)"

text \<open>\<open>errors.Unwrap\<close>, \<open>errors.Is\<close> against a sentinel, and \<open>errors.As\<close> for \<open>*url.Error\<close>.\<close>

fun unwrap :: "gerr \<Rightarrow> gerr option" where
  "unwrap (ErrWrap pre e post) = Some e"
| "unwrap (UrlError op u e) = Some e"
| "unwrap (Unrecoverable e) = Some e"
| "unwrap _ = None"

fun errors_is :: "gerr \<Rightarrow> gerr \<Rightarrow> bool" where
  "errors_is (ErrWrap pre e post) t = (ErrWrap pre e post = t \<or> errors_is e t)"
| "errors_is (UrlError op u e) t = (UrlError op u e = t \<or> errors_is e t)"
| "errors_is (Unrecoverable e) t = (Unrecoverable e = t \<or> errors_is e t)"
| "errors_is e t = (e = t)"

fun as_url_error :: "gerr \<Rightarrow> gerr option" where
  "as_url_error (UrlError op u e) = Some e"
| "as_url_error (ErrWrap pre e post) = as_url_error e"
| "as_url_error (Unrecoverable e) = as_url_error e"
| "as_url_error _ = None"

text \<open>
  What the program reads of a parsed URL: \<open>u.Scheme\<close> and \<open>u.Hostname()\<close>.  \<open>url.Parse\<close> itself is
  an argument of the definitions that call it, of type \<open>string \<Rightarrow> gerr + url\<close>.
\<close>

record url =
  url_Scheme :: string
  url_Hostname :: string

lemma errors_is_refl [simp]: "errors_is e e"
  by (cases e) auto

lemma errors_is_unwrap:
  "errors_is e t \<longleftrightarrow> e = t \<or> (\<exists>e'. unwrap e = Some e' \<and> errors_is e' t)"
  by (cases e) auto

lemma error_text_is: "errors_is e t \<Longrightarrow> contains (error_text q e) (error_text q t)"
proof (induction e)
  case (ErrWrap pre e post)
  then show ?case by (auto intro: contains_prepend contains_extend)
next
  case (UrlError op u e)
  then show ?case
    by (auto intro: contains_prepend[of _ _ "op @ '' '' @ go_quote q u @ '': ''", simplified])
qed auto

end
