(* ===== verification/Float64.thy ===== *)
theory Float64
  imports Prox_Prelude "HOL-Library.Log_Nat"
begin

text \<open>
  IEEE 754 binary64 arithmetic, as Go's \<open>float64\<close> uses it: every operation computes the
  exact rational result and rounds it to the nearest representable number, ties to even.
  Finite values are rationals (the sign of a zero is not kept: no operation of the program
  divides by a zero or reads a sign bit), overflow gives an infinity, and an invalid
  operation gives \<open>FNaN\<close>.  The lemmas say that rounding is monotone, exact on representable
  numbers, and off by at most \<open>2 powi (- 53)\<close> of a normal number.
\<close>

section \<open>Rounding\<close>

datatype f64 = FNaN | FInf bool | FNum rat

text \<open>Round to the nearest integer, ties to the even one.\<close>

definition rne :: "rat \<Rightarrow> int" where
  "rne y = (let f = \<lfloor>y\<rfloor>; d = y - of_int f
            in if d < 1/2 \<or> (d = 1/2 \<and> even f) then f else f + 1)"

text \<open>The exponent of a positive rational: \<open>2 powi ilog2 q \<le> q < 2 powi (ilog2 q + 1)\<close>.\<close>

definition ilog2 :: "rat \<Rightarrow> int" where
  "ilog2 q = (let (a, b) = quotient_of q; e = bitlen a - bitlen b
              in if 2 powi e \<le> q then e else e - 1)"

definition fexp :: "rat \<Rightarrow> int" where
  "fexp q = max (ilog2 \<bar>q\<bar>) (- 1022)"

definition quantum :: "rat \<Rightarrow> rat" where
  "quantum q = 2 powi (fexp q - 52)"

definition fround :: "rat \<Rightarrow> rat" where
  "fround q = (if q = 0 then 0 else of_int (rne (q / quantum q)) * quantum q)"

definition rnd :: "rat \<Rightarrow> f64" where
  "rnd q = (let r = fround q in if 2 ^ 1024 \<le> \<bar>r\<bar> then FInf (r < 0) else FNum r)"

text \<open>The numbers the format holds exactly (before the overflow bound).\<close>

definition representable :: "rat \<Rightarrow> bool" where
  "representable r \<longleftrightarrow> (\<exists>k e. r = of_int k * 2 powi e \<and> \<bar>k\<bar> \<le> 2 ^ 53 \<and> - 1074 \<le> e)"

subsection \<open>Rounding to an integer\<close>

lemma rne_of_int [simp]: "rne (of_int k) = k"
  by (simp add: rne_def)

lemma rne_near: "\<bar>of_int (rne y) - y\<bar> \<le> 1/2"
  using floor_correct[of y] by (auto simp: rne_def Let_def abs_le_iff split: if_splits)

lemma rne_floor_or: "rne y = \<lfloor>y\<rfloor> \<or> rne y = \<lfloor>y\<rfloor> + 1"
  by (auto simp: rne_def Let_def)

lemma rne_mono:
  assumes "x \<le> y"
  shows "rne x \<le> rne y"
proof (cases "\<lfloor>x\<rfloor> = \<lfloor>y\<rfloor>")
  case True
  then show ?thesis using assms by (auto simp: rne_def Let_def)
next
  case False
  with assms have "\<lfloor>x\<rfloor> + 1 \<le> \<lfloor>y\<rfloor>"
    using floor_mono[OF assms] by linarith
  then show ?thesis using rne_floor_or[of x] rne_floor_or[of y] by linarith
qed

lemma rne_le_of_int: "y \<le> of_int k \<Longrightarrow> rne y \<le> k"
  using rne_mono[of y "of_int k"] by simp

lemma rne_ge_of_int: "of_int k \<le> y \<Longrightarrow> k \<le> rne y"
  using rne_mono[of "of_int k" y] by simp

lemma rne_minus: "rne (- y) = - rne y"
proof (cases "y = of_int \<lfloor>y\<rfloor>")
  case True
  then obtain k where "y = of_int k" by blast
  then have "- y = of_int (- k)" by simp
  with \<open>y = of_int k\<close> show ?thesis by (metis rne_of_int)
next
  case False
  then have "\<lceil>y\<rceil> = \<lfloor>y\<rfloor> + 1"
    by (metis ceiling_altdef)
  then have f: "\<lfloor>- y\<rfloor> = - \<lfloor>y\<rfloor> - 1"
    by (simp add: floor_minus)
  show ?thesis unfolding rne_def Let_def f by (auto simp: algebra_simps)
qed

subsection \<open>The exponent\<close>

lemma bitlen_powi_bounds:
  assumes "0 < (a :: int)"
  shows "2 powi (bitlen a - 1) \<le> (of_int a :: rat) \<and> (of_int a :: rat) < 2 powi (bitlen a)"
proof -
  have pos: "0 < bitlen a" using assms bitlen_eq_zero_iff[of a] bitlen_nonneg[of a] by linarith
  then have b: "2 ^ nat (bitlen a - 1) \<le> a \<and> a < 2 ^ nat (bitlen a)"
    using bitlen_bounds[of a] assms by simp
  then have "(of_int (2 ^ nat (bitlen a - 1)) :: rat) \<le> of_int a"
    and "(of_int a :: rat) < of_int (2 ^ nat (bitlen a))"
    by (simp_all only: of_int_le_iff of_int_less_iff)
  then show ?thesis using pos by (simp add: power_int_def)
qed

lemma ilog2_bounds:
  assumes "0 < q"
  shows "2 powi (ilog2 q) \<le> q \<and> q < 2 powi (ilog2 q + 1)"
proof -
  obtain a b where ab: "quotient_of q = (a, b)" by fastforce
  have b: "0 < b" using quotient_of_denom_pos[OF ab] .
  have q: "q = of_int a / of_int b" using quotient_of_div[OF ab] .
  have a: "0 < a" using assms q b by (simp add: zero_less_divide_iff)
  note ba = bitlen_powi_bounds[OF a] and bb = bitlen_powi_bounds[OF b]
  let ?e = "bitlen a - bitlen b"
  have "q < 2 powi bitlen a / 2 powi (bitlen b - 1)"
    unfolding q by (rule frac_less) (use ba bb a b in auto)
  also have "\<dots> = 2 powi (?e + 1)"
    by (simp add: power_int_diff[symmetric] algebra_simps)
  finally have up: "q < 2 powi (?e + 1)" .
  have "2 powi (bitlen a - 1) / 2 powi bitlen b < q"
    unfolding q by (rule frac_less2) (use ba bb a b in auto)
  then have lo: "2 powi (?e - 1) < q" by (simp add: power_int_diff[symmetric] algebra_simps)
  show ?thesis using up lo by (auto simp: ilog2_def ab Let_def)
qed

lemma powi2_mono: "(m :: int) \<le> n \<Longrightarrow> (2 :: rat) powi m \<le> 2 powi n"
  by (simp add: power_int_increasing)

lemma powi2_less_cancel: "(2 :: rat) powi m < 2 powi n \<Longrightarrow> m < n"
  using powi2_mono[of n m] by linarith

lemma powi2_le_cancel: "(2 :: rat) powi m \<le> 2 powi n \<Longrightarrow> m \<le> n"
  using power_int_strict_increasing[of n m "2 :: rat"] by fastforce

lemma ilog2_mono:
  assumes "0 < p" "p \<le> q"
  shows "ilog2 p \<le> ilog2 q"
proof -
  have "2 powi (ilog2 p) \<le> p" "q < 2 powi (ilog2 q + 1)"
    using ilog2_bounds assms by auto
  with assms have "(2 :: rat) powi (ilog2 p) < 2 powi (ilog2 q + 1)" by linarith
  then show ?thesis using powi2_less_cancel by fastforce
qed

lemma quantum_pos [simp]: "0 < quantum q"
  by (simp add: quantum_def)

lemma quantum_nz [simp]: "quantum q \<noteq> 0"
  using quantum_pos[of q] by linarith

lemma abs_quantum [simp]: "\<bar>quantum q\<bar> = quantum q"
  using quantum_pos[of q] by (simp add: less_imp_le)

lemma quantum_scale: "2 ^ n * quantum q = 2 powi (int n + (fexp q - 52))"
  unfolding quantum_def by (subst power_int_add) simp_all

lemma div_quantum_mono: "p \<le> q \<Longrightarrow> p / quantum r \<le> q / quantum r"
  by (rule divide_right_mono) (use quantum_pos[of r] in linarith)+

lemma quantum_minus [simp]: "quantum (- q) = quantum q"
  by (simp add: quantum_def fexp_def)

lemma fround_0 [simp]: "fround 0 = 0"
  by (simp add: fround_def)

lemma fround_minus: "fround (- q) = - fround q"
  by (simp add: fround_def rne_minus)

lemma fround_nonneg: "0 \<le> q \<Longrightarrow> 0 \<le> fround q"
  using rne_ge_of_int[of 0 "q / quantum q"] div_quantum_mono[of 0 q q]
  by (simp add: fround_def mult_nonneg_nonneg less_imp_le)

text \<open>A positive number rounds within its binade.\<close>

lemma fround_le_binade:
  assumes "0 < q" "fexp q \<le> e"
  shows "fround q \<le> 2 powi (e + 1)"
proof -
  have "q < 2 powi (ilog2 q + 1)" using ilog2_bounds[OF assms(1)] by simp
  also have "\<dots> \<le> 2 powi (fexp q + 1)" using assms(1) by (intro powi2_mono) (simp add: fexp_def)
  finally have "q / quantum q \<le> 2 powi (fexp q + 1) / quantum q"
    by (intro div_quantum_mono) simp
  also have "\<dots> = of_int (2 ^ 53)"
    by (simp add: quantum_def power_int_diff[symmetric])
  finally have "rne (q / quantum q) \<le> 2 ^ 53" by (rule rne_le_of_int)
  then have "(of_int (rne (q / quantum q)) :: rat) \<le> of_int (2 ^ 53)" by (simp only: of_int_le_iff)
  then have "fround q \<le> 2 ^ 53 * quantum q"
    using assms(1) by (simp add: fround_def)
  also have "\<dots> = 2 powi (53 + (fexp q - 52))"
    using quantum_scale[of 53 q] by simp
  also have "\<dots> \<le> 2 powi (e + 1)" using assms(2) by (intro powi2_mono) simp
  finally show ?thesis .
qed

lemma fround_ge_binade:
  assumes "2 powi (fexp q) \<le> q"
  shows "2 powi (fexp q) \<le> fround q"
proof -
  have pos: "0 < q" using assms by (meson less_le_trans zero_less_power_int zero_less_numeral)
  have "of_int (2 ^ 52) = 2 powi (fexp q) / quantum q"
    by (simp add: quantum_def power_int_diff[symmetric])
  also have "\<dots> \<le> q / quantum q" using assms by (rule div_quantum_mono)
  finally have "2 ^ 52 \<le> rne (q / quantum q)" by (rule rne_ge_of_int)
  then have "(of_int (2 ^ 52) :: rat) \<le> of_int (rne (q / quantum q))" by (simp only: of_int_le_iff)
  then have "2 ^ 52 * quantum q \<le> fround q"
    using pos by (simp add: fround_def)
  moreover have "2 ^ 52 * quantum q = 2 powi (52 + (fexp q - 52))"
    using quantum_scale[of 52 q] by simp
  ultimately show ?thesis by simp
qed

lemma fround_mono_pos:
  assumes "0 < p" "p \<le> q"
  shows "fround p \<le> fround q"
proof (cases "fexp p = fexp q")
  case True
  then have u: "quantum p = quantum q" by (simp add: quantum_def)
  have "p / quantum p \<le> q / quantum q" using assms u div_quantum_mono by metis
  then have "rne (p / quantum p) \<le> rne (q / quantum q)" by (rule rne_mono)
  then show ?thesis using assms u by (simp add: fround_def)
next
  case False
  then have less: "fexp p < fexp q"
    using ilog2_mono[OF assms] assms by (auto simp: fexp_def)
  then have "fexp q = ilog2 q" using assms by (auto simp: fexp_def)
  then have "2 powi (fexp q) \<le> fround q"
    using ilog2_bounds[of q] assms by (intro fround_ge_binade) auto
  moreover have "fround p \<le> 2 powi (fexp q - 1 + 1)"
    by (rule fround_le_binade) (use assms less in auto)
  ultimately show ?thesis by simp
qed

lemma fround_mono:
  assumes "p \<le> q"
  shows "fround p \<le> fround q"
proof -
  consider "0 < p" | "p \<le> 0" "0 \<le> q" | "q < 0" by linarith
  then show ?thesis
  proof cases
    case 1
    then show ?thesis using assms by (rule fround_mono_pos)
  next
    case 2
    then show ?thesis
      using fround_nonneg[of q] fround_nonneg[of "- p"] by (simp add: fround_minus)
  next
    case 3
    then show ?thesis
      using fround_mono_pos[of "- q" "- p"] assms by (simp add: fround_minus)
  qed
qed

subsection \<open>Representable numbers\<close>

lemma fround_on_grid: "r / quantum r = of_int m \<Longrightarrow> fround r = r"
proof -
  assume "r / quantum r = of_int m"
  then have "of_int (rne (r / quantum r)) = r / quantum r" by (simp only: rne_of_int)
  then show ?thesis by (cases "r = 0") (simp_all add: fround_def)
qed

lemma representable_fexp:
  assumes r: "r = of_int k * 2 powi e" "r \<noteq> 0" and k: "\<bar>k\<bar> \<le> 2 ^ 53" and e: "- 1074 \<le> e"
  shows "\<bar>r\<bar> \<le> 2 powi (53 + e)" and "fexp r \<le> 53 + e"
proof -
  have "(of_int \<bar>k\<bar> :: rat) \<le> of_int (2 ^ 53)" using k by (simp only: of_int_le_iff)
  then have "of_int \<bar>k\<bar> * 2 powi e \<le> 2 powi 53 * (2 powi e :: rat)" by (intro mult_right_mono) simp_all
  then show le: "\<bar>r\<bar> \<le> 2 powi (53 + e)" by (simp add: r(1) abs_mult power_int_add)
  moreover have "2 powi (ilog2 \<bar>r\<bar>) \<le> \<bar>r\<bar>" using ilog2_bounds[of "\<bar>r\<bar>"] r(2) by simp
  ultimately have "ilog2 \<bar>r\<bar> \<le> 53 + e" by (intro powi2_le_cancel) (rule order_trans)
  then show "fexp r \<le> 53 + e" using e by (simp add: fexp_def)
qed

lemma fround_representable:
  assumes "representable r"
  shows "fround r = r"
proof (cases "r = 0")
  case False
  obtain k e where r: "r = of_int k * 2 powi e" and k: "\<bar>k\<bar> \<le> 2 ^ 53" and e: "- 1074 \<le> e"
    using assms by (auto simp: representable_def)
  note le = representable_fexp[OF r False k e]
  show ?thesis
  proof (cases "fexp r \<le> 52 + e")
    case True
    then have "2 powi e / quantum r = 2 powi (int (nat (e - (fexp r - 52))))"
      by (simp add: quantum_def power_int_diff[symmetric])
    then have "2 powi e / quantum r = of_int (2 ^ nat (e - (fexp r - 52)))"
      by (simp only: power_int_of_nat of_int_power of_int_numeral)
    then have "of_int k * (2 powi e / quantum r) = of_int (k * 2 ^ nat (e - (fexp r - 52)))"
      by (simp only: of_int_mult)
    then show ?thesis by (intro fround_on_grid) (use r in \<open>simp only: times_divide_eq_right\<close>)
  next
    case F: False
    with le(2) have x: "fexp r = 53 + e" by simp
    then have "fexp r = ilog2 \<bar>r\<bar>" using e by (auto simp: fexp_def)
    then have "2 powi (53 + e) \<le> \<bar>r\<bar>" using ilog2_bounds[of "\<bar>r\<bar>"] False x by simp
    with le(1) have "\<bar>r\<bar> = 2 powi (53 + e)" by simp
    moreover have "2 powi (53 + e) / quantum r = of_int (2 ^ 52)"
      by (simp add: quantum_def x power_int_diff[symmetric])
    moreover obtain g :: int where "r = of_int g * \<bar>r\<bar>"
      using that[of 1] that[of "- 1"] by (cases "r < 0") (simp_all add: abs_if)
    ultimately have "r / quantum r = of_int (g * 2 ^ 52)"
      by (metis of_int_mult times_divide_eq_right)
    then show ?thesis by (rule fround_on_grid)
  qed
qed simp

lemma abs_fround: "\<bar>fround q\<bar> = fround \<bar>q\<bar>"
  using fround_nonneg[of q] fround_nonneg[of "- q"] by (auto simp: abs_if fround_minus)

lemma representable_fround: "representable (fround q)"
proof (cases "q = 0")
  case True
  then show ?thesis by (auto simp: representable_def intro!: exI[of _ 0])
next
  case False
  have "fround \<bar>q\<bar> \<le> 2 powi (fexp \<bar>q\<bar> + 1)"
    by (rule fround_le_binade) (use False in auto)
  then have "\<bar>fround q\<bar> \<le> 2 powi (53 + (fexp q - 52))" by (simp add: abs_fround fexp_def add.commute)
  also have "\<dots> = 2 ^ 53 * quantum q"
    using quantum_scale[of 53 q] by simp
  finally have "\<bar>of_int (rne (q / quantum q))\<bar> * quantum q \<le> 2 ^ 53 * quantum q"
    using False quantum_pos[of q] by (simp add: fround_def abs_mult)
  then have "\<bar>of_int (rne (q / quantum q)) :: rat\<bar> \<le> of_int (2 ^ 53)"
    using quantum_pos[of q] by (simp only: mult_le_cancel_right_pos) simp
  then have "\<bar>rne (q / quantum q)\<bar> \<le> 2 ^ 53"
    by (simp only: of_int_abs[symmetric] of_int_le_iff)
  moreover have "- 1074 \<le> fexp q - 52" by (simp add: fexp_def)
  moreover have "fround q = of_int (rne (q / quantum q)) * 2 powi (fexp q - 52)"
    using False by (simp add: fround_def quantum_def)
  ultimately show ?thesis unfolding representable_def by blast
qed

lemma representable_of_int:
  assumes "\<bar>k\<bar> \<le> 2 ^ 53"
  shows "representable (of_int k)"
  unfolding representable_def by (rule exI[of _ k], rule exI[of _ 0]) (use assms in simp)

lemma representable_powi: "- 1074 \<le> e \<Longrightarrow> representable (2 powi e)"
  unfolding representable_def by (rule exI[of _ 1], rule exI[of _ e]) simp

lemma fround_le: "q \<le> r \<Longrightarrow> representable r \<Longrightarrow> fround q \<le> r"
  using fround_mono[of q r] by (simp add: fround_representable)

lemma fround_ge: "r \<le> q \<Longrightarrow> representable r \<Longrightarrow> r \<le> fround q"
  using fround_mono[of r q] by (simp add: fround_representable)

lemma fround_fround [simp]: "fround (fround q) = fround q"
  by (rule fround_representable) (rule representable_fround)

subsection \<open>The rounding error\<close>

lemma fround_error: "\<bar>fround q - q\<bar> \<le> quantum q / 2"
proof (cases "q = 0")
  case False
  have "fround q - q = (of_int (rne (q / quantum q)) - q / quantum q) * quantum q"
    using False by (simp add: fround_def algebra_simps)
  then have "\<bar>fround q - q\<bar> = \<bar>of_int (rne (q / quantum q)) - q / quantum q\<bar> * quantum q"
    by (simp only: abs_mult abs_quantum)
  also have "\<dots> \<le> 1/2 * quantum q"
    by (rule mult_right_mono) (use rne_near quantum_pos[of q] in \<open>auto simp: less_imp_le\<close>)
  finally show ?thesis by simp
qed (use quantum_pos[of q] in \<open>simp add: less_imp_le\<close>)

lemma fround_rel_error:
  assumes "2 powi (- 1022) \<le> \<bar>q\<bar>"
  shows "\<bar>fround q - q\<bar> \<le> \<bar>q\<bar> / 2 ^ 53"
proof -
  have pos: "0 < \<bar>q\<bar>" using assms
    by (meson less_le_trans zero_less_power_int zero_less_numeral)
  have "2 powi (- 1022) < (2 :: rat) powi (ilog2 \<bar>q\<bar> + 1)"
    using ilog2_bounds[OF pos] assms by linarith
  then have "fexp q = ilog2 \<bar>q\<bar>" using powi2_less_cancel by (fastforce simp: fexp_def)
  then have "2 powi (fexp q) \<le> \<bar>q\<bar>" using ilog2_bounds[OF pos] by simp
  moreover have "2 powi (fexp q) = 2 ^ 52 * quantum q"
    using quantum_scale[of 52 q] by simp
  ultimately have "quantum q / 2 \<le> \<bar>q\<bar> / 2 ^ 53" by simp
  then show ?thesis using fround_error[of q] by linarith
qed

section \<open>Arithmetic and conversions\<close>

fun fadd :: "f64 \<Rightarrow> f64 \<Rightarrow> f64" where
  "fadd (FNum a) (FNum b) = rnd (a + b)"
| "fadd (FInf s) (FInf t) = (if s = t then FInf s else FNaN)"
| "fadd (FInf s) (FNum b) = FInf s"
| "fadd (FNum a) (FInf t) = FInf t"
| "fadd _ _ = FNaN"

fun fneg :: "f64 \<Rightarrow> f64" where
  "fneg (FNum a) = FNum (- a)"
| "fneg (FInf s) = FInf (\<not> s)"
| "fneg FNaN = FNaN"

definition fsub :: "f64 \<Rightarrow> f64 \<Rightarrow> f64" where
  "fsub x y = fadd x (fneg y)"

fun fmul :: "f64 \<Rightarrow> f64 \<Rightarrow> f64" where
  "fmul (FNum a) (FNum b) = rnd (a * b)"
| "fmul (FInf s) (FInf t) = FInf (s \<noteq> t)"
| "fmul (FInf s) (FNum b) = (if b = 0 then FNaN else FInf (s \<noteq> (b < 0)))"
| "fmul (FNum a) (FInf t) = (if a = 0 then FNaN else FInf (t \<noteq> (a < 0)))"
| "fmul _ _ = FNaN"

fun fdiv :: "f64 \<Rightarrow> f64 \<Rightarrow> f64" where
  "fdiv (FNum a) (FNum b) =
     (if b = 0 then (if a = 0 then FNaN else FInf (a < 0)) else rnd (a / b))"
| "fdiv (FNum a) (FInf t) = FNum 0"
| "fdiv (FInf s) (FNum b) = FInf (s \<noteq> (b < 0))"
| "fdiv _ _ = FNaN"

fun fle :: "f64 \<Rightarrow> f64 \<Rightarrow> bool" where
  "fle (FNum a) (FNum b) = (a \<le> b)"
| "fle (FInf s) (FInf t) = (s \<or> \<not> t)"
| "fle (FInf s) (FNum b) = s"
| "fle (FNum a) (FInf t) = (\<not> t)"
| "fle _ _ = False"

fun flt :: "f64 \<Rightarrow> f64 \<Rightarrow> bool" where
  "flt (FNum a) (FNum b) = (a < b)"
| "flt (FInf s) (FInf t) = (s \<and> \<not> t)"
| "flt (FInf s) (FNum b) = s"
| "flt (FNum a) (FInf t) = (\<not> t)"
| "flt _ _ = False"

text \<open>The conversion \<open>float64(k)\<close> of an integer.\<close>

definition f_of_int :: "int \<Rightarrow> f64" where
  "f_of_int k = rnd (of_int k)"

text \<open>
  The conversion \<open>int64(x)\<close>: truncation towards zero; outside the range of \<open>int64\<close> the Go
  specification leaves the value to the implementation, and the model takes the one of amd64
  (the smallest \<open>int64\<close>).
\<close>

definition rat_trunc :: "rat \<Rightarrow> int" where
  "rat_trunc q = (if 0 \<le> q then \<lfloor>q\<rfloor> else \<lceil>q\<rceil>)"

fun f_to_int64 :: "f64 \<Rightarrow> int64" where
  "f_to_int64 (FNum q) =
     (let k = rat_trunc q in if min_int64 \<le> k \<and> k \<le> max_int64 then word_of_int k
      else word_of_int min_int64)"
| "f_to_int64 _ = word_of_int min_int64"

lemma rnd_representable: "representable q \<Longrightarrow> \<bar>q\<bar> < 2 ^ 1024 \<Longrightarrow> rnd q = FNum q"
  by (simp add: rnd_def fround_representable)

lemma rnd_FNum: "\<bar>q\<bar> \<le> b \<Longrightarrow> representable b \<Longrightarrow> b < 2 ^ 1024 \<Longrightarrow> rnd q = FNum (fround q)"
  using fround_le[of "\<bar>q\<bar>" b] by (simp add: rnd_def abs_fround)

lemma rnd_0 [simp]: "rnd 0 = FNum 0"
  by (simp add: rnd_def)

lemma rnd_eq_FNum: "rnd q = FNum r \<longleftrightarrow> r = fround q \<and> \<bar>fround q\<bar> < 2 ^ 1024"
  by (auto simp: rnd_def Let_def)

lemma rnd_not_nan [simp]: "rnd q \<noteq> FNaN"
  by (simp add: rnd_def Let_def)

lemma fle_rnd: "p \<le> q \<Longrightarrow> fle (rnd p) (rnd q)"
  using fround_mono[of p q] by (auto simp: rnd_def Let_def abs_if split: if_splits)

lemma f_of_int_exact: "\<bar>k\<bar> \<le> 2 ^ 53 \<Longrightarrow> f_of_int k = FNum (of_int k)"
proof -
  assume k: "\<bar>k\<bar> \<le> 2 ^ 53"
  have "\<bar>of_int k :: rat\<bar> \<le> of_int (2 ^ 53)" using k by (simp only: of_int_abs[symmetric] of_int_le_iff)
  also have "\<dots> < 2 ^ 1024" by simp
  finally show ?thesis unfolding f_of_int_def
    by (intro rnd_representable representable_of_int k)
qed

lemma fle_refl_FNum [simp]: "fle x x \<longleftrightarrow> x \<noteq> FNaN"
  by (cases x) auto

end
