(* ===== verification/Config.thy ===== *)
theory Config
  imports Go_Errors Float64
begin

text \<open>
  \<open>config.go\<close>: the endpoint states, the package defaults, \<open>PoolConfig\<close> with its validation
  and fallbacks, and \<open>RetryConfig\<close> with \<open>withDefaults\<close>.  Go's \<open>int\<close> is 64 bits wide.
  \<open>url.Parse\<close> is an argument (\<open>parse\<close>): \<open>validate\<close> only asks whether it fails and with what.
\<close>

section \<open>States\<close>

datatype State = StateAlive | StateDead | StateCooldown

text \<open>The \<open>iota\<close> numbering, and \<open>State.String\<close> on any \<open>int32\<close> a \<open>State\<close> can hold.\<close>

definition state_code :: "State \<Rightarrow> int32" where
  "state_code s = (case s of StateAlive \<Rightarrow> 0 | StateDead \<Rightarrow> 1 | StateCooldown \<Rightarrow> 2)"

definition State_String :: "int32 \<Rightarrow> string" where
  "State_String s =
     (if s = state_code StateAlive then ''alive''
      else if s = state_code StateDead then ''dead''
      else if s = state_code StateCooldown then ''cooldown''
      else ''unknown'')"

text \<open>The states are these three, in the order of their numbers.\<close>

instantiation State :: enum
begin

definition enum_State :: "State list" where
  "enum_State = [StateAlive, StateDead, StateCooldown]"

definition enum_all_State :: "(State \<Rightarrow> bool) \<Rightarrow> bool" where
  "enum_all_State P \<longleftrightarrow> P StateAlive \<and> P StateDead \<and> P StateCooldown"

definition enum_ex_State :: "(State \<Rightarrow> bool) \<Rightarrow> bool" where
  "enum_ex_State P \<longleftrightarrow> P StateAlive \<or> P StateDead \<or> P StateCooldown"

instance
proof
  show "UNIV = set (Enum.enum :: State list)"
    unfolding enum_State_def by (auto intro: State.exhaust)
  show "distinct (Enum.enum :: State list)" by (simp add: enum_State_def)
  show "Enum.enum_all P \<longleftrightarrow> (\<forall>s \<in> UNIV. P (s :: State))" for P
    unfolding enum_all_State_def by (metis State.exhaust UNIV_I)
  show "Enum.enum_ex P \<longleftrightarrow> (\<exists>s \<in> UNIV. P (s :: State))" for P
    unfolding enum_ex_State_def by (metis State.exhaust UNIV_I)
qed

end

section \<open>Package defaults\<close>

definition Millisecond :: int where "Millisecond = 1000000"
definition Second :: int where "Second = 1000000000"
definition Minute :: int where "Minute = 60000000000"

definition defaultSessionPoolSize :: int64 where "defaultSessionPoolSize = 15"
definition defaultFailThreshold :: int32 where "defaultFailThreshold = 3"
definition defaultHealthCheckTimeout :: duration where
  "defaultHealthCheckTimeout = word_of_int (15 * Second)"

section \<open>Pool configuration\<close>

record PoolConfig =
  pc_Name :: string
  pc_Endpoints :: "string list"
  pc_SessionPoolSize :: int64
  pc_RequestsPerSecond :: f64
  pc_HealthCheckInterval :: duration
  pc_HealthCheckURL :: string
  pc_HealthCheckTimeout :: duration
  pc_DomainBlockTTL :: duration
  pc_DomainBlockPenalty :: f64

text \<open>The loop over the endpoints: \<open>i\<close> is the 0-based position the messages print.\<close>

fun validate_endpoints ::
  "(string \<Rightarrow> string) \<Rightarrow> (string \<Rightarrow> gerr + url) \<Rightarrow> string \<Rightarrow> int \<Rightarrow> string list \<Rightarrow> gerr option" where
  "validate_endpoints q parse name i [] = None"
| "validate_endpoints q parse name i (ep # eps) =
     (if ep = [] then
        Some (ErrText (''proxator: pool '' @ go_quote q name @ '' endpoint '' @ itoa i @ '' is empty''))
      else case parse ep of
        Inl err \<Rightarrow>
          Some (ErrWrap (''proxator: pool '' @ go_quote q name @ '' endpoint '' @ itoa i @
                         '' is not a valid URL: '')
                  (case as_url_error err of Some inner \<Rightarrow> inner | None \<Rightarrow> err) [])
      | Inr _ \<Rightarrow> validate_endpoints q parse name (i + 1) eps)"

definition validate ::
  "(string \<Rightarrow> string) \<Rightarrow> (string \<Rightarrow> gerr + url) \<Rightarrow> PoolConfig \<Rightarrow> gerr option" where
  "validate q parse p =
     (if pc_Name p = [] then Some (ErrText ''proxator: pool name is required'')
      else if pc_Endpoints p = [] then
        Some (ErrText (''proxator: pool '' @ go_quote q (pc_Name p) @ '' has no endpoints''))
      else case validate_endpoints q parse (pc_Name p) 0 (pc_Endpoints p) of
        Some err \<Rightarrow> Some err
      | None \<Rightarrow>
        if 0 < sint (pc_HealthCheckInterval p) \<and> pc_HealthCheckURL p = [] then
          Some (ErrText (''proxator: pool '' @ go_quote q (pc_Name p) @
                         '' enables health checks but sets no HealthCheckURL''))
        else if sint (pc_DomainBlockTTL p) < 0 then
          Some (ErrText (''proxator: pool '' @ go_quote q (pc_Name p) @
                         '' DomainBlockTTL must not be negative''))
        else if flt (pc_DomainBlockPenalty p) (FNum 0) \<or> flt (FNum 1) (pc_DomainBlockPenalty p) then
          Some (ErrText (''proxator: pool '' @ go_quote q (pc_Name p) @
                         '' DomainBlockPenalty must be between 0 and 1''))
        else None)"

definition sessionPoolSize :: "PoolConfig \<Rightarrow> int64" where
  "sessionPoolSize p =
     (if sint (pc_SessionPoolSize p) \<le> 0 then defaultSessionPoolSize else pc_SessionPoolSize p)"

definition healthCheckTimeout :: "PoolConfig \<Rightarrow> duration" where
  "healthCheckTimeout p =
     (if sint (pc_HealthCheckTimeout p) \<le> 0 then defaultHealthCheckTimeout
      else pc_HealthCheckTimeout p)"

section \<open>Retry configuration\<close>

record RetryConfig =
  rc_MaxAttempts :: int64
  rc_InitialDelay :: duration
  rc_MaxDelay :: duration
  rc_CooldownPeriod :: duration
  rc_MaxCooldown :: duration
  rc_FailThreshold :: int32

definition DefaultRetryConfig :: RetryConfig where
  "DefaultRetryConfig =
     \<lparr> rc_MaxAttempts = 3,
       rc_InitialDelay = word_of_int (500 * Millisecond),
       rc_MaxDelay = word_of_int (5 * Second),
       rc_CooldownPeriod = word_of_int (30 * Second),
       rc_MaxCooldown = word_of_int (5 * Minute),
       rc_FailThreshold = defaultFailThreshold \<rparr>"

definition withDefaults :: "RetryConfig \<Rightarrow> RetryConfig" where
  "withDefaults r =
     (let d = DefaultRetryConfig;
          r = (if sint (rc_MaxAttempts r) \<le> 0 then r\<lparr>rc_MaxAttempts := rc_MaxAttempts d\<rparr> else r);
          r = (if sint (rc_InitialDelay r) \<le> 0 then r\<lparr>rc_InitialDelay := rc_InitialDelay d\<rparr> else r);
          r = (if sint (rc_MaxDelay r) \<le> 0 then r\<lparr>rc_MaxDelay := rc_MaxDelay d\<rparr> else r);
          r = (if sint (rc_CooldownPeriod r) \<le> 0 then r\<lparr>rc_CooldownPeriod := rc_CooldownPeriod d\<rparr> else r);
          r = (if sint (rc_MaxCooldown r) \<le> 0 then r\<lparr>rc_MaxCooldown := rc_MaxCooldown d\<rparr> else r);
          r = (if sint (rc_FailThreshold r) \<le> 0 then r\<lparr>rc_FailThreshold := rc_FailThreshold d\<rparr> else r)
      in r)"

definition failThreshold :: "RetryConfig \<Rightarrow> int32" where
  "failThreshold r =
     (if sint (rc_FailThreshold r) \<le> 0 then defaultFailThreshold else rc_FailThreshold r)"

section \<open>Lemmas\<close>

text \<open>Every field of a configuration with defaults filled in is positive.\<close>

definition retry_positive :: "RetryConfig \<Rightarrow> bool" where
  "retry_positive r \<longleftrightarrow>
     0 < sint (rc_MaxAttempts r) \<and> 0 < sint (rc_InitialDelay r) \<and> 0 < sint (rc_MaxDelay r) \<and>
     0 < sint (rc_CooldownPeriod r) \<and> 0 < sint (rc_MaxCooldown r) \<and> 0 < sint (rc_FailThreshold r)"

lemmas default_values =
  DefaultRetryConfig_def Millisecond_def Second_def Minute_def defaultFailThreshold_def
  defaultSessionPoolSize_def defaultHealthCheckTimeout_def

lemma default_retry_positive: "retry_positive DefaultRetryConfig"
  by (simp add: retry_positive_def default_values)

lemma withDefaults_select:
  "rc_MaxAttempts (withDefaults r) =
     (if 0 < sint (rc_MaxAttempts r) then rc_MaxAttempts r else rc_MaxAttempts DefaultRetryConfig)"
  "rc_InitialDelay (withDefaults r) =
     (if 0 < sint (rc_InitialDelay r) then rc_InitialDelay r else rc_InitialDelay DefaultRetryConfig)"
  "rc_MaxDelay (withDefaults r) =
     (if 0 < sint (rc_MaxDelay r) then rc_MaxDelay r else rc_MaxDelay DefaultRetryConfig)"
  "rc_CooldownPeriod (withDefaults r) =
     (if 0 < sint (rc_CooldownPeriod r) then rc_CooldownPeriod r else rc_CooldownPeriod DefaultRetryConfig)"
  "rc_MaxCooldown (withDefaults r) =
     (if 0 < sint (rc_MaxCooldown r) then rc_MaxCooldown r else rc_MaxCooldown DefaultRetryConfig)"
  "rc_FailThreshold (withDefaults r) =
     (if 0 < sint (rc_FailThreshold r) then rc_FailThreshold r else rc_FailThreshold DefaultRetryConfig)"
  by (simp_all add: withDefaults_def Let_def)

lemma retry_positive_withDefaults: "retry_positive (withDefaults r)"
  using default_retry_positive by (simp add: retry_positive_def withDefaults_select)

lemma withDefaults_id: "retry_positive r \<Longrightarrow> withDefaults r = r"
  by (rule RetryConfig.equality) (simp_all add: withDefaults_select retry_positive_def)

lemma failThreshold_positive: "0 < sint (failThreshold r)"
  by (simp add: failThreshold_def defaultFailThreshold_def)

lemma sessionPoolSize_positive: "0 < sint (sessionPoolSize p)"
  by (simp add: sessionPoolSize_def defaultSessionPoolSize_def)

lemma healthCheckTimeout_positive: "0 < sint (healthCheckTimeout p)"
  by (simp add: healthCheckTimeout_def default_values)

text \<open>What an accepted configuration guarantees.\<close>

lemma validate_endpoints_None:
  "validate_endpoints q parse name i eps = None \<longleftrightarrow> (\<forall>ep \<in> set eps. ep \<noteq> [] \<and> \<not> isl (parse ep))"
  by (induction eps arbitrary: i) (auto split: sum.splits)

lemma validate_None_iff:
  "validate q parse p = None \<longleftrightarrow>
     pc_Name p \<noteq> [] \<and> pc_Endpoints p \<noteq> [] \<and>
     (\<forall>ep \<in> set (pc_Endpoints p). ep \<noteq> [] \<and> \<not> isl (parse ep)) \<and>
     (0 < sint (pc_HealthCheckInterval p) \<longrightarrow> pc_HealthCheckURL p \<noteq> []) \<and>
     0 \<le> sint (pc_DomainBlockTTL p) \<and>
     \<not> flt (pc_DomainBlockPenalty p) (FNum 0) \<and> \<not> flt (FNum 1) (pc_DomainBlockPenalty p)"
  using validate_endpoints_None[of q parse "pc_Name p" 0 "pc_Endpoints p"]
  by (auto simp: validate_def split: option.splits)

end
