(* ===== verification/Endpoint.thy ===== *)
theory Endpoint
  imports Config "HOL-Library.Multiset"
begin

text \<open>
  \<open>endpoint.go\<close>: one proxy endpoint.  Its state is a record of the struct's fields; the
  buffered channel of sessions is the list of the sessions in it (a session is a number), the
  recovery goroutines \<open>markFailed\<close> has started and that have not ended are \<open>ep_timers\<close>, and
  \<open>ep_closedSessions\<close> lists the sessions \<open>Close\<close> was called on.  Every definition is one
  operation, or one atomic section of it where goroutines can interleave.
\<close>

section \<open>State\<close>

text \<open>
  A recovery goroutine: asleep in its \<open>select\<close>, woken by \<open>time.After\<close> and waiting for
  \<open>e.mu\<close>, or past the test of the state inside the critical section.
\<close>

datatype timer_phase = Sleeping | Woken | Checked

record timer =
  tm_id :: nat
  tm_due :: instant
  tm_cancelled :: bool
  tm_phase :: timer_phase

type_synonym session = nat

record endpoint =
  ep_url :: string
  ep_index :: int64
  ep_state :: State
  ep_failCount :: int32
  ep_lastFailure :: instant
  ep_sessions :: "session list"
  ep_poolSize :: int64
  ep_closed :: bool
  ep_limiter :: "(f64 \<times> int64) option"
  ep_avgLatency :: int64
  ep_totalReqs :: int64
  ep_successReqs :: int64
  ep_cooldownTier :: int32
  ep_cancelCooldown :: "nat option"
  ep_closeOnce :: bool
  ep_timers :: "timer list"
  ep_nextTimer :: nat
  ep_closedSessions :: "session list"

section \<open>Sessions\<close>

text \<open>\<open>session.Close()\<close>.\<close>

definition close_session :: "session \<Rightarrow> endpoint \<Rightarrow> endpoint" where
  "close_session s e = e\<lparr>ep_closedSessions := ep_closedSessions e @ [s]\<rparr>"

definition modify_timer :: "nat \<Rightarrow> (timer \<Rightarrow> timer) \<Rightarrow> timer list \<Rightarrow> timer list" where
  "modify_timer i f ts = map (\<lambda>t. if tm_id t = i then f t else t) ts"

text \<open>The context of a pending recovery goroutine is cancelled.\<close>

definition cancel_timer :: "nat \<Rightarrow> endpoint \<Rightarrow> endpoint" where
  "cancel_timer i e =
     e\<lparr>ep_timers := modify_timer i (\<lambda>t. t\<lparr>tm_cancelled := True\<rparr>) (ep_timers e)\<rparr>"

text \<open>The two critical sections of \<open>Close\<close>, run once.\<close>

definition close_cancel :: "endpoint \<Rightarrow> endpoint" where
  "close_cancel e =
     (case ep_cancelCooldown e of
        None \<Rightarrow> e
      | Some i \<Rightarrow> (cancel_timer i e)\<lparr>ep_cancelCooldown := None\<rparr>)"

definition close_drain :: "endpoint \<Rightarrow> endpoint" where
  "close_drain e =
     e\<lparr>ep_closed := True,
       ep_closedSessions := ep_closedSessions e @ ep_sessions e,
       ep_sessions := []\<rparr>"

definition Close :: "endpoint \<Rightarrow> endpoint" where
  "Close e = (if ep_closeOnce e then e
              else close_drain (close_cancel (e\<lparr>ep_closeOnce := True\<rparr>)))"

text \<open>
  The constructor.  \<open>factory k url\<close> is the \<open>k\<close>-th call of \<open>SessionFactory.New\<close>; the number of
  calls made is threaded through.  The endpoint is returned on failure too, for the sessions
  it closed (the code drops it).
\<close>

type_synonym factory = "nat \<Rightarrow> string \<Rightarrow> gerr + session"

fun open_sessions ::
  "factory \<Rightarrow> nat \<Rightarrow> int \<Rightarrow> nat \<Rightarrow> endpoint \<Rightarrow> gerr option \<times> endpoint \<times> nat" where
  "open_sessions factory 0 i k e = (None, e, k)"
| "open_sessions factory (Suc n) i k e =
     (case factory k (ep_url e) of
        Inl err \<Rightarrow>
          (Some (ErrWrap (''creating session '' @ itoa (i + 1) @ '': '') err []), Close e, Suc k)
      | Inr s \<Rightarrow>
          open_sessions factory n (i + 1) (Suc k) (e\<lparr>ep_sessions := ep_sessions e @ [s]\<rparr>))"

definition blank_endpoint :: "string \<Rightarrow> int64 \<Rightarrow> int64 \<Rightarrow> f64 \<Rightarrow> endpoint" where
  "blank_endpoint proxyURL index poolSize rps =
     (let poolSize = (if sint poolSize \<le> 0 then defaultSessionPoolSize else poolSize) in
      \<lparr> ep_url = proxyURL, ep_index = index, ep_state = StateAlive, ep_failCount = 0,
        ep_lastFailure = 0, ep_sessions = [], ep_poolSize = poolSize, ep_closed = False,
        ep_limiter = (if flt (FNum 0) rps then Some (rps, poolSize) else None),
        ep_avgLatency = 0, ep_totalReqs = 0, ep_successReqs = 0, ep_cooldownTier = 0,
        ep_cancelCooldown = None, ep_closeOnce = False, ep_timers = [], ep_nextTimer = 0,
        ep_closedSessions = [] \<rparr>)"

definition newEndpointWithFactory ::
  "string \<Rightarrow> int64 \<Rightarrow> int64 \<Rightarrow> f64 \<Rightarrow> factory \<Rightarrow> nat \<Rightarrow> gerr option \<times> endpoint \<times> nat" where
  "newEndpointWithFactory proxyURL index poolSize rps factory k =
     (let e = blank_endpoint proxyURL index poolSize rps
      in open_sessions factory (nat (sint (ep_poolSize e))) 0 k e)"

text \<open>
  \<open>acquireSession\<close>.  The \<open>select\<close> that waits for a session takes one of its ready cases; which
  one, the result of \<open>limiter.Wait\<close> and what other goroutines do to the endpoint while this one
  waits are given by an \<open>acq_env\<close>.
\<close>

datatype acq_case = CaseClosed | CaseSession | CaseCtx gerr

record acq_env =
  aq_limit :: "gerr option"
  aq_case :: acq_case
  aq_during_wait :: "endpoint \<Rightarrow> endpoint"
  aq_during_select :: "endpoint \<Rightarrow> endpoint"
  aq_before_recheck :: "endpoint \<Rightarrow> endpoint"

definition acq_enter :: "endpoint \<Rightarrow> gerr option" where
  "acq_enter e = (if ep_closed e then Some ErrClientClosed else None)"

definition acq_limited :: "gerr option \<Rightarrow> endpoint \<Rightarrow> gerr option" where
  "acq_limited werr e =
     (case ep_limiter e of
        None \<Rightarrow> None
      | Some _ \<Rightarrow>
          (case werr of
             None \<Rightarrow> None
           | Some err \<Rightarrow> if ep_closed e then Some ErrClientClosed
                         else Some (ErrWrap ''rate limit wait: '' err [])))"

fun acq_select :: "acq_case \<Rightarrow> endpoint \<Rightarrow> ((gerr + session) \<times> endpoint) run" where
  "acq_select CaseClosed e = (if ep_closed e then Done (Inl ErrClientClosed, e) else Blocked)"
| "acq_select CaseSession e =
     (case ep_sessions e of
        [] \<Rightarrow> Blocked
      | s # ss \<Rightarrow> Done (Inr s, e\<lparr>ep_sessions := ss\<rparr>))"
| "acq_select (CaseCtx err) e = Done (Inl err, e)"

definition acq_recheck :: "session \<Rightarrow> endpoint \<Rightarrow> (gerr + session) \<times> endpoint" where
  "acq_recheck s e =
     (if ep_closed e then (Inl ErrClientClosed, close_session s e) else (Inr s, e))"

definition acquireSession :: "acq_env \<Rightarrow> endpoint \<Rightarrow> ((gerr + session) \<times> endpoint) run" where
  "acquireSession env e =
     (case acq_enter e of
        Some err \<Rightarrow> Done (Inl err, e)
      | None \<Rightarrow>
          (let e1 = (case ep_limiter e of None \<Rightarrow> e | Some _ \<Rightarrow> aq_during_wait env e) in
           (case acq_limited (aq_limit env) e1 of
              Some err \<Rightarrow> Done (Inl err, e1)
            | None \<Rightarrow>
                bind_run (acq_select (aq_case env) (aq_during_select env e1))
                  (\<lambda>(r, e2). case r of
                     Inl err \<Rightarrow> Done (Inl err, e2)
                   | Inr s \<Rightarrow> Done (acq_recheck s (aq_before_recheck env e2))))))"

definition releaseSession :: "session option \<Rightarrow> endpoint \<Rightarrow> endpoint" where
  "releaseSession s e =
     (case s of
        None \<Rightarrow> e
      | Some s \<Rightarrow>
          if ep_closed e then close_session s e
          else if int (length (ep_sessions e)) < sint (ep_poolSize e)
            then e\<lparr>ep_sessions := ep_sessions e @ [s]\<rparr>
          else close_session s e)"

section \<open>Counters\<close>

definition setState :: "State \<Rightarrow> endpoint \<Rightarrow> endpoint" where
  "setState s e = e\<lparr>ep_state := s\<rparr>"

definition incrementFailCount :: "endpoint \<Rightarrow> endpoint" where
  "incrementFailCount e = e\<lparr>ep_failCount := ep_failCount e + 1\<rparr>"

definition resetFailCount :: "endpoint \<Rightarrow> endpoint" where
  "resetFailCount e = e\<lparr>ep_failCount := 0\<rparr>"

definition isAvailable :: "endpoint \<Rightarrow> bool" where
  "isAvailable e \<longleftrightarrow> ep_state e = StateAlive"

text \<open>The new value of the exponential moving average.\<close>

definition ema :: "int64 \<Rightarrow> int64 \<Rightarrow> int64" where
  "ema old ns =
     (if old = 0 then ns
      else f_to_int64 (fadd (fmul (f_of_int (sint old)) (rnd (7/10)))
                            (fmul (f_of_int (sint ns)) (rnd (3/10)))))"

text \<open>
  The compare-and-swap loop of \<open>recordLatency\<close>: \<open>v\<close> is the average it loads, \<open>ws\<close> the averages it
  finds at its successive swaps (other goroutines may have stored them in between); it stores
  the new average at the first swap that finds the loaded value.
\<close>

fun latency_loop :: "int64 \<Rightarrow> int64 \<Rightarrow> int64 list \<Rightarrow> int64" where
  "latency_loop ns v [] = ema v ns"
| "latency_loop ns v (w # ws) = (if w = v then ema v ns else latency_loop ns w ws)"

definition recordLatency_among :: "int64 list \<Rightarrow> duration \<Rightarrow> endpoint \<Rightarrow> endpoint" where
  "recordLatency_among ws d e =
     e\<lparr>ep_totalReqs := ep_totalReqs e + 1,
       ep_avgLatency := latency_loop d (ep_avgLatency e) ws\<rparr>"

definition recordLatency :: "duration \<Rightarrow> endpoint \<Rightarrow> endpoint" where
  "recordLatency d e = recordLatency_among [] d e"

definition countSuccess :: "endpoint \<Rightarrow> endpoint" where
  "countSuccess e = e\<lparr>ep_successReqs := ep_successReqs e + 1\<rparr>"

definition resetTier :: "endpoint \<Rightarrow> endpoint" where
  "resetTier e = e\<lparr>ep_cooldownTier := 0\<rparr>"

definition recordSuccess :: "endpoint \<Rightarrow> endpoint" where
  "recordSuccess e = resetTier (countSuccess e)"

definition successRate :: "endpoint \<Rightarrow> f64" where
  "successRate e =
     (if ep_totalReqs e = 0 then FNum 1
      else fdiv (f_of_int (sint (ep_successReqs e))) (f_of_int (sint (ep_totalReqs e))))"

section \<open>Cooldown\<close>

text \<open>\<open>int64(1) << min(tier-1, 4)\<close>: Go panics on a negative shift count.\<close>

definition cooldown_multiplier :: "int32 \<Rightarrow> int64 run" where
  "cooldown_multiplier tier =
     (let c = min (sint (tier - 1)) 4
      in if c < 0 then Panic else Done (push_bit (nat c) 1))"

definition cooldown_duration :: "duration \<Rightarrow> duration \<Rightarrow> int32 \<Rightarrow> duration run" where
  "cooldown_duration baseCooldown maxCooldown tier =
     bind_run (cooldown_multiplier tier)
       (\<lambda>multiplier. let cooldown = baseCooldown * multiplier in
          Done (if 0 < sint maxCooldown \<and> sint maxCooldown < sint cooldown then maxCooldown
                else cooldown))"

definition markFailed :: "instant \<Rightarrow> duration \<Rightarrow> duration \<Rightarrow> endpoint \<Rightarrow> endpoint run" where
  "markFailed now baseCooldown maxCooldown e =
     (let e = e\<lparr>ep_lastFailure := now, ep_state := StateCooldown\<rparr>;
          e = (case ep_cancelCooldown e of None \<Rightarrow> e | Some i \<Rightarrow> cancel_timer i e);
          tier = ep_cooldownTier e + 1;
          e = e\<lparr>ep_cooldownTier := tier\<rparr>
      in bind_run (cooldown_duration baseCooldown maxCooldown tier)
           (\<lambda>cooldown. Done (e\<lparr>ep_cancelCooldown := Some (ep_nextTimer e),
              ep_timers := ep_timers e @
                [\<lparr>tm_id = ep_nextTimer e, tm_due = now + sint cooldown,
                  tm_cancelled = False, tm_phase = Sleeping\<rparr>],
              ep_nextTimer := Suc (ep_nextTimer e)\<rparr>)))"

text \<open>
  The recovery goroutine.  Its \<open>select\<close> may take the \<open>time.After\<close> case once the cooldown has
  elapsed and the \<open>ctx.Done\<close> case once it is cancelled, either one when both hold.
\<close>

definition timers_of :: "nat \<Rightarrow> endpoint \<Rightarrow> timer list" where
  "timers_of i e = filter (\<lambda>t. tm_id t = i) (ep_timers e)"

definition drop_timer :: "nat \<Rightarrow> endpoint \<Rightarrow> endpoint" where
  "drop_timer i e = e\<lparr>ep_timers := filter (\<lambda>t. tm_id t \<noteq> i) (ep_timers e)\<rparr>"

definition set_phase :: "nat \<Rightarrow> timer_phase \<Rightarrow> endpoint \<Rightarrow> endpoint" where
  "set_phase i ph e =
     e\<lparr>ep_timers := modify_timer i (\<lambda>t. t\<lparr>tm_phase := ph\<rparr>) (ep_timers e)\<rparr>"

definition can_wake :: "instant \<Rightarrow> nat \<Rightarrow> endpoint \<Rightarrow> bool" where
  "can_wake now i e \<longleftrightarrow> (\<exists>t \<in> set (ep_timers e). tm_id t = i \<and> tm_phase t = Sleeping \<and> tm_due t \<le> now)"

definition can_abandon :: "nat \<Rightarrow> endpoint \<Rightarrow> bool" where
  "can_abandon i e \<longleftrightarrow> (\<exists>t \<in> set (ep_timers e). tm_id t = i \<and> tm_phase t = Sleeping \<and> tm_cancelled t)"

definition mu_held :: "endpoint \<Rightarrow> bool" where
  "mu_held e \<longleftrightarrow> (\<exists>t \<in> set (ep_timers e). tm_phase t = Checked)"

definition can_check :: "nat \<Rightarrow> endpoint \<Rightarrow> bool" where
  "can_check i e \<longleftrightarrow> \<not> mu_held e \<and> (\<exists>t \<in> set (ep_timers e). tm_id t = i \<and> tm_phase t = Woken)"

definition can_finish :: "nat \<Rightarrow> endpoint \<Rightarrow> bool" where
  "can_finish i e \<longleftrightarrow> (\<exists>t \<in> set (ep_timers e). tm_id t = i \<and> tm_phase t = Checked)"

text \<open>Inside \<open>e.mu\<close>: the test of the state, then the two stores.\<close>

definition timer_check :: "nat \<Rightarrow> endpoint \<Rightarrow> endpoint" where
  "timer_check i e = (if ep_state e = StateCooldown then set_phase i Checked e else drop_timer i e)"

definition timer_finish :: "nat \<Rightarrow> endpoint \<Rightarrow> endpoint" where
  "timer_finish i e = drop_timer i (resetFailCount (setState StateAlive e))"

text \<open>The whole \<open>time.After\<close> case without interference.\<close>

definition timer_recover :: "nat \<Rightarrow> endpoint \<Rightarrow> endpoint" where
  "timer_recover i e = (if ep_state e = StateCooldown then timer_finish i e else drop_timer i e)"

definition markDead :: "endpoint \<Rightarrow> endpoint" where
  "markDead e = setState StateDead e"

section \<open>Weight\<close>

definition warmupRequests :: int where "warmupRequests = 10"

text \<open>\<open>Duration.Seconds\<close>: whole seconds plus the rest, both rounded to \<open>float64\<close>.\<close>

definition dur_Seconds :: "duration \<Rightarrow> f64" where
  "dur_Seconds d =
     fadd (f_of_int (sint d sdiv Second)) (fdiv (f_of_int (sint d smod Second)) (rnd 1000000000))"

definition weight :: "endpoint \<Rightarrow> f64" where
  "weight e =
     (if \<not> isAvailable e then FNum 0
      else
        let sr = successRate e; latency = ep_avgLatency e; total = ep_totalReqs e in
        if latency = 0 \<or> total = 0 then FNum 1
        else
          let computed = fdiv sr (dur_Seconds latency) in
          if warmupRequests \<le> sint total then computed
          else
            let confidence = fdiv (f_of_int (sint total)) (f_of_int warmupRequests);
                neutral = fdiv (FNum 1) (dur_Seconds latency)
            in fadd (fmul neutral (fsub (FNum 1) confidence)) (fmul computed confidence))"

section \<open>Timers as a list\<close>

lemma modify_timer_ids [simp]:
  "(\<And>t. tm_id (f t) = tm_id t) \<Longrightarrow> map tm_id (modify_timer i f ts) = map tm_id ts"
  by (simp add: modify_timer_def)

lemma ball_modify_timer [simp]:
  "(\<forall>t \<in> set (modify_timer i f ts). P t) \<longleftrightarrow> (\<forall>t \<in> set ts. P (if tm_id t = i then f t else t))"
  by (auto simp: modify_timer_def)

lemma bex_modify_timer [simp]:
  "(\<exists>t \<in> set (modify_timer i f ts). P t) \<longleftrightarrow> (\<exists>t \<in> set ts. P (if tm_id t = i then f t else t))"
  by (auto simp: modify_timer_def)

section \<open>Sessions: what each operation does with them\<close>

text \<open>Every session an endpoint still answers for: in the channel, or closed.\<close>

definition ep_owned :: "endpoint \<Rightarrow> session multiset" where
  "ep_owned e = mset (ep_sessions e) + mset (ep_closedSessions e)"

lemma ep_owned_close_session [simp]: "ep_owned (close_session s e) = add_mset s (ep_owned e)"
  by (simp add: ep_owned_def close_session_def)

lemma ep_owned_close_cancel [simp]: "ep_owned (close_cancel e) = ep_owned e"
  by (simp add: ep_owned_def close_cancel_def cancel_timer_def split: option.split)

lemma ep_owned_close_drain [simp]: "ep_owned (close_drain e) = ep_owned e"
  by (simp add: ep_owned_def close_drain_def)

lemma ep_owned_closeOnce [simp]: "ep_owned (e\<lparr>ep_closeOnce := b\<rparr>) = ep_owned e"
  by (simp add: ep_owned_def)

lemma ep_owned_Close [simp]: "ep_owned (Close e) = ep_owned e"
  by (simp add: Close_def)

lemma ep_owned_releaseSession [simp]:
  "ep_owned (releaseSession (Some s) e) = add_mset s (ep_owned e)"
  by (simp add: releaseSession_def ep_owned_def close_session_def)

lemma ep_owned_acq_select:
  "acq_select c e = Done (r, e') \<Longrightarrow>
   ep_owned e = (case r of Inl _ \<Rightarrow> ep_owned e' | Inr s \<Rightarrow> add_mset s (ep_owned e'))"
  by (cases c) (auto simp: ep_owned_def split: if_splits list.splits)

lemma ep_owned_acq_recheck:
  "acq_recheck s e = (r, e') \<Longrightarrow>
   add_mset s (ep_owned e) = (case r of Inl _ \<Rightarrow> ep_owned e' | Inr s' \<Rightarrow> add_mset s' (ep_owned e'))"
  by (auto simp: acq_recheck_def ep_owned_def close_session_def split: if_splits)

lemma Close_sessions:
  "ep_sessions (Close e) = (if ep_closeOnce e then ep_sessions e else [])"
  "ep_closed (Close e) = (ep_closed e \<or> \<not> ep_closeOnce e)"
  "ep_closeOnce (Close e)"
  "ep_closedSessions (Close e) =
     ep_closedSessions e @ (if ep_closeOnce e then [] else ep_sessions e)"
  by (auto simp: Close_def close_drain_def close_cancel_def cancel_timer_def split: option.split)

lemma Close_idem: "Close (Close e) = Close e"
  using Close_sessions(3)[of e] by (simp add: Close_def[of "Close e"])

section \<open>Construction\<close>

text \<open>The sessions that calls \<open>k, \<dots>, k' - 1\<close> of the factory created.\<close>

definition created :: "factory \<Rightarrow> string \<Rightarrow> nat \<Rightarrow> nat \<Rightarrow> session list" where
  "created factory url k k' =
     concat (map (\<lambda>j. case factory j url of Inl _ \<Rightarrow> [] | Inr s \<Rightarrow> [s]) [k..<k'])"

lemma created_empty [simp]: "created factory url k k = []"
  by (simp add: created_def)

lemma created_first:
  "k < k' \<Longrightarrow> created factory url k k' =
     (case factory k url of Inl _ \<Rightarrow> [] | Inr s \<Rightarrow> [s]) @ created factory url (Suc k) k'"
  by (simp add: created_def upt_conv_Cons)

lemma created_append:
  "k \<le> m \<Longrightarrow> m \<le> k' \<Longrightarrow>
   created factory url k k' = created factory url k m @ created factory url m k'"
  using upt_add_eq_append[of k m "k' - m"] by (simp add: created_def)

lemma open_sessions_calls:
  "open_sessions factory n i k e = (r, e', k') \<Longrightarrow>
   k \<le> k' \<and> k' \<le> k + n \<and> (r = None \<longrightarrow> k' = k + n) \<and> (r \<noteq> None \<longrightarrow> k < k')"
proof (induction n arbitrary: i k e)
  case (Suc n)
  show ?case
  proof (cases "factory k (ep_url e)")
    case (Inl err)
    with Suc.prems show ?thesis by auto
  next
    case (Inr s)
    with Suc.prems have
      "open_sessions factory n (i + 1) (Suc k) (e\<lparr>ep_sessions := ep_sessions e @ [s]\<rparr>) = (r, e', k')"
      by simp
    from Suc.IH[OF this] show ?thesis by auto
  qed
qed auto

text \<open>Nothing the factory created is lost, whether the construction succeeds or not.\<close>

lemma open_sessions_owned:
  "open_sessions factory n i k e = (r, e', k') \<Longrightarrow>
   ep_owned e' = ep_owned e + mset (created factory (ep_url e) k k')"
proof (induction n arbitrary: i k e)
  case (Suc n)
  show ?case
  proof (cases "factory k (ep_url e)")
    case (Inl err)
    with Suc.prems show ?thesis by (auto simp: created_first)
  next
    case (Inr s)
    with Suc.prems have
      eq: "open_sessions factory n (i + 1) (Suc k) (e\<lparr>ep_sessions := ep_sessions e @ [s]\<rparr>) = (r, e', k')"
      by simp
    from open_sessions_calls[OF eq] have "k < k'" by simp
    with Suc.IH[OF eq] Inr show ?thesis by (simp add: ep_owned_def created_first)
  qed
qed auto

lemma open_sessions_fields:
  "open_sessions factory n i k e = (r, e', k') \<Longrightarrow> \<not> ep_closeOnce e \<Longrightarrow> ep_closedSessions e = [] \<Longrightarrow>
   (case r of
      None \<Rightarrow> e' = e\<lparr>ep_sessions := ep_sessions e @ created factory (ep_url e) k k'\<rparr> \<and>
              length (ep_sessions e') = length (ep_sessions e) + n
    | Some _ \<Rightarrow> ep_closeOnce e' \<and> ep_closed e' \<and> ep_sessions e' = [])"
proof (induction n arbitrary: i k e)
  case (Suc n)
  show ?case
  proof (cases "factory k (ep_url e)")
    case (Inl err)
    with Suc.prems show ?thesis by (auto simp: Close_sessions)
  next
    case (Inr s)
    with Suc.prems have
      eq: "open_sessions factory n (i + 1) (Suc k) (e\<lparr>ep_sessions := ep_sessions e @ [s]\<rparr>) = (r, e', k')"
      by simp
    from open_sessions_calls[OF eq] have "k < k'" by simp
    with Suc.IH[OF eq] Suc.prems Inr show ?thesis
      by (auto simp: created_first split: option.splits)
  qed
qed auto

section \<open>The outcomes of an acquisition\<close>

text \<open>The ways an acquisition ends: closed, refused by the limiter, no session, or the re-check of one.\<close>

lemma acquireSession_cases:
  assumes acq: "acquireSession a e = Done (r, e')"
  defines "w \<equiv> (case ep_limiter e of None \<Rightarrow> e | Some _ \<Rightarrow> aq_during_wait a e)"
  obtains (closed) err where "acq_enter e = Some err" "r = Inl err" "e' = e"
  | (limited) err where "acq_limited (aq_limit a) w = Some err" "r = Inl err" "e' = w"
  | (refused) err where "acq_select (aq_case a) (aq_during_select a w) = Done (Inl err, e')" "r = Inl err"
  | (taken) s e2 where "acq_select (aq_case a) (aq_during_select a w) = Done (Inr s, e2)"
      "acq_recheck s (aq_before_recheck a e2) = (r, e')"
proof (cases "acq_enter e")
  case (Some err)
  then have "r = Inl err" "e' = e" using acq by (simp_all add: acquireSession_def)
  with Some show thesis by (rule closed)
next
  case None
  note acq1 = acq[unfolded acquireSession_def None option.case Let_def, folded w_def]
  show thesis
  proof (cases "acq_limited (aq_limit a) w")
    case (Some err)
    then have "r = Inl err" "e' = w" using acq1 by simp_all
    with Some show thesis by (rule limited)
  next
    case None
    then obtain r2 e2 where sel: "acq_select (aq_case a) (aq_during_select a w) = Done (r2, e2)"
      "(case r2 of Inl err \<Rightarrow> Done (Inl err, e2) | Inr s \<Rightarrow> Done (acq_recheck s (aq_before_recheck a e2))) = Done (r, e')"
      using acq1 by auto
    show thesis
    proof (cases r2)
      case (Inl err)
      then show thesis using refused[of err] sel by simp
    next
      case (Inr s)
      then show thesis using taken[of s e2] sel by simp
    qed
  qed
qed

lemma acquire_no_panic: "acquireSession a e \<noteq> Panic"
proof -
  have "acq_select c x \<noteq> Panic" for c x by (cases c) (auto simp: acq_select.simps split: list.splits)
  then show ?thesis by (auto simp: acquireSession_def Let_def split: option.splits sum.splits)
qed

end
