(* ===== verification/Cooldown.thy ===== *)
theory Cooldown
  imports Endpoint
begin

text \<open>
  The life cycle of one endpoint under any interleaving of goroutines: \<open>ep_step\<close> has one rule per
  atomic section of \<open>endpoint.go\<close> (and of the callers that store into an endpoint directly), and
  the invariant \<open>ep_inv\<close> ties the state, the cooldown timers and the session pool together.  The
  cooldown itself is the functional part: escalation, cap, overflow.
\<close>

section \<open>The duration of a cooldown\<close>

lemma sint_one_less:
  "- (2 ^ 31) < sint (t :: int32) \<Longrightarrow> sint (t - 1) = sint t - 1"
proof -
  assume a: "- (2 ^ 31) < sint t"
  have "sint (word_of_int (sint t - 1) :: int32) = sint t - 1"
    by (rule sint_word_of_int32) (use a sint_int32_range[of t] in auto)
  then show ?thesis by simp
qed

lemma cooldown_multiplier_Done:
  assumes "1 \<le> sint tier"
  shows "cooldown_multiplier tier = Done (2 ^ nat (min (sint tier - 1) 4))"
proof -
  have "sint (tier - 1) = sint tier - 1" using assms by (intro sint_one_less) simp
  then show ?thesis using assms by (simp add: cooldown_multiplier_def push_bit_eq_mult Let_def min_def)
qed

lemma cooldown_multiplier_Panic:
  "cooldown_multiplier tier = Panic \<longleftrightarrow> sint (tier - 1) < 0"
  by (auto simp: cooldown_multiplier_def Let_def)

lemma escalation_le_16: "(2 :: int) ^ nat (min k 4) \<le> 16"
proof -
  have "(2 :: int) ^ nat (min k 4) \<le> 2 ^ 4" by (rule power_increasing) auto
  then show ?thesis by simp
qed

lemma sint_escalated:
  assumes "0 \<le> sint base" "sint (base :: int64) * 16 \<le> max_int64"
  shows "sint (base * 2 ^ nat (min k 4)) = sint base * 2 ^ nat (min k 4)"
proof -
  have "sint base * 2 ^ nat (min k 4) \<le> sint base * 16"
    using assms escalation_le_16 by (intro mult_left_mono) auto
  moreover have "0 \<le> sint base * 2 ^ nat (min k 4)" using assms by simp
  moreover have "min_int64 \<le> 0" by (simp add: min_int64_def)
  ultimately have "min_int64 \<le> sint base * 2 ^ nat (min k 4)" "sint base * 2 ^ nat (min k 4) \<le> max_int64"
    using assms by linarith+
  then have "sint (word_of_int (sint base * 2 ^ nat (min k 4)) :: int64) = sint base * 2 ^ nat (min k 4)"
    by (rule sint_word_of_int64)
  then show ?thesis by simp
qed

lemma cooldown_duration_exact:
  assumes "0 \<le> sint base" "sint base * 16 \<le> max_int64" "0 < sint maxc" "1 \<le> sint tier"
  shows "\<exists>d. cooldown_duration base maxc tier = Done d \<and>
             sint d = min (sint maxc) (sint base * 2 ^ nat (min (sint tier - 1) 4))"
  using assms by (auto simp: cooldown_duration_def cooldown_multiplier_Done sint_escalated)

lemma cooldown_duration_capped:
  "cooldown_duration base maxc tier = Done d \<Longrightarrow> 0 < sint maxc \<Longrightarrow> sint d \<le> sint maxc"
  by (auto simp: cooldown_duration_def Let_def split: if_splits)

lemma cooldown_duration_runs:
  "1 \<le> sint tier \<Longrightarrow> \<exists>d. cooldown_duration base maxc tier = Done d"
  by (simp add: cooldown_duration_def cooldown_multiplier_Done Let_def)

text \<open>The product wraps for a base of some 36 years: the cooldown is then zero.\<close>

lemma cooldown_duration_wraps: "cooldown_duration (2 ^ 60) 300000000000 5 = Done 0"
  by (simp add: cooldown_duration_def cooldown_multiplier_def push_bit_eq_mult)

section \<open>The machine of one endpoint\<close>

text \<open>
  The endpoint, the clock, the sessions between the receive and the second closed test of
  \<open>acquireSession\<close>, the sessions borrowed by requests, and whether \<open>Close\<close> is between its two
  critical sections.
\<close>

record ep_sys =
  es_now :: instant
  es_ep :: endpoint
  es_received :: "session list"
  es_borrowed :: "session list"
  es_closing :: bool

inductive ep_step :: "duration \<Rightarrow> duration \<Rightarrow> ep_sys \<Rightarrow> ep_sys \<Rightarrow> bool"
  for base maxc :: duration where
  tick: "es_now s \<le> n \<Longrightarrow> ep_step base maxc s (s\<lparr>es_now := n\<rparr>)"
| receive: "acq_select CaseSession (es_ep s) = Done (Inr x, e') \<Longrightarrow>
    ep_step base maxc s (s\<lparr>es_ep := e', es_received := x # es_received s\<rparr>)"
| recheck: "x \<in> set (es_received s) \<Longrightarrow> acq_recheck x (es_ep s) = (r, e') \<Longrightarrow>
    ep_step base maxc s (s\<lparr>es_ep := e', es_received := remove1 x (es_received s),
      es_borrowed := (case r of Inl _ \<Rightarrow> es_borrowed s | Inr y \<Rightarrow> y # es_borrowed s)\<rparr>)"
| release: "x \<in> set (es_borrowed s) \<Longrightarrow>
    ep_step base maxc s (s\<lparr>es_ep := releaseSession (Some x) (es_ep s),
      es_borrowed := remove1 x (es_borrowed s)\<rparr>)"
| close_first: "\<not> ep_closeOnce (es_ep s) \<Longrightarrow> \<not> mu_held (es_ep s) \<Longrightarrow>
    ep_step base maxc s (s\<lparr>es_ep := close_cancel ((es_ep s)\<lparr>ep_closeOnce := True\<rparr>), es_closing := True\<rparr>)"
| close_second: "es_closing s \<Longrightarrow>
    ep_step base maxc s (s\<lparr>es_ep := close_drain (es_ep s), es_closing := False\<rparr>)"
| inc_fail: "ep_step base maxc s (s\<lparr>es_ep := incrementFailCount (es_ep s)\<rparr>)"
| reset_fail: "ep_step base maxc s (s\<lparr>es_ep := resetFailCount (es_ep s)\<rparr>)"
| latency: "ep_step base maxc s (s\<lparr>es_ep := recordLatency_among ws d (es_ep s)\<rparr>)"
| success: "ep_step base maxc s (s\<lparr>es_ep := countSuccess (es_ep s)\<rparr>)"
| reset_tier: "ep_step base maxc s (s\<lparr>es_ep := resetTier (es_ep s)\<rparr>)"
| reset_state: "ep_step base maxc s (s\<lparr>es_ep := setState StateAlive (es_ep s)\<rparr>)"
| mark_dead: "ep_step base maxc s (s\<lparr>es_ep := markDead (es_ep s)\<rparr>)"
| mark_failed: "\<not> mu_held (es_ep s) \<Longrightarrow> markFailed (es_now s) base maxc (es_ep s) = Done e' \<Longrightarrow>
    ep_step base maxc s (s\<lparr>es_ep := e'\<rparr>)"
| wake: "can_wake (es_now s) i (es_ep s) \<Longrightarrow>
    ep_step base maxc s (s\<lparr>es_ep := set_phase i Woken (es_ep s)\<rparr>)"
| abandon: "can_abandon i (es_ep s) \<Longrightarrow>
    ep_step base maxc s (s\<lparr>es_ep := drop_timer i (es_ep s)\<rparr>)"
| check: "can_check i (es_ep s) \<Longrightarrow>
    ep_step base maxc s (s\<lparr>es_ep := timer_check i (es_ep s)\<rparr>)"
| finish: "can_finish i (es_ep s) \<Longrightarrow>
    ep_step base maxc s (s\<lparr>es_ep := timer_finish i (es_ep s)\<rparr>)"

abbreviation ep_steps :: "duration \<Rightarrow> duration \<Rightarrow> ep_sys \<Rightarrow> ep_sys \<Rightarrow> bool" where
  "ep_steps base maxc \<equiv> (ep_step base maxc)\<^sup>*\<^sup>*"

text \<open>The machine of an endpoint right after its construction.\<close>

definition ep_start :: "instant \<Rightarrow> endpoint \<Rightarrow> ep_sys" where
  "ep_start now e = \<lparr> es_now = now, es_ep = e, es_received = [], es_borrowed = [], es_closing = False \<rparr>"

section \<open>The invariant\<close>

text \<open>
  Timer numbers identify goroutines, every goroutine that is not cancelled is the one the
  endpoint's cancel function refers to, and an endpoint in cooldown has such a goroutine unless
  it is closed.
\<close>

definition has_live :: "endpoint \<Rightarrow> bool" where
  "has_live e \<longleftrightarrow> (\<exists>t \<in> set (ep_timers e). \<not> tm_cancelled t)"

definition timers_ok :: "endpoint \<Rightarrow> bool" where
  "timers_ok e \<longleftrightarrow>
     distinct (map tm_id (ep_timers e)) \<and>
     (\<forall>t \<in> set (ep_timers e). tm_id t < ep_nextTimer e) \<and>
     (\<forall>t \<in> set (ep_timers e). \<not> tm_cancelled t \<longrightarrow> ep_cancelCooldown e = Some (tm_id t))"

definition recovery_pending :: "endpoint \<Rightarrow> bool" where
  "recovery_pending e \<longleftrightarrow>
     (ep_state e = StateCooldown \<longrightarrow> ep_closeOnce e \<or> has_live e)"

definition channel_ok :: "endpoint \<Rightarrow> bool" where
  "channel_ok e \<longleftrightarrow>
     (ep_closed e \<longrightarrow> ep_closeOnce e \<and> ep_sessions e = []) \<and>
     int (length (ep_sessions e)) \<le> sint (ep_poolSize e)"

definition ep_inv :: "ep_sys \<Rightarrow> bool" where
  "ep_inv s \<longleftrightarrow> timers_ok (es_ep s) \<and> recovery_pending (es_ep s) \<and> channel_ok (es_ep s) \<and>
     (es_closing s \<longrightarrow> ep_closeOnce (es_ep s))"

definition ep_total :: "ep_sys \<Rightarrow> session multiset" where
  "ep_total s = ep_owned (es_ep s) + mset (es_received s) + mset (es_borrowed s)"

named_theorems keeps \<open>operations that keep a part of the invariant\<close>

text \<open>Operations that touch none of the fields the invariant reads, but the state.\<close>

lemmas counter_ops =
  incrementFailCount_def resetFailCount_def recordLatency_among_def countSuccess_def resetTier_def
  setState_def markDead_def

lemma timers_ok_counters [keeps]:
  "timers_ok (incrementFailCount e) = timers_ok e" "timers_ok (resetFailCount e) = timers_ok e"
  "timers_ok (recordLatency_among ws d e) = timers_ok e" "timers_ok (countSuccess e) = timers_ok e"
  "timers_ok (resetTier e) = timers_ok e" "timers_ok (setState st e) = timers_ok e"
  "timers_ok (markDead e) = timers_ok e"
  by (simp_all add: timers_ok_def counter_ops)

lemma recovery_pending_counters [keeps]:
  "recovery_pending (incrementFailCount e) = recovery_pending e"
  "recovery_pending (resetFailCount e) = recovery_pending e"
  "recovery_pending (recordLatency_among ws d e) = recovery_pending e"
  "recovery_pending (countSuccess e) = recovery_pending e"
  "recovery_pending (resetTier e) = recovery_pending e"
  "recovery_pending (setState StateAlive e)" "recovery_pending (markDead e)"
  by (simp_all add: recovery_pending_def has_live_def counter_ops)

lemma channel_ok_counters [keeps]:
  "channel_ok (incrementFailCount e) = channel_ok e" "channel_ok (resetFailCount e) = channel_ok e"
  "channel_ok (recordLatency_among ws d e) = channel_ok e" "channel_ok (countSuccess e) = channel_ok e"
  "channel_ok (resetTier e) = channel_ok e" "channel_ok (setState st e) = channel_ok e"
  "channel_ok (markDead e) = channel_ok e"
  by (simp_all add: channel_ok_def counter_ops)

text \<open>Operations on sessions leave the timers and the state alone.\<close>

lemma acq_select_session:
  "acq_select CaseSession e = Done (Inr x, e') \<longleftrightarrow>
   (\<exists>xs. ep_sessions e = x # xs \<and> e' = e\<lparr>ep_sessions := xs\<rparr>)"
  by (auto split: list.splits)

declare acq_select.simps(2) [simp del]

lemma acq_recheck_cases:
  "acq_recheck x e = (r, e') \<longleftrightarrow>
   (if ep_closed e then r = Inl ErrClientClosed \<and> e' = close_session x e else r = Inr x \<and> e' = e)"
  by (auto simp: acq_recheck_def)

lemma releaseSession_cases:
  "releaseSession (Some x) e =
   (if \<not> ep_closed e \<and> int (length (ep_sessions e)) < sint (ep_poolSize e)
    then e\<lparr>ep_sessions := ep_sessions e @ [x]\<rparr> else close_session x e)"
  by (simp add: releaseSession_def)

lemma inv_sessions_update [keeps]:
  "timers_ok (e\<lparr>ep_sessions := xs\<rparr>) = timers_ok e"
  "recovery_pending (e\<lparr>ep_sessions := xs\<rparr>) = recovery_pending e"
  by (simp_all add: timers_ok_def recovery_pending_def has_live_def)

lemma inv_close_session [keeps]:
  "timers_ok (close_session x e) = timers_ok e"
  "recovery_pending (close_session x e) = recovery_pending e"
  "channel_ok (close_session x e) = channel_ok e"
  by (simp_all add: timers_ok_def recovery_pending_def has_live_def channel_ok_def close_session_def)

lemma inv_releaseSession [keeps]:
  "timers_ok (releaseSession (Some x) e) = timers_ok e"
  "recovery_pending (releaseSession (Some x) e) = recovery_pending e"
  "channel_ok e \<Longrightarrow> channel_ok (releaseSession (Some x) e)"
  by (simp_all add: releaseSession_cases keeps) (simp add: channel_ok_def)

text \<open>\<open>markFailed\<close> in one equation.\<close>

definition superseded :: "endpoint \<Rightarrow> timer list" where
  "superseded e = (case ep_cancelCooldown e of None \<Rightarrow> ep_timers e | Some i \<Rightarrow> ep_timers (cancel_timer i e))"

definition cooled :: "instant \<Rightarrow> duration \<Rightarrow> endpoint \<Rightarrow> endpoint" where
  "cooled now d e =
     e\<lparr>ep_state := StateCooldown, ep_lastFailure := now,
       ep_cooldownTier := ep_cooldownTier e + 1,
       ep_cancelCooldown := Some (ep_nextTimer e),
       ep_timers := superseded e @ [\<lparr>tm_id = ep_nextTimer e, tm_due = now + sint d,
                                     tm_cancelled = False, tm_phase = Sleeping\<rparr>],
       ep_nextTimer := Suc (ep_nextTimer e)\<rparr>"

lemma markFailed_Done:
  "markFailed now base maxc e = Done e' \<longleftrightarrow>
   (\<exists>d. cooldown_duration base maxc (ep_cooldownTier e + 1) = Done d \<and> e' = cooled now d e)"
  by (cases "ep_cancelCooldown e")
     (auto simp: markFailed_def Let_def superseded_def cancel_timer_def cooled_def)

lemma markFailed_runs:
  assumes "0 \<le> sint (ep_cooldownTier e)" "sint (ep_cooldownTier e) < 2 ^ 31 - 1"
  shows "\<exists>e'. markFailed now b m e = Done e' \<and> ep_state e' = StateCooldown \<and>
    sint (ep_cooldownTier e') = sint (ep_cooldownTier e) + 1 \<and> ep_failCount e' = ep_failCount e"
proof -
  have t: "sint (ep_cooldownTier e + 1) = sint (ep_cooldownTier e) + 1" using assms by (intro sint_inc32)
  then obtain d where "cooldown_duration b m (ep_cooldownTier e + 1) = Done d"
    using cooldown_duration_runs[of "ep_cooldownTier e + 1" b m] assms by auto
  then have "markFailed now b m e = Done (cooled now d e)" by (simp add: markFailed_Done)
  then show ?thesis using t by (simp add: cooled_def)
qed

lemma superseded_ids: "map tm_id (superseded e) = map tm_id (ep_timers e)"
  by (simp add: superseded_def cancel_timer_def split: option.split)

lemma superseded_cancelled: "timers_ok e \<Longrightarrow> \<forall>t \<in> set (superseded e). tm_cancelled t"
  by (simp add: superseded_def cancel_timer_def timers_ok_def split: option.split) (metis option.inject option.distinct(1))

lemma superseded_bound: "timers_ok e \<Longrightarrow> \<forall>t \<in> set (superseded e). tm_id t < ep_nextTimer e"
  by (auto simp: superseded_def cancel_timer_def timers_ok_def split: option.split)

lemma timers_ok_cooled:
  assumes "timers_ok e"
  shows "timers_ok (cooled now d e)"
proof -
  have "ep_nextTimer e \<notin> tm_id ` set (superseded e)"
    using superseded_bound[OF assms] by fastforce
  moreover have "distinct (map tm_id (superseded e))"
    using assms by (simp add: superseded_ids timers_ok_def)
  ultimately show ?thesis
    using superseded_bound[OF assms] superseded_cancelled[OF assms]
    by (auto simp: cooled_def timers_ok_def less_Suc_eq)
qed

lemma inv_markFailed [keeps]:
  assumes "markFailed now base maxc e = Done e'"
  shows "timers_ok e \<Longrightarrow> timers_ok e'" "recovery_pending e'" "channel_ok e' = channel_ok e"
  using assms
  by (auto simp: markFailed_Done timers_ok_cooled)
     (auto simp: cooled_def recovery_pending_def has_live_def channel_ok_def)

text \<open>The recovery goroutine and \<open>Close\<close>.\<close>

lemma inv_set_phase [keeps]:
  "timers_ok (set_phase i ph e) = timers_ok e"
  "recovery_pending (set_phase i ph e) = recovery_pending e"
  "channel_ok (set_phase i ph e) = channel_ok e"
  by (simp_all add: timers_ok_def recovery_pending_def has_live_def channel_ok_def set_phase_def
      if_distrib cong: if_cong)

lemma inv_drop_timer [keeps]:
  "timers_ok e \<Longrightarrow> timers_ok (drop_timer i e)"
  "channel_ok (drop_timer i e) = channel_ok e"
  by (auto simp: timers_ok_def channel_ok_def drop_timer_def distinct_map_filter)

lemma recovery_pending_drop:
  assumes "timers_ok e" "recovery_pending e" "can_abandon i e"
  shows "recovery_pending (drop_timer i e)"
proof -
  have "tm_id t \<noteq> i" if "t \<in> set (ep_timers e)" "\<not> tm_cancelled t" for t
    using that assms(1,3) unfolding can_abandon_def timers_ok_def
    by (metis distinct_map inj_on_def)
  then show ?thesis using assms(2)
    by (auto simp: recovery_pending_def has_live_def drop_timer_def)
qed

lemma inv_timer_check [keeps]:
  "timers_ok e \<Longrightarrow> timers_ok (timer_check i e)"
  "recovery_pending e \<Longrightarrow> recovery_pending (timer_check i e)"
  "channel_ok (timer_check i e) = channel_ok e"
  by (simp_all add: timer_check_def keeps) (simp add: recovery_pending_def drop_timer_def)

lemma inv_timer_finish [keeps]:
  "timers_ok e \<Longrightarrow> timers_ok (timer_finish i e)"
  "recovery_pending (timer_finish i e)"
  "channel_ok (timer_finish i e) = channel_ok e"
  by (simp_all add: timer_finish_def keeps)
     (simp add: recovery_pending_def drop_timer_def setState_def resetFailCount_def)

lemma inv_close_cancel [keeps]:
  "timers_ok e \<Longrightarrow> timers_ok (close_cancel (e\<lparr>ep_closeOnce := True\<rparr>))"
  "recovery_pending (close_cancel (e\<lparr>ep_closeOnce := True\<rparr>))"
  "channel_ok e \<Longrightarrow> channel_ok (close_cancel (e\<lparr>ep_closeOnce := True\<rparr>))"
  by (auto simp: timers_ok_def recovery_pending_def channel_ok_def close_cancel_def
      cancel_timer_def split: option.split)

lemma inv_close_drain [keeps]:
  "timers_ok (close_drain e) = timers_ok e"
  "recovery_pending (close_drain e) = recovery_pending e"
  "ep_closeOnce e \<Longrightarrow> channel_ok e \<Longrightarrow> channel_ok (close_drain e)"
  by (auto simp: timers_ok_def recovery_pending_def has_live_def channel_ok_def close_drain_def)

section \<open>Every reachable state\<close>

lemma closeOnce_frame [frame]:
  "ep_closeOnce (e\<lparr>ep_sessions := xs\<rparr>) = ep_closeOnce e"
  "ep_closeOnce (close_session x e) = ep_closeOnce e"
  "ep_closeOnce (releaseSession (Some x) e) = ep_closeOnce e"
  "ep_closeOnce (close_cancel e) = ep_closeOnce e"
  "ep_closeOnce (close_drain e) = ep_closeOnce e"
  "ep_closeOnce (incrementFailCount e) = ep_closeOnce e" "ep_closeOnce (resetFailCount e) = ep_closeOnce e"
  "ep_closeOnce (recordLatency_among ws d e) = ep_closeOnce e"
  "ep_closeOnce (countSuccess e) = ep_closeOnce e" "ep_closeOnce (resetTier e) = ep_closeOnce e"
  "ep_closeOnce (setState st e) = ep_closeOnce e" "ep_closeOnce (markDead e) = ep_closeOnce e"
  "ep_closeOnce (cooled now d e) = ep_closeOnce e"
  "ep_closeOnce (set_phase i ph e) = ep_closeOnce e" "ep_closeOnce (drop_timer i e) = ep_closeOnce e"
  "ep_closeOnce (timer_check i e) = ep_closeOnce e" "ep_closeOnce (timer_finish i e) = ep_closeOnce e"
  by (simp_all add: counter_ops cooled_def set_phase_def drop_timer_def timer_check_def
      timer_finish_def close_session_def releaseSession_cases close_cancel_def cancel_timer_def
      close_drain_def split: option.split)

lemma channel_ok_pop: "channel_ok e \<Longrightarrow> ep_sessions e = x # xs \<Longrightarrow> channel_ok (e\<lparr>ep_sessions := xs\<rparr>)"
  by (simp add: channel_ok_def)

lemma ep_step_inv: "ep_step base maxc s t \<Longrightarrow> ep_inv s \<Longrightarrow> ep_inv t"
proof (induction rule: ep_step.induct)
  case (mark_failed s e')
  then show ?case
    using inv_markFailed[OF mark_failed(2)] by (auto simp: ep_inv_def markFailed_Done frame)
qed (auto simp: ep_inv_def keeps frame acq_select_session acq_recheck_cases channel_ok_pop
       recovery_pending_drop split: if_splits)

lemma ep_steps_inv: "ep_steps base maxc s t \<Longrightarrow> ep_inv s \<Longrightarrow> ep_inv t"
  by (induction rule: rtranclp_induct) (auto intro: ep_step_inv)

text \<open>No step creates, loses or duplicates a session.\<close>

lemma ep_owned_counters [simp]:
  "ep_owned (incrementFailCount e) = ep_owned e" "ep_owned (resetFailCount e) = ep_owned e"
  "ep_owned (recordLatency_among ws d e) = ep_owned e" "ep_owned (countSuccess e) = ep_owned e"
  "ep_owned (resetTier e) = ep_owned e" "ep_owned (setState st e) = ep_owned e"
  "ep_owned (markDead e) = ep_owned e" "ep_owned (cooled now d e) = ep_owned e"
  "ep_owned (set_phase i ph e) = ep_owned e" "ep_owned (drop_timer i e) = ep_owned e"
  "ep_owned (timer_check i e) = ep_owned e" "ep_owned (timer_finish i e) = ep_owned e"
  by (simp_all add: ep_owned_def counter_ops cooled_def set_phase_def drop_timer_def timer_check_def
      timer_finish_def)

lemma ep_step_total: "ep_step base maxc s t \<Longrightarrow> ep_total t = ep_total s"
proof (induction rule: ep_step.induct)
  case (receive s x e')
  then show ?case by (auto simp: ep_total_def acq_select_session ep_owned_def)
next
  case (recheck x s r e')
  then show ?case by (auto simp: ep_total_def acq_recheck_cases split: if_splits)
qed (auto simp: ep_total_def markFailed_Done)

lemma ep_steps_total: "ep_steps base maxc s t \<Longrightarrow> ep_total t = ep_total s"
  by (induction rule: rtranclp_induct) (auto dest: ep_step_total)

lemma ep_steps_owned:
  assumes "ep_steps base maxc (ep_start now e) t"
  shows "ep_owned (es_ep t) + mset (es_received t) + mset (es_borrowed t) = ep_owned e"
  using ep_steps_total[OF assms] by (simp add: ep_total_def ep_start_def)

text \<open>A new endpoint satisfies the invariant.\<close>

lemma blank_endpoint_inv:
  "timers_ok (blank_endpoint u i n r)" "recovery_pending (blank_endpoint u i n r)"
  by (simp_all add: timers_ok_def recovery_pending_def blank_endpoint_def Let_def)

lemma ep_owned_blank [simp]: "ep_owned (blank_endpoint u i n r) = {#}"
  by (simp add: ep_owned_def blank_endpoint_def Let_def)

lemma blank_poolSize_positive: "0 < sint (ep_poolSize (blank_endpoint u i n r))"
  by (simp add: blank_endpoint_def Let_def defaultSessionPoolSize_def)

lemma newEndpoint_Done:
  assumes "newEndpointWithFactory u i n r factory k = (None, e, k')"
  shows "e = (blank_endpoint u i n r)\<lparr>ep_sessions := created factory u k k'\<rparr>"
    and "int (length (ep_sessions e)) = sint (ep_poolSize e)" and "k \<le> k'"
proof -
  let ?b = "blank_endpoint u i n r"
  have eq: "open_sessions factory (nat (sint (ep_poolSize ?b))) 0 k ?b = (None, e, k')"
    using assms by (simp add: newEndpointWithFactory_def Let_def)
  have b: "\<not> ep_closeOnce ?b" "ep_closedSessions ?b = []" "ep_sessions ?b = []" "ep_url ?b = u"
    by (simp_all add: blank_endpoint_def Let_def)
  have "e = ?b\<lparr>ep_sessions := created factory u k k'\<rparr> \<and>
        length (ep_sessions e) = nat (sint (ep_poolSize ?b))"
    using open_sessions_fields[OF eq b(1,2)] unfolding b option.case append_Nil list.size add_0 .
  then have f: "e = ?b\<lparr>ep_sessions := created factory u k k'\<rparr>"
    and l: "length (ep_sessions e) = nat (sint (ep_poolSize ?b))" by blast+
  from f show "e = ?b\<lparr>ep_sessions := created factory u k k'\<rparr>" .
  have "ep_poolSize e = ep_poolSize ?b" by (simp add: f)
  then show "int (length (ep_sessions e)) = sint (ep_poolSize e)"
    using l blank_poolSize_positive[of u i n r] by simp
  from open_sessions_calls[OF eq] show "k \<le> k'" by simp
qed

lemma newEndpoint_inv:
  assumes "newEndpointWithFactory u i n r factory k = (None, e, k')"
  shows "ep_inv (ep_start now e)" "ep_owned e = mset (created factory u k k')"
proof -
  note e = newEndpoint_Done[OF assms]
  have "channel_ok e" unfolding channel_ok_def
    using e(2) by (simp add: e(1)) (simp add: blank_endpoint_def Let_def)
  then show "ep_inv (ep_start now e)"
    using blank_endpoint_inv[of u i n r] by (simp add: ep_inv_def ep_start_def e(1) keeps)
  show "ep_owned e = mset (created factory u k k')"
    by (simp add: e(1) ep_owned_def) (simp add: blank_endpoint_def Let_def)
qed

section \<open>Running the machine\<close>

text \<open>The steps as an executable function of a label, so that a schedule can be evaluated.\<close>

datatype ep_label =
    LTick instant | LReceive | LRecheck session | LRelease session | LCloseFirst | LCloseSecond
  | LIncFail | LResetFail | LLatency duration | LSuccess | LResetTier | LResetState | LMarkDead
  | LMarkFailed | LWake nat | LAbandon nat | LCheck nat | LFinish nat

definition guarded :: "bool \<Rightarrow> 'a \<Rightarrow> 'a option" where
  "guarded b x = (if b then Some x else None)"

lemma guarded_Some [simp]: "guarded b x = Some y \<longleftrightarrow> b \<and> x = y"
  by (simp add: guarded_def)

fun ep_exec :: "duration \<Rightarrow> duration \<Rightarrow> ep_label \<Rightarrow> ep_sys \<Rightarrow> ep_sys option" where
  "ep_exec base maxc (LTick n) s = guarded (es_now s \<le> n) (s\<lparr>es_now := n\<rparr>)"
| "ep_exec base maxc LReceive s =
     (case ep_sessions (es_ep s) of
        [] \<Rightarrow> None
      | x # xs \<Rightarrow> Some (s\<lparr>es_ep := (es_ep s)\<lparr>ep_sessions := xs\<rparr>, es_received := x # es_received s\<rparr>))"
| "ep_exec base maxc (LRecheck x) s =
     guarded (x \<in> set (es_received s))
       (case acq_recheck x (es_ep s) of (r, e') \<Rightarrow>
          s\<lparr>es_ep := e', es_received := remove1 x (es_received s),
            es_borrowed := (case r of Inl _ \<Rightarrow> es_borrowed s | Inr y \<Rightarrow> y # es_borrowed s)\<rparr>)"
| "ep_exec base maxc (LRelease x) s =
     guarded (x \<in> set (es_borrowed s))
       (s\<lparr>es_ep := releaseSession (Some x) (es_ep s), es_borrowed := remove1 x (es_borrowed s)\<rparr>)"
| "ep_exec base maxc LCloseFirst s =
     guarded (\<not> ep_closeOnce (es_ep s) \<and> \<not> mu_held (es_ep s))
       (s\<lparr>es_ep := close_cancel ((es_ep s)\<lparr>ep_closeOnce := True\<rparr>), es_closing := True\<rparr>)"
| "ep_exec base maxc LCloseSecond s =
     guarded (es_closing s) (s\<lparr>es_ep := close_drain (es_ep s), es_closing := False\<rparr>)"
| "ep_exec base maxc LIncFail s = Some (s\<lparr>es_ep := incrementFailCount (es_ep s)\<rparr>)"
| "ep_exec base maxc LResetFail s = Some (s\<lparr>es_ep := resetFailCount (es_ep s)\<rparr>)"
| "ep_exec base maxc (LLatency d) s = Some (s\<lparr>es_ep := recordLatency_among [] d (es_ep s)\<rparr>)"
| "ep_exec base maxc LSuccess s = Some (s\<lparr>es_ep := countSuccess (es_ep s)\<rparr>)"
| "ep_exec base maxc LResetTier s = Some (s\<lparr>es_ep := resetTier (es_ep s)\<rparr>)"
| "ep_exec base maxc LResetState s = Some (s\<lparr>es_ep := setState StateAlive (es_ep s)\<rparr>)"
| "ep_exec base maxc LMarkDead s = Some (s\<lparr>es_ep := markDead (es_ep s)\<rparr>)"
| "ep_exec base maxc LMarkFailed s =
     (if mu_held (es_ep s) then None
      else case markFailed (es_now s) base maxc (es_ep s) of
        Done e' \<Rightarrow> Some (s\<lparr>es_ep := e'\<rparr>)
      | _ \<Rightarrow> None)"
| "ep_exec base maxc (LWake i) s =
     guarded (can_wake (es_now s) i (es_ep s)) (s\<lparr>es_ep := set_phase i Woken (es_ep s)\<rparr>)"
| "ep_exec base maxc (LAbandon i) s =
     guarded (can_abandon i (es_ep s)) (s\<lparr>es_ep := drop_timer i (es_ep s)\<rparr>)"
| "ep_exec base maxc (LCheck i) s =
     guarded (can_check i (es_ep s)) (s\<lparr>es_ep := timer_check i (es_ep s)\<rparr>)"
| "ep_exec base maxc (LFinish i) s =
     guarded (can_finish i (es_ep s)) (s\<lparr>es_ep := timer_finish i (es_ep s)\<rparr>)"

fun ep_run :: "duration \<Rightarrow> duration \<Rightarrow> ep_label list \<Rightarrow> ep_sys \<Rightarrow> ep_sys option" where
  "ep_run base maxc [] s = Some s"
| "ep_run base maxc (l # ls) s = Option.bind (ep_exec base maxc l s) (ep_run base maxc ls)"

lemma ep_exec_step: "ep_exec base maxc l s = Some t \<Longrightarrow> ep_step base maxc s t"
  by (cases l)
     (auto simp: acq_select.simps(2) split: if_splits run.splits list.splits prod.splits
       intro: ep_step.intros)

lemma ep_run_steps: "ep_run base maxc ls s = Some t \<Longrightarrow> ep_steps base maxc s t"
  by (induction ls arbitrary: s)
     (auto simp: bind_eq_Some_conv intro: converse_rtranclp_into_rtranclp ep_exec_step)

text \<open>The runtime on its own: time passes and recovery goroutines run, no request does anything.\<close>

fun idle_label :: "ep_label \<Rightarrow> bool" where
  "idle_label (LTick n) = True"
| "idle_label (LWake i) = True"
| "idle_label (LAbandon i) = True"
| "idle_label (LCheck i) = True"
| "idle_label (LFinish i) = True"
| "idle_label _ = False"

section \<open>Recovery\<close>

text \<open>A goroutine that is not cancelled is due within the longest cooldown of the last failure.\<close>

definition due_ok :: "duration \<Rightarrow> endpoint \<Rightarrow> bool" where
  "due_ok maxc e \<longleftrightarrow>
     (\<forall>t \<in> set (ep_timers e). \<not> tm_cancelled t \<longrightarrow> tm_due t \<le> ep_lastFailure e + sint maxc)"

lemma due_ok_counters [keeps]:
  "due_ok m (incrementFailCount e) = due_ok m e" "due_ok m (resetFailCount e) = due_ok m e"
  "due_ok m (recordLatency_among ws d e) = due_ok m e" "due_ok m (countSuccess e) = due_ok m e"
  "due_ok m (resetTier e) = due_ok m e" "due_ok m (setState st e) = due_ok m e"
  "due_ok m (markDead e) = due_ok m e" "due_ok m (e\<lparr>ep_sessions := xs\<rparr>) = due_ok m e"
  "due_ok m (close_session x e) = due_ok m e" "due_ok m (close_drain e) = due_ok m e"
  "due_ok m (releaseSession (Some x) e) = due_ok m e"
  by (simp_all add: due_ok_def counter_ops close_session_def close_drain_def releaseSession_cases)

lemma due_ok_timers [keeps]:
  "due_ok m (set_phase i ph e) = due_ok m e"
  "due_ok m e \<Longrightarrow> due_ok m (drop_timer i e)"
  "due_ok m e \<Longrightarrow> due_ok m (close_cancel (e\<lparr>ep_closeOnce := b\<rparr>))"
  by (auto simp: due_ok_def set_phase_def drop_timer_def close_cancel_def cancel_timer_def
      split: option.split)

lemma due_ok_recovery [keeps]:
  "due_ok m e \<Longrightarrow> due_ok m (timer_check i e)" "due_ok m e \<Longrightarrow> due_ok m (timer_finish i e)"
  by (simp_all add: timer_check_def timer_finish_def keeps)

lemma due_ok_markFailed [keeps]:
  assumes "markFailed now base maxc e = Done e'" "timers_ok e" "0 < sint maxc"
  shows "due_ok maxc e'"
  using assms(1) superseded_cancelled[OF assms(2)] cooldown_duration_capped[OF _ assms(3)]
  by (auto simp: markFailed_Done due_ok_def cooled_def)

lemma ep_step_due: "ep_step base maxc s t \<Longrightarrow> 0 < sint maxc \<Longrightarrow> ep_inv s \<Longrightarrow>
  due_ok maxc (es_ep s) \<Longrightarrow> due_ok maxc (es_ep t)"
  by (induction rule: ep_step.induct)
     (auto simp: keeps acq_select_session acq_recheck_cases ep_inv_def split: if_splits)

lemma ep_steps_due:
  assumes "ep_steps base maxc s t" "0 < sint maxc" "ep_inv s" "due_ok maxc (es_ep s)"
  shows "due_ok maxc (es_ep t)"
  using assms
  by (induction rule: rtranclp_induct) (auto intro: ep_step_due dest: ep_steps_inv)

text \<open>The state of a pending goroutine decides which steps are left until the endpoint is back.\<close>

lemma mu_held_set_phase: "\<not> mu_held e \<Longrightarrow> ph \<noteq> Checked \<Longrightarrow> \<not> mu_held (set_phase i ph e)"
  by (simp add: mu_held_def set_phase_def)

lemma recover_from_woken:
  assumes "can_check i (es_ep s)" "ep_state (es_ep s) = StateCooldown"
  shows "ep_run base maxc [LCheck i, LFinish i] s =
           Some (s\<lparr>es_ep := timer_finish i (set_phase i Checked (es_ep s))\<rparr>)"
proof -
  have "can_finish i (set_phase i Checked (es_ep s))"
    using assms(1) by (auto simp: can_check_def can_finish_def set_phase_def)
  with assms show ?thesis by (simp add: guarded_def timer_check_def)
qed

lemma recover_from_sleeping:
  assumes "t \<in> set (ep_timers (es_ep s))" "tm_phase t = Sleeping" "\<not> mu_held (es_ep s)"
    "ep_state (es_ep s) = StateCooldown"
  shows "ep_run base maxc [LTick (max (es_now s) (tm_due t)), LWake (tm_id t), LCheck (tm_id t), LFinish (tm_id t)] s =
           Some (s\<lparr>es_now := max (es_now s) (tm_due t),
             es_ep := timer_finish (tm_id t) (set_phase (tm_id t) Checked (set_phase (tm_id t) Woken (es_ep s)))\<rparr>)"
proof -
  let ?n = "max (es_now s) (tm_due t)" and ?i = "tm_id t"
  let ?s = "s\<lparr>es_now := ?n, es_ep := set_phase ?i Woken (es_ep s)\<rparr>"
  have "can_wake ?n ?i (es_ep s)" using assms by (auto simp: can_wake_def)
  then have "ep_run base maxc [LTick ?n, LWake ?i, LCheck ?i, LFinish ?i] s =
             ep_run base maxc [LCheck ?i, LFinish ?i] ?s"
    by (simp add: guarded_def)
  moreover have "can_check ?i (es_ep ?s)"
    using assms(1) mu_held_set_phase[OF assms(3)] by (auto simp: can_check_def set_phase_def)
  ultimately show ?thesis
    using recover_from_woken[of ?i ?s base maxc] assms(4) by (simp add: set_phase_def)
qed

lemma timer_finish_alive:
  "ep_state (timer_finish i e) = StateAlive" "ep_failCount (timer_finish i e) = 0"
  by (simp_all add: timer_finish_def drop_timer_def resetFailCount_def setState_def)

text \<open>By the instant \<open>deadline\<close> the runtime alone can bring the endpoint back.\<close>

definition recovers_by :: "duration \<Rightarrow> duration \<Rightarrow> instant \<Rightarrow> ep_sys \<Rightarrow> bool" where
  "recovers_by base maxc deadline s \<longleftrightarrow>
     (\<exists>ls t. list_all idle_label ls \<and> ep_run base maxc ls s = Some t \<and>
        ep_state (es_ep t) = StateAlive \<and> ep_failCount (es_ep t) = 0 \<and> es_now t \<le> deadline)"

lemma recovers_byI:
  "ep_run base maxc ls s = Some (s\<lparr>es_now := n, es_ep := timer_finish i e\<rparr>) \<Longrightarrow>
   list_all idle_label ls \<Longrightarrow> n \<le> deadline \<Longrightarrow> recovers_by base maxc deadline s"
  unfolding recovers_by_def by (intro exI conjI) (assumption | simp add: timer_finish_alive)+

lemma recovery_run:
  assumes inv: "ep_inv s" and cool: "ep_state (es_ep s) = StateCooldown"
    and op: "\<not> ep_closeOnce (es_ep s)" and due: "due_ok maxc (es_ep s)"
  shows "recovers_by base maxc (max (es_now s) (ep_lastFailure (es_ep s) + sint maxc)) s"
proof (cases "mu_held (es_ep s)")
  case True
  then obtain i where "can_finish i (es_ep s)" by (auto simp: mu_held_def can_finish_def)
  then show ?thesis
    by (intro recovers_byI[where ls = "[LFinish i]" and n = "es_now s" and i = i])
       (simp_all add: guarded_def)
next
  case False
  obtain t where t: "t \<in> set (ep_timers (es_ep s))" "\<not> tm_cancelled t"
    using inv cool op by (auto simp: ep_inv_def recovery_pending_def has_live_def)
  have d: "tm_due t \<le> ep_lastFailure (es_ep s) + sint maxc" using due t by (simp add: due_ok_def)
  consider (Sleeping) "tm_phase t = Sleeping" | (Woken) "can_check (tm_id t) (es_ep s)"
    using False t(1) by (cases "tm_phase t") (auto simp: can_check_def mu_held_def)
  then show ?thesis
  proof cases
    case Sleeping
    show ?thesis
      by (rule recovers_byI[OF recover_from_sleeping[OF t(1) Sleeping False cool]]) (use d in auto)
  next
    case Woken
    have "s\<lparr>es_now := es_now s, es_ep := e\<rparr> = s\<lparr>es_ep := e\<rparr>" for e by simp
    note run = recover_from_woken[OF Woken cool, folded this]
    show ?thesis by (rule recovers_byI[OF run]) auto
  qed
qed

section \<open>Properties\<close>

text \<open>A two-session endpoint, for the witnesses and the schedules below.\<close>

definition sample_factory :: factory where
  "sample_factory k url = Inr k"

definition sample_endpoint :: endpoint where
  "sample_endpoint = fst (snd (newEndpointWithFactory ''http://p:1'' 1 2 (FNum 0) sample_factory 0))"

lemma sample_endpoint_new:
  "newEndpointWithFactory ''http://p:1'' 1 2 (FNum 0) sample_factory 0 = (None, sample_endpoint, 2)"
  by (simp add: newEndpointWithFactory_def blank_endpoint_def sample_endpoint_def sample_factory_def
      numeral_2_eq_2)

lemma sample_endpoint_eq:
  "sample_endpoint = (blank_endpoint ''http://p:1'' 1 2 (FNum 0))\<lparr>ep_sessions := [0, 1]\<rparr>"
  by (simp add: newEndpointWithFactory_def blank_endpoint_def sample_endpoint_def sample_factory_def
      numeral_2_eq_2)

lemma new_endpoint_reachable:
  assumes "newEndpointWithFactory u i n r factory k = (None, e, k')"
    "ep_steps base maxc (ep_start now e) t"
  shows "ep_inv t"
  using ep_steps_inv[OF assms(2)] newEndpoint_inv[OF assms(1)] by blast

text \<open>Whatever goroutines do and however they interleave, every session the constructor opened
  is in exactly one place: in the channel, held by one goroutine, or closed (once).\<close>

theorem sessions_conserved:
  assumes "newEndpointWithFactory u i n r factory k = (None, e, k')"
    and "distinct (created factory u k k')"
    and "ep_steps base maxc (ep_start now e) t"
  shows "distinct (ep_sessions (es_ep t) @ es_received t @ es_borrowed t @ ep_closedSessions (es_ep t)) \<and>
         set (ep_sessions (es_ep t) @ es_received t @ es_borrowed t @ ep_closedSessions (es_ep t)) =
         set (created factory u k k')"
proof -
  have m: "mset (ep_sessions (es_ep t) @ es_received t @ es_borrowed t @ ep_closedSessions (es_ep t)) =
        mset (created factory u k k')"
    using ep_steps_owned[OF assms(3)] newEndpoint_inv(2)[OF assms(1)] by (simp add: ep_owned_def ac_simps)
  from mset_eq_imp_distinct_iff[OF m] mset_eq_setD[OF m] assms(2) show ?thesis by simp
qed

text \<open>C10. An endpoint in cooldown that has not been closed has exactly one recovery goroutine that
  is not cancelled, and it is the one its cancel function stops.\<close>

theorem cooldown_has_one_recovery:
  assumes "newEndpointWithFactory u i n r factory k = (None, e, k')"
    and "ep_steps base maxc (ep_start now e) t"
    and "ep_state (es_ep t) = StateCooldown" and "\<not> ep_closeOnce (es_ep t)"
  shows "\<exists>g. {g' \<in> set (ep_timers (es_ep t)). \<not> tm_cancelled g'} = {g} \<and>
             ep_cancelCooldown (es_ep t) = Some (tm_id g)"
proof -
  have inv: "timers_ok (es_ep t)" and "has_live (es_ep t)"
    using new_endpoint_reachable[OF assms(1,2)] assms(3,4)
    by (auto simp: ep_inv_def recovery_pending_def)
  then obtain g where g: "g \<in> set (ep_timers (es_ep t))" "\<not> tm_cancelled g"
    by (auto simp: has_live_def)
  have "g' = g" if "g' \<in> set (ep_timers (es_ep t))" "\<not> tm_cancelled g'" for g'
  proof -
    have "inj_on tm_id (set (ep_timers (es_ep t)))" using inv by (simp add: timers_ok_def distinct_map)
    moreover have "ep_cancelCooldown (es_ep t) = Some (tm_id g')" "ep_cancelCooldown (es_ep t) = Some (tm_id g)"
      using inv g that unfolding timers_ok_def by blast+
    ultimately show ?thesis using g(1) that(1) by (auto dest: inj_onD)
  qed
  with g have "{g' \<in> set (ep_timers (es_ep t)). \<not> tm_cancelled g'} = {g}" by blast
  moreover have "ep_cancelCooldown (es_ep t) = Some (tm_id g)"
    using inv g unfolding timers_ok_def by blast
  ultimately show ?thesis by blast
qed

lemma sample_mark_failed:
  "ep_run 30 300 [LMarkFailed] (ep_start 0 sample_endpoint) =
   Some (ep_start 0 (cooled 0 30 sample_endpoint))"
  by (simp add: ep_start_def sample_endpoint_eq blank_endpoint_def mu_held_def markFailed_def
      cooldown_duration_def cooldown_multiplier_def cooled_def superseded_def)

theorem cooldown_has_one_recovery_witness:
  "\<exists>g. {g' \<in> set (ep_timers (cooled 0 30 sample_endpoint)). \<not> tm_cancelled g'} = {g} \<and>
       ep_cancelCooldown (cooled 0 30 sample_endpoint) = Some (tm_id g)"
  using cooldown_has_one_recovery[OF sample_endpoint_new ep_run_steps[OF sample_mark_failed]]
  by (simp add: ep_start_def) (simp add: cooled_def sample_endpoint_eq blank_endpoint_def)



text \<open>C20. \<open>markFailed\<close> escalates: with tier \<open>k\<close> behind it the endpoint goes into cooldown for
  \<open>min MaxCooldown (2 ^ min k 4 * base)\<close>, its tier becomes \<open>k + 1\<close>, and every earlier recovery
  goroutine is cancelled.\<close>

theorem markFailed_escalates:
  assumes "timers_ok e" and "0 \<le> sint (ep_cooldownTier e)" and "sint (ep_cooldownTier e) < 2 ^ 31 - 1"
    and "0 \<le> sint base" and "sint base * 16 \<le> max_int64" and "0 < sint maxc"
  shows "\<exists>e' g gs. markFailed now base maxc e = Done e' \<and> ep_state e' = StateCooldown \<and>
    sint (ep_cooldownTier e') = sint (ep_cooldownTier e) + 1 \<and> ep_lastFailure e' = now \<and>
    ep_timers e' = gs @ [g] \<and> (\<forall>g' \<in> set gs. tm_cancelled g') \<and> \<not> tm_cancelled g \<and>
    ep_cancelCooldown e' = Some (tm_id g) \<and>
    tm_due g = now + min (sint maxc) (sint base * 2 ^ nat (min (sint (ep_cooldownTier e)) 4))"
proof -
  have tier: "sint (ep_cooldownTier e + 1) = sint (ep_cooldownTier e) + 1"
    using assms(3) by (rule sint_inc32)
  then obtain d where d: "cooldown_duration base maxc (ep_cooldownTier e + 1) = Done d"
      "sint d = min (sint maxc) (sint base * 2 ^ nat (min (sint (ep_cooldownTier e)) 4))"
    using cooldown_duration_exact[OF assms(4-6), of "ep_cooldownTier e + 1"] assms(2) by auto
  then have "markFailed now base maxc e = Done (cooled now d e)" by (simp add: markFailed_Done)
  then show ?thesis
    using d(2) tier superseded_cancelled[OF assms(1)]
    by (intro exI[of _ "cooled now d e"]) (simp add: cooled_def)
qed

theorem markFailed_escalates_witness:
  "\<exists>e' g gs. markFailed 5 30 300 sample_endpoint = Done e' \<and> ep_state e' = StateCooldown \<and>
    sint (ep_cooldownTier e') = 1 \<and> ep_lastFailure e' = 5 \<and>
    ep_timers e' = gs @ [g] \<and> (\<forall>g' \<in> set gs. tm_cancelled g') \<and> \<not> tm_cancelled g \<and>
    ep_cancelCooldown e' = Some (tm_id g) \<and> tm_due g = 35"
  using markFailed_escalates[of sample_endpoint 30 300 5]
  by (simp add: sample_endpoint_eq blank_endpoint_def timers_ok_def max_int64_def)

lemma mu_held_drop_timer: "\<not> mu_held e \<Longrightarrow> \<not> mu_held (drop_timer i e)"
  by (simp add: mu_held_def drop_timer_def)

lemma can_finish_mu_held: "can_finish i e \<Longrightarrow> mu_held e"
  by (auto simp: can_finish_def mu_held_def)

lemma state_frame [frame]:
  "ep_state (set_phase i ph e) = ep_state e" "ep_state (drop_timer i e) = ep_state e"
  by (simp_all add: set_phase_def drop_timer_def)

text \<open>Steps of the runtime keep a dead endpoint dead unless one of them is already past its test.\<close>

lemma idle_step_dead:
  assumes "ep_exec base maxc l s = Some t" "idle_label l" "ep_state (es_ep s) = StateDead" "\<not> mu_held (es_ep s)"
  shows "ep_state (es_ep t) = StateDead \<and> \<not> mu_held (es_ep t)"
  using assms
  by (cases l)
     (auto simp: timer_check_def frame mu_held_set_phase mu_held_drop_timer dest: can_finish_mu_held)

text \<open>A dead endpoint does not recover on its own: whatever recovery goroutines are pending and
  however much time passes, it stays dead (provided none of them is, at the moment it dies, between
  its test of the state and its store).\<close>

theorem dead_stays_dead:
  assumes "ep_state (es_ep s) = StateDead" and "\<not> mu_held (es_ep s)"
    and "list_all idle_label ls" and "ep_run base maxc ls s = Some t"
  shows "ep_state (es_ep t) = StateDead"
  using assms
proof (induction ls arbitrary: s)
  case (Cons l ls)
  then obtain s' where s': "ep_exec base maxc l s = Some s'" "ep_run base maxc ls s' = Some t"
    by (auto simp: bind_eq_Some_conv)
  with Cons.prems idle_step_dead[OF s'(1)] show ?case by (intro Cons.IH[OF _ _ _ s'(2)]) auto
qed simp



end
