(* ===== verification/Weight.thy ===== *)
theory Weight
  imports Cooldown
begin

text \<open>
  The numbers an endpoint is judged by: the moving average of its latency
  (\<open>recordLatency\<close>, in \<open>float64\<close> arithmetic truncated to nanoseconds) and its selection weight.
  The lemmas bound both and show that the weight orders endpoints the way it is meant to.
\<close>

section \<open>The moving average\<close>

lemma fround_7_10: "fround (7/10) = 3152519739159347 / 4503599627370496"
  by code_simp

lemma fround_3_10: "fround (3/10) = 5404319552844595 / 18014398509481984"
  by code_simp

lemma fround_within:
  assumes "q = 0 \<or> 2 powi (- 1022) \<le> q"
  shows "\<bar>fround q - q\<bar> \<le> q / 9007199254740992"
proof (cases "q = 0")
  case False
  with assms have "2 powi (- 1022) \<le> q" by simp
  moreover from this have "0 < q" by (meson less_le_trans zero_less_power_int zero_less_numeral)
  ultimately show ?thesis using fround_rel_error[of q] by simp
qed simp

lemma tiny: "(2 :: rat) powi (- 1022) \<le> 1/4"
proof -
  have "(2 :: rat) powi (- 1022) \<le> 2 powi (- 2)" by (rule powi2_mono) simp
  also have "(2 :: rat) powi (- 2) = 1/4" by (simp add: power_int_minus)
  finally show ?thesis .
qed

lemma not_tiny: "1/4 \<le> q \<Longrightarrow> 2 powi (- 1022) \<le> (q :: rat)"
  using tiny by linarith

lemma abs_leD: "\<bar>x\<bar> \<le> (y :: rat) \<Longrightarrow> x \<le> y" "\<bar>x\<bar> \<le> (y :: rat) \<Longrightarrow> - x \<le> y"
  by linarith+

text \<open>The three roundings of one update, for exact arguments.\<close>

definition ema_rat :: "rat \<Rightarrow> rat \<Rightarrow> rat" where
  "ema_rat a b = fround (fround (a * fround (7/10)) + fround (b * fround (3/10)))"

lemma fround_close: "q = 0 \<or> 1/4 \<le> q \<Longrightarrow> \<bar>fround q - q\<bar> \<le> q / 9007199254740992"
  using fround_within[of q] not_tiny[of q] by blast

lemma ema_products:
  assumes a: "1 \<le> a" "a \<le> 2251799813685248" and b: "b = 0 \<or> 1 \<le> b" "b \<le> 2251799813685248"
  defines "c7 \<equiv> 3152519739159347 / 4503599627370496" and "c3 \<equiv> 5404319552844595 / 18014398509481984"
  defines "p \<equiv> fround (a * c7)" and "q \<equiv> fround (b * c3)"
  shows "ema_rat a b = fround (p + q)" "1/4 \<le> p + q"
    "a * c7 - 7/40 \<le> p" "p \<le> a * c7 + 7/40" "b * c3 - 3/40 \<le> q" "q \<le> b * c3 + 3/40"
proof -
  show "ema_rat a b = fround (p + q)" by (simp only: ema_rat_def p_def q_def c7_def c3_def fround_7_10 fround_3_10)
  have "1/4 \<le> a * c7" using a unfolding c7_def by linarith
  then have p: "\<bar>p - a * c7\<bar> \<le> a * c7 / 9007199254740992" unfolding p_def by (intro fround_close disjI2)
  have "b * c3 = 0 \<or> 1/4 \<le> b * c3" using b(1) unfolding c3_def by (elim disjE) (simp, linarith)
  then have q: "\<bar>q - b * c3\<bar> \<le> b * c3 / 9007199254740992" unfolding q_def by (rule fround_close)
  have b0: "0 \<le> b" using b(1) by linarith
  show "1/4 \<le> p + q" using p q a b0 b(2) unfolding c7_def c3_def abs_le_iff by linarith
  show "a * c7 - 7/40 \<le> p" "p \<le> a * c7 + 7/40"
    using p[THEN abs_leD(1)] p[THEN abs_leD(2)] a unfolding c7_def by linarith+
  show "b * c3 - 3/40 \<le> q" "q \<le> b * c3 + 3/40"
    using q[THEN abs_leD(1)] q[THEN abs_leD(2)] b0 b(2) unfolding c3_def by linarith+
qed

lemma ema_rat_bounds:
  assumes a: "a = of_int i" "1 \<le> i" "i \<le> 2 ^ 51" and b: "b = of_int j" "0 \<le> j" "j \<le> 2 ^ 51"
  shows "of_int (min i j) - 1 < ema_rat a b" and "ema_rat a b < of_int (max i j) + 1"
proof -
  have ai: "1 \<le> a" "a \<le> 2251799813685248"
    using a(2,3) of_int_le_iff[of 1 i, where 'a = rat] of_int_le_iff[of i "2 ^ 51", where 'a = rat] by (simp_all add: a(1))
  have bj: "b = 0 \<or> 1 \<le> b" "0 \<le> b" "b \<le> 2251799813685248"
    using b(2,3) of_int_le_iff[of 1 j, where 'a = rat] of_int_le_iff[of j "2 ^ 51", where 'a = rat] by (auto simp: b(1))
  note pq = ema_products[OF ai bj(1,3)]
  define s where "s = fround (a * (3152519739159347 / 4503599627370496)) + fround (b * (5404319552844595 / 18014398509481984))"
  have r: "\<bar>ema_rat a b - s\<bar> \<le> s / 9007199254740992"
    unfolding pq(1) s_def by (intro fround_close disjI2 pq(2))
  define l h :: rat where "l = of_int (min i j)" and "h = of_int (max i j)"
  then have m: "l \<le> a" "l \<le> b" "a \<le> h" "b \<le> h"
    by (simp_all add: a b)
  have h: "h \<le> 2251799813685248" using ai bj by (simp add: h_def a(1) b(1) split: if_splits)
  have ml: "l - l / 18014398509481984 - 1/4 \<le> s" "s \<le> h - h / 18014398509481984 + 1/4"
    using pq(3-6) m unfolding s_def by linarith+
  have "s \<le> 2251799813685248 + 1/4" using ml(2) h m(3) ai(1) by linarith
  then have small: "s / 9007199254740992 \<le> 26/100" by linarith
  have "l - 1 < ema_rat a b" using r[THEN abs_leD(2)] small ml(1) m(1) ai(2) by linarith
  then show "of_int (min i j) - 1 < ema_rat a b" by (simp only: l_def)
  have "ema_rat a b < h + 1" using r[THEN abs_leD(1)] small ml(2) m(3) ai(1) by linarith
  then show "ema_rat a b < of_int (max i j) + 1" by (simp only: h_def)
qed

lemma fround_nonneg_le:
  assumes "0 \<le> q" "q \<le> of_int k" "\<bar>k\<bar> \<le> 2 ^ 53"
  shows "rnd q = FNum (fround q)"
proof (rule rnd_FNum)
  show "\<bar>q\<bar> \<le> of_int k" using assms by simp
  show "representable (of_int k)" by (rule representable_of_int) (rule assms(3))
  have "(of_int k :: rat) \<le> of_int (2 ^ 53)" using assms(3) by (simp only: of_int_le_iff abs_le_iff)
  then show "(of_int k :: rat) < 2 ^ 1024" by (rule order_le_less_trans) simp
qed

lemma rnd_const: "rnd (7/10) = FNum (fround (7/10))" "rnd (3/10) = FNum (fround (3/10))"
  by (rule fround_nonneg_le[where k = 1]; simp)+

lemma rat_trunc_between:
  assumes "of_int l - 1 < q" "q < of_int h + 1" "1 \<le> l" "l \<le> h"
  shows "l - 1 \<le> rat_trunc q" "rat_trunc q \<le> h"
proof -
  have "(of_int 1 :: rat) \<le> of_int l" using assms(3) by (simp only: of_int_le_iff)
  then have q: "0 \<le> q" using assms(1) by simp
  have "l - 1 \<le> \<lfloor>q\<rfloor>" using assms(1) by (simp add: le_floor_iff less_imp_le)
  moreover have "\<lfloor>q\<rfloor> \<le> h" using assms(2) by (simp add: floor_le_iff)
  ultimately show "l - 1 \<le> rat_trunc q" "rat_trunc q \<le> h" using q by (simp_all add: rat_trunc_def)
qed

text \<open>An average that is known, and a sample, are folded within a nanosecond of their range.\<close>

lemma ema_floats:
  fixes i j :: int
  assumes "0 \<le> i" "i \<le> 2 ^ 51" "0 \<le> j" "j \<le> 2 ^ 51"
  shows "fadd (fmul (f_of_int i) (rnd (7/10))) (fmul (f_of_int j) (rnd (3/10))) = FNum (ema_rat (of_int i) (of_int j))"
    and "0 \<le> ema_rat (of_int i) (of_int j)"
proof -
  define x where "x = fround (of_int i * fround (7/10))"
  define y where "y = fround (of_int j * fround (3/10))"
  have ri: "(0 :: rat) \<le> of_int i" "(0 :: rat) \<le> of_int j" using assms by simp_all
  have c: "0 \<le> fround (7/10)" "fround (7/10) \<le> 1" "0 \<le> fround (3/10)" "fround (3/10) \<le> 1"
    by (simp_all add: fround_7_10 fround_3_10)
  have xq: "of_int i * fround (7/10) \<le> of_int i" "0 \<le> of_int i * fround (7/10)"
    and yq: "of_int j * fround (3/10) \<le> of_int j" "0 \<le> of_int j * fround (3/10)"
    using ri c by (simp_all add: mult_left_le)
  have e: "fmul (f_of_int i) (rnd (7/10)) = FNum x" "fmul (f_of_int j) (rnd (3/10)) = FNum y"
    using fround_nonneg_le[OF xq(2) xq(1)] fround_nonneg_le[OF yq(2) yq(1)] assms
    by (simp_all add: f_of_int_exact rnd_const x_def y_def)
  have xb: "0 \<le> x" "x \<le> of_int i" and yb: "0 \<le> y" "y \<le> of_int j"
    unfolding x_def y_def using fround_nonneg[OF xq(2)] fround_le[OF xq(1) representable_of_int]
      fround_nonneg[OF yq(2)] fround_le[OF yq(1) representable_of_int] assms by simp_all
  show "fadd (fmul (f_of_int i) (rnd (7/10))) (fmul (f_of_int j) (rnd (3/10))) = FNum (ema_rat (of_int i) (of_int j))"
    using fround_nonneg_le[of "x + y" "i + j"] xb yb assms
    by (simp add: e ema_rat_def x_def[symmetric] y_def[symmetric])
  show "0 \<le> ema_rat (of_int i) (of_int j)"
    unfolding ema_rat_def using xb yb by (simp add: fround_nonneg x_def[symmetric] y_def[symmetric])
qed

lemma ema_fold_between:
  fixes i j :: int
  assumes "1 \<le> i" "i \<le> 2 ^ 51" "0 \<le> j" "j \<le> 2 ^ 51"
  defines "w \<equiv> f_to_int64 (fadd (fmul (f_of_int i) (rnd (7/10))) (fmul (f_of_int j) (rnd (3/10))))"
  shows "min i (max 1 j) - 1 \<le> sint w \<and> sint w \<le> max i j"
proof -
  let ?r = "ema_rat (of_int i) (of_int j)"
  have i0: "0 \<le> i" using assms(1) by simp
  note fl = ema_floats[OF i0 assms(2-4)]
  have r: "of_int (min i j) - 1 < ?r" "?r < of_int (max i j) + 1"
    by (rule ema_rat_bounds[OF refl _ _ refl]; use assms in simp)+
  have "rat_trunc ?r \<le> max i j" using r(2) fl(2) by (simp add: rat_trunc_def floor_le_iff)
  moreover have "0 \<le> rat_trunc ?r" using fl(2) by (simp add: rat_trunc_def)
  moreover have "min i j - 1 \<le> rat_trunc ?r" using r(1) fl(2) by (simp add: rat_trunc_def le_floor_iff less_imp_le)
  ultimately have t: "min i (max 1 j) - 1 \<le> rat_trunc ?r" "rat_trunc ?r \<le> max i j"
    by (auto simp: min_def max_def split: if_splits)
  have range: "min_int64 \<le> rat_trunc ?r" "rat_trunc ?r \<le> max_int64"
    using t assms by (auto simp: min_int64_def max_int64_def min_def max_def split: if_splits)
  have "w = word_of_int (rat_trunc ?r)" unfolding w_def fl(1) using range by simp
  then have "sint w = rat_trunc ?r" using sint_word_of_int64[OF range] by simp
  with t show ?thesis by simp
qed

text \<open>The moving average of the latency never leaves the range of what it averages: folding a
  sample into a known average gives a value between the two, except that truncation may lose one
  nanosecond at the bottom (durations up to 26 days).\<close>

theorem ema_between:
  assumes "1 \<le> sint old" "sint old \<le> 2 ^ 51" "0 \<le> sint ns" "sint ns \<le> 2 ^ 51"
  shows "min (sint old) (max 1 (sint ns)) - 1 \<le> sint (ema old ns)
    \<and> sint (ema old ns) \<le> max (sint old) (sint ns)"
proof -
  have "old \<noteq> 0" using assms(1) by auto
  then show ?thesis using ema_fold_between[OF assms] by (simp add: ema_def)
qed

text \<open>The nanosecond is really lost: an endpoint whose every request takes three nanoseconds
  has an average of two.\<close>

lemma ema_loses_a_nanosecond: "ema 3 3 = 2"
proof -
  have "fround (9457559217478041 / 4503599627370496) = 1182194902184755 / 562949953421312"
    "fround (16212958658533785 / 18014398509481984) = 2026619832316723 / 2251799813685248"
    "fround (6755399441055743 / 2251799813685248) = 6755399441055743 / 2251799813685248"
    by code_simp+
  then have "rnd (9457559217478041 / 4503599627370496) = FNum (1182194902184755 / 562949953421312)"
    "rnd (16212958658533785 / 18014398509481984) = FNum (2026619832316723 / 2251799813685248)"
    "rnd (6755399441055743 / 2251799813685248) = FNum (6755399441055743 / 2251799813685248)"
    using fround_nonneg_le[of "9457559217478041 / 4503599627370496" 3] fround_nonneg_le[of "16212958658533785 / 18014398509481984" 3]
      fround_nonneg_le[of "6755399441055743 / 2251799813685248" 3] by simp_all
  moreover have "\<lfloor>6755399441055743 / 2251799813685248 :: rat\<rfloor> = 2" by (simp add: floor_eq_iff)
  ultimately show ?thesis
    by (simp add: ema_def f_of_int_exact rnd_const fround_7_10 fround_3_10 rat_trunc_def
        min_int64_def max_int64_def)
qed

section \<open>Seconds\<close>

lemma rnd_nonneg_FNum:
  assumes "0 \<le> q" "q \<le> 2 powi k" "- 1074 \<le> k" "k \<le> 1000"
  shows "rnd q = FNum (fround q)"
proof (rule rnd_FNum)
  show "\<bar>q\<bar> \<le> 2 powi k" using assms by simp
  show "representable (2 powi k)" by (rule representable_powi) (rule assms(3))
  have "(2 :: rat) powi k < 2 powi 1024" by (rule power_int_strict_increasing) (use assms in simp_all)
  then show "(2 :: rat) powi k < 2 ^ 1024" by simp
qed

text \<open>The exact value \<open>Duration.Seconds\<close> computes, as a function of the nanoseconds.\<close>

definition seconds_rat :: "int \<Rightarrow> rat" where
  "seconds_rat n = fround (of_int (n div Second) + fround (of_int (n mod Second) / of_int Second))"

lemma fround_part:
  assumes "0 \<le> m" "m \<le> Second"
  shows "0 \<le> fround (of_int m / of_int Second)" "fround (of_int m / of_int Second) \<le> 1"
proof -
  have q: "0 \<le> (of_int m :: rat) / of_int Second" "(of_int m :: rat) / of_int Second \<le> 1"
    using assms by (simp_all add: Second_def Millisecond_def)
  show "0 \<le> fround (of_int m / of_int Second)" by (rule fround_nonneg[OF q(1)])
  show "fround (of_int m / of_int Second) \<le> 1"
    using fround_le[OF q(2) representable_of_int[of 1, simplified]] by simp
qed

lemma seconds_mono:
  assumes "0 \<le> m" "m \<le> n"
  shows "seconds_rat m \<le> seconds_rat n"
  unfolding seconds_rat_def
proof (rule fround_mono)
  have S: "0 < Second" by (simp add: Second_def Millisecond_def)
  have d: "m div Second \<le> n div Second" by (rule zdiv_mono1[OF assms(2) S])
  have mm: "0 \<le> m mod Second" "m mod Second \<le> Second" "0 \<le> n mod Second" "n mod Second \<le> Second"
    using S by (simp_all add: pos_mod_bound less_imp_le)
  note parts = fround_part[OF mm(1,2)] fround_part[OF mm(3,4)]
  show "of_int (m div Second) + fround (of_int (m mod Second) / of_int Second)
    \<le> of_int (n div Second) + fround (of_int (n mod Second) / of_int Second)"
  proof (cases "m div Second = n div Second")
    case True
    then have "m mod Second \<le> n mod Second" using assms(2) mult_div_mod_eq[of Second m] mult_div_mod_eq[of Second n]
      by (metis add_le_cancel_left)
    then have "(of_int (m mod Second) :: rat) / of_int Second \<le> of_int (n mod Second) / of_int Second"
      using S by (intro divide_right_mono) simp_all
    with True show ?thesis using fround_mono by simp
  next
    case False
    with d have "m div Second + 1 \<le> n div Second" by simp
    then have "(of_int (m div Second) :: rat) + 1 \<le> of_int (n div Second)"
      by (metis of_int_1 of_int_add of_int_le_iff)
    with parts show ?thesis by linarith
  qed
qed

lemma seconds_nano: "2 powi (- 30) \<le> seconds_rat 1"
  by code_simp

lemma seconds_max: "seconds_rat max_int64 \<le> 2 powi 34"
  by code_simp

lemma seconds_bounds:
  assumes "1 \<le> n" "n \<le> max_int64"
  shows "2 powi (- 30) \<le> seconds_rat n" "seconds_rat n \<le> 2 powi 34"
  using seconds_mono[of 1 n] seconds_mono[of n max_int64] seconds_nano seconds_max assms by linarith+

lemma dur_Seconds_pos:
  assumes "0 < sint d"
  shows "dur_Seconds d = FNum (seconds_rat (sint d))"
proof -
  define n where "n = sint d"
  have n: "1 \<le> n" "n \<le> max_int64" using assms sint_int64_range[of d] by (simp_all add: n_def)
  have S: "0 < Second" by (simp add: Second_def Millisecond_def)
  have d: "n sdiv Second = n div Second" "n smod Second = n mod Second"
    using n S by (simp_all add: signed_divide_int_def signed_modulo_int_def)
  have b1: "\<bar>n div Second\<bar> \<le> 2 ^ 53" "\<bar>n mod Second\<bar> \<le> 2 ^ 53"
  proof -
    have "n div Second \<le> max_int64 div Second" using n S by (simp add: zdiv_mono1)
    moreover have "max_int64 div Second \<le> 2 ^ 53" by (simp add: max_int64_def Second_def Millisecond_def)
    moreover have "0 \<le> n div Second" using n S by (simp add: pos_imp_zdiv_nonneg_iff)
    ultimately show "\<bar>n div Second\<bar> \<le> 2 ^ 53" by simp
    have "n mod Second < Second" "0 \<le> n mod Second" using S by simp_all
    then show "\<bar>n mod Second\<bar> \<le> 2 ^ 53" by (simp add: Second_def Millisecond_def)
  qed
  have m: "0 \<le> n mod Second" "n mod Second \<le> Second" using S by (simp_all add: pos_mod_bound less_imp_le)
  note part = fround_part[OF m]
  have g: "rnd 1000000000 = FNum (of_int Second)"
    using rnd_representable[OF representable_of_int[of Second]] by (simp add: Second_def Millisecond_def)
  have q: "rnd (of_int (n mod Second) / of_int Second) = FNum (fround (of_int (n mod Second) / of_int Second))"
    by (rule rnd_nonneg_FNum[where k = 0]) (use m S in \<open>simp_all add: Second_def Millisecond_def\<close>)
  have "rnd (of_int (n div Second) + fround (of_int (n mod Second) / of_int Second)) = FNum (seconds_rat n)"
    unfolding seconds_rat_def
  proof (rule rnd_nonneg_FNum[where k = 60])
    have "(of_int (n div Second) :: rat) \<le> of_int (2 ^ 53)" "(0 :: rat) \<le> of_int (n div Second)"
      using b1(1) n S by (simp_all only: of_int_le_iff of_int_0_le_iff) (simp_all add: pos_imp_zdiv_nonneg_iff)
    then show "0 \<le> of_int (n div Second) + fround (of_int (n mod Second) / of_int Second)"
      "of_int (n div Second) + fround (of_int (n mod Second) / of_int Second) \<le> (2 :: rat) powi 60"
      using part by simp_all
  qed simp_all
  then show ?thesis
    unfolding dur_Seconds_def n_def[symmetric] d f_of_int_exact[OF b1(1)] f_of_int_exact[OF b1(2)] g
    using S q by simp
qed

section \<open>The weight\<close>

text \<open>The counters of an endpoint that has not run for three centuries.\<close>

definition sane_stats :: "endpoint \<Rightarrow> bool" where
  "sane_stats e \<longleftrightarrow> 0 \<le> sint (ep_successReqs e) \<and> 0 \<le> sint (ep_totalReqs e) \<and> 0 \<le> sint (ep_avgLatency e)"

text \<open>A non-negative finite \<open>float64\<close> below a power of two.\<close>

definition below :: "int \<Rightarrow> f64 \<Rightarrow> bool" where
  "below k x \<longleftrightarrow> (\<exists>q. x = FNum q \<and> 0 \<le> q \<and> q \<le> 2 powi k)"

lemma below_mono: "below k x \<Longrightarrow> k \<le> l \<Longrightarrow> below l x"
  unfolding below_def using powi2_mono[of k l] order_trans by blast

lemma below_rnd:
  assumes "0 \<le> q" "q \<le> 2 powi k" "- 1074 \<le> k" "k \<le> 1000"
  shows "below k (rnd q)"
  unfolding below_def rnd_nonneg_FNum[OF assms]
  using fround_nonneg[OF assms(1)] fround_le[OF assms(2) representable_powi[OF assms(3)]] by simp

lemma below_of_int: "0 \<le> n \<Longrightarrow> n \<le> 2 ^ 63 \<Longrightarrow> below 63 (f_of_int n)"
proof -
  assume n: "0 \<le> n" "n \<le> 2 ^ 63"
  then have "(of_int n :: rat) \<le> of_int (2 ^ 63)" by (simp only: of_int_le_iff)
  with n show ?thesis unfolding f_of_int_def by (intro below_rnd) simp_all
qed

lemma below_mul:
  assumes "below k x" "below l y" "- 1074 \<le> k + l" "k + l \<le> 1000"
  shows "below (k + l) (fmul x y)"
proof -
  obtain p q where x: "x = FNum p" "0 \<le> p" "p \<le> 2 powi k" and y: "y = FNum q" "0 \<le> q" "q \<le> 2 powi l"
    using assms(1,2) unfolding below_def by blast
  have "p * q \<le> 2 powi k * 2 powi l" by (rule mult_mono) (use x y in simp_all)
  also have "\<dots> = 2 powi (k + l)" by (simp add: power_int_add)
  finally show ?thesis using x y assms by (auto intro!: below_rnd)
qed

lemma below_add:
  assumes "below k x" "below k y" "- 1074 \<le> k" "k < 1000"
  shows "below (k + 1) (fadd x y)"
proof -
  obtain p q where x: "x = FNum p" "0 \<le> p" "p \<le> 2 powi k" and y: "y = FNum q" "0 \<le> q" "q \<le> 2 powi k"
    using assms(1,2) unfolding below_def by blast
  have "p + q \<le> 2 powi k + 2 powi k" by (rule add_mono) (use x y in simp_all)
  also have "\<dots> = 2 powi (k + 1)" by (simp add: power_int_add)
  finally show ?thesis using x y assms by (auto intro!: below_rnd)
qed

lemma below_div:
  assumes "below k x" "y = FNum b" "2 powi l \<le> b" "- 1074 \<le> k - l" "k - l \<le> 1000"
  shows "below (k - l) (fdiv x y)"
proof -
  obtain p where x: "x = FNum p" "0 \<le> p" "p \<le> 2 powi k" using assms(1) unfolding below_def by blast
  have l0: "(0 :: rat) < 2 powi l" by simp
  with assms(3) have b: "0 < b" by linarith
  have "p / b \<le> 2 powi k / 2 powi l"
    by (rule frac_le) (use x assms(3) l0 in simp_all)
  also have "\<dots> = 2 powi (k - l)" by (simp add: power_int_diff)
  finally show ?thesis using x b assms by (auto intro!: below_rnd)
qed

lemma f_of_int_ge1:
  assumes "1 \<le> n" "n \<le> 2 ^ 63"
  obtains b where "f_of_int n = FNum b" "1 \<le> b"
proof -
  have "(of_int 1 :: rat) \<le> of_int n" "(of_int n :: rat) \<le> of_int (2 ^ 63)"
    using assms by (simp_all only: of_int_le_iff)
  then have "(1 :: rat) \<le> of_int n" "(of_int n :: rat) \<le> 2 powi 63" by simp_all
  then have "f_of_int n = FNum (fround (of_int n))" "1 \<le> fround (of_int n :: rat)"
    unfolding f_of_int_def using rnd_nonneg_FNum[of "of_int n" 63] fround_ge[OF _ representable_of_int[of 1, simplified]]
    by simp_all
  then show thesis by (rule that)
qed

lemma sint_nz: "(x :: int64) \<noteq> 0 \<Longrightarrow> sint x \<noteq> 0"
  by (simp add: signed_eq_0_iff)

lemma below_successRate:
  assumes "sane_stats e"
  shows "below 63 (successRate e)"
proof (cases "ep_totalReqs e = 0")
  case True
  then show ?thesis unfolding below_def successRate_def by simp
next
  case False
  then have "sint (ep_totalReqs e) \<noteq> 0" by (rule sint_nz)
  with assms have "1 \<le> sint (ep_totalReqs e)" by (simp add: sane_stats_def)
  moreover have "sint (ep_totalReqs e) \<le> 2 ^ 63" using sint_int64_range[of "ep_totalReqs e"] by (simp add: max_int64_def)
  ultimately obtain b where b: "f_of_int (sint (ep_totalReqs e)) = FNum b" "1 \<le> b" by (rule f_of_int_ge1)
  have "below 63 (f_of_int (sint (ep_successReqs e)))"
    by (rule below_of_int) (use assms sint_int64_range[of "ep_successReqs e"] in \<open>simp_all add: sane_stats_def max_int64_def\<close>)
  from below_div[OF this b(1), of 0] b(2) show ?thesis using False unfolding successRate_def by simp
qed

lemma below_weight:
  assumes "sane_stats e"
  shows "below 100 (weight e)"
proof (cases "ep_avgLatency e = 0 \<or> ep_totalReqs e = 0 \<or> \<not> isAvailable e")
  case True
  then show ?thesis unfolding below_def weight_def by (auto simp: Let_def)
next
  case False
  then have "sint (ep_avgLatency e) \<noteq> 0" "sint (ep_totalReqs e) \<noteq> 0" by (simp_all add: sint_nz)
  with assms have pos: "0 < sint (ep_avgLatency e)" "0 < sint (ep_totalReqs e)" by (simp_all add: sane_stats_def)
  define t where "t = sint (ep_totalReqs e)"
  have s: "2 powi (- 30) \<le> seconds_rat (sint (ep_avgLatency e))"
    by (rule seconds_bounds) (use pos sint_int64_range[of "ep_avgLatency e"] in simp_all)
  note sec = dur_Seconds_pos[OF pos(1)]
  have one: "below 0 (FNum 1)" by (simp add: below_def)
  note comp = below_div[OF below_successRate[OF assms] sec s]
  note neut = below_div[OF one sec s]
  show ?thesis
  proof (cases "warmupRequests \<le> t")
    case True
    then show ?thesis using comp below_mono[of 93 _ 100] False by (simp add: weight_def Let_def t_def)
  next
    case F: False
    then have t: "1 \<le> t" "t < 10" using pos by (simp_all add: t_def warmupRequests_def)
    let ?c = "fdiv (f_of_int t) (f_of_int warmupRequests)"
    have c: "?c = rnd (of_int t / 10)"
      using t by (simp add: f_of_int_exact warmupRequests_def)
    have t10: "(of_int t :: rat) \<le> of_int 10" "(of_int 1 :: rat) \<le> of_int t"
      using t by (simp_all only: of_int_le_iff)
    then have q: "0 \<le> (of_int t :: rat) / 10" "(of_int t :: rat) / 10 \<le> 1" by simp_all
    have conf: "below 0 ?c" unfolding c by (rule below_rnd) (use q in simp_all)
    then obtain u where u: "?c = FNum u" "0 \<le> u" "u \<le> 1" by (auto simp: below_def)
    then have "below 0 (fsub (FNum 1) ?c)" by (auto simp: fsub_def intro!: below_rnd)
    from below_mul[OF neut this] have "below 93 (fmul (fdiv (FNum 1) (dur_Seconds (ep_avgLatency e))) (fsub (FNum 1) ?c))"
      using below_mono by fastforce
    moreover from below_mul[OF comp conf] have "below 93 (fmul (fdiv (successRate e) (dur_Seconds (ep_avgLatency e))) ?c)"
      by simp
    ultimately have "below 94 (weight e)"
      using below_add[of 93] F False by (simp add: weight_def Let_def t_def)
    then show ?thesis by (rule below_mono) simp
  qed
qed

text \<open>A measured, warmed-up endpoint is weighted by its success rate per second.\<close>

lemma weight_warm:
  assumes "isAvailable e" "sane_stats e" "0 < sint (ep_avgLatency e)" "warmupRequests \<le> sint (ep_totalReqs e)"
  obtains p s where "successRate e = FNum p" "s = seconds_rat (sint (ep_avgLatency e))"
    "0 \<le> p" "0 < s" "weight e = FNum (fround (p / s))"
proof -
  have nz: "ep_avgLatency e \<noteq> 0" "ep_totalReqs e \<noteq> 0" using assms(3,4) by (auto simp: warmupRequests_def)
  define s where "s = seconds_rat (sint (ep_avgLatency e))"
  have s: "2 powi (- 30) \<le> s"
    unfolding s_def by (rule seconds_bounds) (use assms(3) sint_int64_range[of "ep_avgLatency e"] in simp_all)
  note sec = dur_Seconds_pos[OF assms(3), folded s_def]
  obtain p where p: "successRate e = FNum p" "0 \<le> p" using below_successRate[OF assms(2)] by (auto simp: below_def)
  have s0: "0 < s" using s zero_less_power_int[of "2 :: rat" "- 30"] by linarith
  have "below 93 (fdiv (successRate e) (FNum s))"
    using below_div[OF below_successRate[OF assms(2)] refl s] by simp
  then have "weight e = FNum (fround (p / s))"
    using assms nz sec p s0 by (auto simp: weight_def Let_def below_def rnd_eq_FNum)
  with p s0 s_def that show thesis by blast
qed

text \<open>Once two endpoints are warmed up, the one that is at least as fast and succeeds at least
  as often is weighted at least as high, rounding included.\<close>

lemma weight_orders:
  assumes "isAvailable a" "sane_stats a" "warmupRequests \<le> sint (ep_totalReqs a)"
    and "isAvailable b" "sane_stats b" "warmupRequests \<le> sint (ep_totalReqs b)"
    and "0 < sint (ep_avgLatency a)" "sint (ep_avgLatency a) \<le> sint (ep_avgLatency b)"
    and "fle (successRate b) (successRate a)"
  shows "fle (weight b) (weight a)"
proof -
  have lb: "0 < sint (ep_avgLatency b)" using assms(7,8) by linarith
  from weight_warm[OF assms(1,2,7,3)] obtain p s where a: "successRate a = FNum p"
    "s = seconds_rat (sint (ep_avgLatency a))" "0 \<le> p" "0 < s" "weight a = FNum (fround (p / s))" by blast
  from weight_warm[OF assms(4,5) lb assms(6)] obtain q t where b: "successRate b = FNum q"
    "t = seconds_rat (sint (ep_avgLatency b))" "0 \<le> q" "0 < t" "weight b = FNum (fround (q / t))" by blast
  have "s \<le> t" unfolding a(2) b(2) by (rule seconds_mono) (use assms in simp_all)
  moreover have "q \<le> p" using assms(9) a(1) b(1) by simp
  ultimately have "q / t \<le> p / s" by (intro frac_le) (use a b in simp_all)
  then show ?thesis using a b fround_mono by simp
qed

lemma successRate_mono:
  assumes "sane_stats a" "0 < sint (ep_totalReqs a)"
    and "sint (ep_totalReqs b) = sint (ep_totalReqs a)" "sint (ep_successReqs b) \<le> sint (ep_successReqs a)"
    and "sane_stats b"
  shows "fle (successRate b) (successRate a)"
proof -
  define t where "t = sint (ep_totalReqs a)"
  have "1 \<le> t" "t \<le> 2 ^ 63" using assms(2) sint_int64_range[of "ep_totalReqs a"] by (simp_all add: t_def max_int64_def)
  then obtain c where c: "f_of_int t = FNum c" "1 \<le> c" by (rule f_of_int_ge1)
  have "below 63 (f_of_int (sint (ep_successReqs a)))" "below 63 (f_of_int (sint (ep_successReqs b)))"
    using assms sint_int64_range[of "ep_successReqs a"] sint_int64_range[of "ep_successReqs b"]
    by (auto intro!: below_of_int simp: sane_stats_def max_int64_def)
  then obtain x y where xy: "f_of_int (sint (ep_successReqs a)) = FNum x" "f_of_int (sint (ep_successReqs b)) = FNum y"
    by (auto simp: below_def)
  have "fle (FNum y) (FNum x)"
    unfolding xy[symmetric] f_of_int_def by (rule fle_rnd) (use assms(4) in \<open>simp only: of_int_le_iff\<close>)
  then have "y / c \<le> x / c" using c(2) by (simp add: divide_right_mono)
  moreover have "ep_totalReqs a \<noteq> 0" "ep_totalReqs b \<noteq> 0" using assms(2,3) by auto
  ultimately show ?thesis
    using xy c assms(3) by (simp add: successRate_def t_def fle_rnd)
qed

text \<open>While it warms up, the weight stays near the one of an endpoint that never failed.\<close>

lemma fround_near:
  assumes "0 \<le> q"
  shows "fround q \<le> q + q / 1000 + 2 powi (- 1022)" "q - q / 1000 - 2 powi (- 1022) \<le> fround q"
proof -
  have "\<bar>fround q - q\<bar> \<le> q / 1000 + 2 powi (- 1022)"
  proof (cases "2 powi (- 1022) \<le> q")
    case True
    then have "\<bar>fround q - q\<bar> \<le> q / 2 ^ 53" using fround_rel_error[of q] assms by simp
    also have "q / 2 ^ 53 \<le> q / 1000" using assms by (intro divide_left_mono) simp_all
    finally show ?thesis using zero_less_power_int[of "2 :: rat" "- 1022"] by linarith
  next
    case False
    then have "fround q \<le> 2 powi (- 1022)" "0 \<le> fround q"
      using fround_le[of q "2 powi (- 1022)"] representable_powi[of "- 1022"] fround_nonneg[OF assms] by simp_all
    with False assms show ?thesis by (simp add: abs_le_iff)
  qed
  then show "fround q \<le> q + q / 1000 + 2 powi (- 1022)" "q - q / 1000 - 2 powi (- 1022) \<le> fround q"
    by (simp_all add: abs_le_iff)
qed

text \<open>The blend of a neutral weight \<open>n\<close> and a computed one \<open>k \<le> n\<close> with confidence \<open>u\<close>.\<close>

lemma blend_bounds:
  assumes n: "2 powi (- 34) \<le> n" and k: "0 \<le> k" "k \<le> n" and u: "1/10 \<le> u" "u \<le> 901/1000"
    and v: "v = fround (1 - u)"
  defines "w \<equiv> fround (fround (n * v) + fround (k * u))"
  shows "n / 11 \<le> w" "w \<le> n * 11 / 10"
proof -
  define z :: rat where "z = 2 powi (- 1022)"
  have z: "z \<le> n / 1000000" "0 \<le> z"
  proof -
    have "z \<le> 2 powi (- 54)" unfolding z_def by (rule powi2_mono) simp
    also have "(2 :: rat) powi (- 54) = 2 powi (- 34) / 1048576" by code_simp
    also have "\<dots> \<le> n / 1048576" using n by (rule divide_right_mono) simp
    also have "\<dots> \<le> n / 1000000" using k by (simp add: divide_left_mono)
    finally show "z \<le> n / 1000000" .
  qed (simp add: z_def)
  note near = fround_near[folded z_def]
  have zz: "z \<le> 1/1000000" unfolding z_def
  proof -
    have "(2 :: rat) powi (- 1022) \<le> 2 powi (- 20)" by (rule powi2_mono) simp
    also have "(2 :: rat) powi (- 20) \<le> 1/1000000" by code_simp
    finally show "(2 :: rat) powi (- 1022) \<le> 1/1000000" .
  qed
  have u1: "0 \<le> 1 - u" using u(2) by simp
  have vb: "v \<le> 1 - u + 1/999" "98/1000 \<le> v"
    using near(1)[OF u1, folded v] near(2)[OF u1, folded v] zz u by (simp_all add: diff_divide_distrib)
  have "n * v \<le> n * (1 - u + 1/999)" "k * u \<le> n * u" "n * (98/1000) \<le> n * v"
    by (rule mult_left_mono mult_right_mono; use vb k u in simp)+
  moreover have "n * (1 - u + 1/999) + n * u = n + n / 999" by (simp add: algebra_simps)
  ultimately have sum: "n * v + k * u \<le> n + n / 999" "n * (98/1000) \<le> n * v" by linarith+
  have nonneg: "0 \<le> n * v" "0 \<le> k * u" using k vb u by simp_all
  note p = near[OF nonneg(1)] and q = near[OF nonneg(2)] fround_nonneg[OF nonneg(2)]
  have s0: "0 \<le> fround (n * v) + fround (k * u)" using fround_nonneg[OF nonneg(1)] q by linarith
  note r = near[OF s0, folded w_def, unfolded add_divide_distrib]
  have n0: "0 \<le> n" using k by simp
  define x y where "x = fround (n * v)" and "y = fround (k * u)"
  have "x + y \<le> n + n / 999 + (n + n / 999) / 1000 + 2 * (n / 1000000)" "n * (97/1000) \<le> x + y"
    using p q sum z n0 by (simp_all add: x_def[symmetric] y_def[symmetric] add_divide_distrib)
  then show "n / 11 \<le> w" "w \<le> n * 11 / 10"
    using r z n0 by (simp_all add: x_def[symmetric] y_def[symmetric] add_divide_distrib)
qed

text \<open>The success rate is a number between 0 and 1.\<close>

lemma successRate_unit:
  assumes "sane_stats e" "0 < sint (ep_totalReqs e)" "sint (ep_successReqs e) \<le> sint (ep_totalReqs e)"
    and "sint (ep_totalReqs e) \<le> 2 ^ 53"
  obtains p where "successRate e = FNum p" "0 \<le> p" "p \<le> 1"
proof -
  define a t where "a = sint (ep_successReqs e)" and "t = sint (ep_totalReqs e)"
  have at: "0 \<le> a" "a \<le> t" "0 < t" "t \<le> 2 ^ 53" using assms by (simp_all add: a_def t_def sane_stats_def)
  obtain q where q: "successRate e = FNum q" "0 \<le> q" using below_successRate[OF assms(1)] by (auto simp: below_def)
  have "f_of_int a = FNum (of_int a)" "f_of_int t = FNum (of_int t)" by (rule f_of_int_exact; use at in simp)+
  moreover have "ep_totalReqs e \<noteq> 0" using assms(2) by auto
  ultimately have "successRate e = rnd (of_int a / of_int t)" using at(3)
    by (simp add: successRate_def a_def[symmetric] t_def[symmetric])
  moreover have "(of_int a :: rat) / of_int t \<le> 1"
  proof -
    have "(of_int a :: rat) \<le> of_int t" using at(2) by (simp only: of_int_le_iff)
    then show ?thesis using at(3) by simp
  qed
  ultimately show thesis using that q fround_le[OF _ representable_of_int[of 1, simplified]] by (metis rnd_eq_FNum)
qed

text \<open>The confidence lies between a tenth and nine tenths, up to rounding.\<close>

lemma confidence_bounds:
  assumes "1 \<le> t" "t < warmupRequests"
  obtains u where "fdiv (f_of_int t) (f_of_int warmupRequests) = FNum u" "1/10 \<le> u" "u \<le> 901/1000"
proof -
  have "(of_int t :: rat) \<le> of_int 9" "(of_int 1 :: rat) \<le> of_int t"
    using assms by (simp_all only: of_int_le_iff warmupRequests_def)
  then have t10: "(of_int t :: rat) / 10 \<le> 9/10" "1/10 \<le> (of_int t :: rat) / 10" by simp_all
  have f9: "fround (9/10) \<le> 901/1000" and f1: "1/10 \<le> fround (1/10)" by code_simp+
  have "1/10 \<le> fround (of_int t / 10)" "fround (of_int t / 10) \<le> 901/1000"
    using fround_mono[OF t10(1)] fround_mono[OF t10(2)] f1 f9 by linarith+
  moreover have "fdiv (f_of_int t) (f_of_int warmupRequests) = FNum (fround (of_int t / 10))"
    using assms rnd_nonneg_FNum[of "of_int t / 10" 0] t10 by (simp add: f_of_int_exact warmupRequests_def)
  ultimately show thesis using that by blast
qed

text \<open>The blend of two finite weights is computed without overflow.\<close>

lemma blend_FNum:
  assumes "below 30 (FNum n)" "0 \<le> k" "k \<le> n" "1/10 \<le> u" "u \<le> 901/1000"
  shows "fadd (fmul (FNum n) (fsub (FNum 1) (FNum u))) (fmul (FNum k) (FNum u)) =
    FNum (fround (fround (n * fround (1 - u)) + fround (k * u)))"
proof -
  define v where "v = fround (1 - u)"
  have v: "fsub (FNum 1) (FNum u) = FNum v" "0 \<le> v" "v \<le> 1"
    unfolding v_def using assms(4,5) rnd_nonneg_FNum[of "1 - u" 0] fround_nonneg[of "1 - u"]
      fround_le[of "1 - u" 1] representable_of_int[of 1] by (simp_all add: fsub_def)
  have kv: "below 30 (FNum k)" using assms(1-3) by (simp add: below_def)
  have vv: "below 0 (FNum v)" and uv: "below 0 (FNum u)" using v(2,3) assms(4,5) by (simp_all add: below_def)
  have x: "fmul (FNum n) (FNum v) = FNum (fround (n * v))"
    using below_mul[OF assms(1) vv] by (simp add: below_def rnd_eq_FNum)
  have y: "fmul (FNum k) (FNum u) = FNum (fround (k * u))"
    using below_mul[OF kv uv] by (simp add: below_def rnd_eq_FNum)
  have "below 31 (fadd (FNum (fround (n * v))) (FNum (fround (k * u))))"
    using below_add[of 30 "FNum (fround (n * v))" "FNum (fround (k * u))"] below_mul[OF assms(1) vv] below_mul[OF kv uv]
    by (simp only: x y) simp
  then show ?thesis unfolding v(1) x y v_def[symmetric] by (simp add: below_def rnd_eq_FNum)
qed

text \<open>During its first nine requests an endpoint's weight stays between an eleventh and eleven
  tenths of the neutral weight its latency gives, however many of those requests failed.\<close>

theorem warmup_damped:
  assumes "isAvailable e" "sane_stats e" "0 < sint (ep_avgLatency e)"
    and "0 < sint (ep_totalReqs e)" "sint (ep_totalReqs e) < warmupRequests"
    and "sint (ep_successReqs e) \<le> sint (ep_totalReqs e)"
  shows "\<exists>n w. fdiv (FNum 1) (dur_Seconds (ep_avgLatency e)) = FNum n \<and> weight e = FNum w
    \<and> 0 < n \<and> n / 11 \<le> w \<and> w \<le> n * 11 / 10"
proof -
  define s where "s = seconds_rat (sint (ep_avgLatency e))"
  have nz: "ep_avgLatency e \<noteq> 0" "ep_totalReqs e \<noteq> 0" using assms(3,4) by auto
  have sb: "2 powi (- 30) \<le> s" "s \<le> 2 powi 34"
    unfolding s_def by (rule seconds_bounds; use assms(3) sint_int64_range[of "ep_avgLatency e"] in simp)+
  have s0: "0 < s" using sb(1) zero_less_power_int[of "2 :: rat" "- 30"] by linarith
  note sec = dur_Seconds_pos[OF assms(3), folded s_def]
  obtain p where p: "successRate e = FNum p" "0 \<le> p" "p \<le> 1" 
    using successRate_unit[OF assms(2,4,6)] assms(5) by (auto simp: warmupRequests_def)
  obtain u where u: "fdiv (f_of_int (sint (ep_totalReqs e))) (f_of_int warmupRequests) = FNum u" "1/10 \<le> u" "u \<le> 901/1000"
    using confidence_bounds[of "sint (ep_totalReqs e)"] assms(4,5) by auto
  define n k where "n = fround (1 / s)" and "k = fround (p / s)"
  have one: "below 0 (FNum 1)" by (simp add: below_def)
  have n: "fdiv (FNum 1) (FNum s) = FNum n" and nv: "below 30 (FNum n)"
    using below_div[OF one refl sb(1)] s0 by (simp_all add: below_def rnd_eq_FNum n_def)
  have k: "fdiv (FNum p) (FNum s) = FNum k"
    using below_div[OF below_successRate[OF assms(2)] refl sb(1)] p s0 by (simp add: below_def rnd_eq_FNum k_def)
  have nl: "2 powi (- 34) \<le> n" unfolding n_def
  proof (rule fround_ge[OF _ representable_powi])
    show "2 powi (- 34) \<le> 1 / s" using sb(2) s0 by (simp add: power_int_minus field_simps)
  qed simp
  have kb: "0 \<le> k" "k \<le> n" unfolding k_def n_def using p s0
    by (auto intro!: fround_nonneg fround_mono divide_right_mono)
  have "weight e = FNum (fround (fround (n * fround (1 - u)) + fround (k * u)))"
    unfolding weight_def Let_def sec p(1) n k u(1) using assms(1,5) nz blend_FNum[OF nv kb u(2,3)] by simp
  moreover have "0 < n" using nl zero_less_power_int[of "2 :: rat" "- 34"] by linarith
  ultimately show ?thesis using blend_bounds[OF nl kb u(2,3) refl] n sec by simp
qed

end
