(* ===== verification/Domain_Tracker.thy ===== *)
theory Domain_Tracker
  imports Config
begin

text \<open>
  \<open>internal/domain/tracker.go\<close>: which endpoints were recently blocked by which target domain.
  The \<open>sync.Map\<close> holds pointers to immutable entries; a pointer is modelled by the address its
  allocation gave it, because \<open>CompareAndDelete\<close> compares pointers, not contents.
  \<open>PenaltyFor\<close> is the composition of its two atomic accesses to the map (\<open>penalty_load\<close> and
  \<open>compare_and_delete\<close>), so that what happens between them can be stated.
\<close>

section \<open>Model\<close>

definition DefaultBlockTTL :: duration where
  "DefaultBlockTTL = word_of_int (5 * Minute)"

definition DefaultBlockPenalty :: f64 where
  "DefaultBlockPenalty = rnd (1/10)"

record blockEntry =
  be_addr :: nat
  blockedAt :: instant

type_synonym blockKey = "int64 \<times> string"

record Tracker =
  blocks :: "blockKey \<Rightarrow> blockEntry option"
  tr_ttl :: duration
  tr_penalty :: f64
  next_addr :: nat

definition NewTracker :: "duration \<Rightarrow> f64 \<Rightarrow> Tracker" where
  "NewTracker ttl penalty =
     \<lparr> blocks = (\<lambda>_. None),
       tr_ttl = (if sint ttl \<le> 0 then DefaultBlockTTL else ttl),
       tr_penalty = (if fle penalty (FNum 0) then DefaultBlockPenalty else penalty),
       next_addr = 0 \<rparr>"

definition RecordBlock :: "instant \<Rightarrow> int64 \<Rightarrow> string \<Rightarrow> Tracker \<Rightarrow> Tracker" where
  "RecordBlock now endpointIndex domain t =
     (if domain = [] then t
      else t\<lparr> blocks := (blocks t)((endpointIndex, domain) \<mapsto>
                \<lparr> be_addr = next_addr t, blockedAt = now \<rparr>),
              next_addr := Suc (next_addr t) \<rparr>)"

text \<open>The multiplier an entry gives at an instant, and whether the entry has expired.\<close>

definition effective_ttl :: "Tracker \<Rightarrow> duration" where
  "effective_ttl t = (if sint (tr_ttl t) \<le> 0 then DefaultBlockTTL else tr_ttl t)"

definition expired :: "instant \<Rightarrow> Tracker \<Rightarrow> blockEntry \<Rightarrow> bool" where
  "expired now t entry \<longleftrightarrow> sint (effective_ttl t) < sint (time_since now (blockedAt entry))"

definition effective_penalty :: "Tracker \<Rightarrow> f64" where
  "effective_penalty t = (if fle (tr_penalty t) (FNum 0) then DefaultBlockPenalty else tr_penalty t)"

text \<open>
  The part of \<open>PenaltyFor\<close> up to the deletion: the value returned, and the pointer it read if
  the entry has to be deleted.
\<close>

definition penalty_load ::
  "instant \<Rightarrow> int64 \<Rightarrow> string \<Rightarrow> Tracker \<Rightarrow> f64 \<times> blockEntry option" where
  "penalty_load now endpointIndex domain t =
     (if domain = [] then (FNum 1, None)
      else case blocks t (endpointIndex, domain) of
        None \<Rightarrow> (FNum 1, None)
      | Some entry \<Rightarrow>
          if expired now t entry then (FNum 1, Some entry)
          else (effective_penalty t, None))"

definition compare_and_delete :: "blockKey \<Rightarrow> blockEntry \<Rightarrow> Tracker \<Rightarrow> Tracker" where
  "compare_and_delete key existing t =
     (case blocks t key of
        None \<Rightarrow> t
      | Some entry \<Rightarrow>
          if be_addr entry = be_addr existing then t\<lparr>blocks := (blocks t)(key := None)\<rparr> else t)"

definition PenaltyFor :: "instant \<Rightarrow> int64 \<Rightarrow> string \<Rightarrow> Tracker \<Rightarrow> f64 \<times> Tracker" where
  "PenaltyFor now endpointIndex domain t =
     (case penalty_load now endpointIndex domain t of
        (p, None) \<Rightarrow> (p, t)
      | (p, Some existing) \<Rightarrow> (p, compare_and_delete (endpointIndex, domain) existing t))"

text \<open>\<open>FromURL\<close>: the host name of a URL, empty when it does not parse.\<close>

definition FromURL :: "(string \<Rightarrow> gerr + url) \<Rightarrow> string \<Rightarrow> string" where
  "FromURL parse rawURL = (case parse rawURL of Inl _ \<Rightarrow> [] | Inr u \<Rightarrow> url_Hostname u)"

section \<open>The interface the pool relies on\<close>

text \<open>
  A memory of per-domain blocks: \<open>record now i d\<close> notes a block, \<open>penalty now i d\<close> reads the
  weight multiplier.  The laws: without a domain nothing is remembered or applied, a block is
  remembered until it is outlived, it applies to its own endpoint and domain only, and reading
  never changes what a later read returns.  \<open>outlived t age\<close> says that a block of that age no
  longer counts.
\<close>

locale block_memory =
  fixes record_block :: "instant \<Rightarrow> 'i \<Rightarrow> string \<Rightarrow> 't \<Rightarrow> 't"
    and penalty_of :: "instant \<Rightarrow> 'i \<Rightarrow> string \<Rightarrow> 't \<Rightarrow> f64 \<times> 't"
    and outlived :: "'t \<Rightarrow> int \<Rightarrow> bool"
    and blocked_weight :: "'t \<Rightarrow> f64"
  assumes no_domain_record: "record_block now i [] t = t"
    and no_domain_penalty: "penalty_of now i [] t = (FNum 1, t)"
    and fresh_block: "d \<noteq> [] \<Longrightarrow> \<not> outlived t (now' - now) \<Longrightarrow>
          fst (penalty_of now' i d (record_block now i d t)) = blocked_weight t"
    and stale_block: "d \<noteq> [] \<Longrightarrow> outlived t (now' - now) \<Longrightarrow>
          fst (penalty_of now' i d (record_block now i d t)) = FNum 1"
    and other_key: "(i', d') \<noteq> (i, d) \<Longrightarrow>
          fst (penalty_of now' i' d' (record_block now i d t)) = fst (penalty_of now' i' d' t)"
    and read_stable: "now \<le> now' \<Longrightarrow>
          fst (penalty_of now' i' d' (snd (penalty_of now i d t))) = fst (penalty_of now' i' d' t)"
    and read_values: "fst (penalty_of now i d t) \<in> {FNum 1, blocked_weight t}"
begin

text \<open>Any number of reads, for any endpoints and domains.\<close>

fun reads :: "(instant \<times> 'i \<times> string) list \<Rightarrow> 't \<Rightarrow> 't" where
  "reads [] t = t"
| "reads ((now, i, d) # rs) t = reads rs (snd (penalty_of now i d t))"

lemma reads_invisible:
  "\<forall>(now, i, d) \<in> set rs. now \<le> now' \<Longrightarrow>
   fst (penalty_of now' i' d' (reads rs t)) = fst (penalty_of now' i' d' t)"
  by (induction rs t rule: reads.induct) (auto simp: read_stable)

text \<open>A block outlives any reads that follow it, up to its lifetime, and then it is gone.\<close>

lemma block_survives_reads:
  assumes "d \<noteq> []" "\<forall>(n, i, d) \<in> set rs. n \<le> now'"
  shows "fst (penalty_of now' i d (reads rs (record_block now i d t))) =
         (if outlived t (now' - now) then FNum 1 else blocked_weight t)"
  using reads_invisible[OF assms(2)] fresh_block[OF assms(1)] stale_block[OF assms(1)] by simp

lemma other_endpoint_unaffected:
  assumes "(i', d') \<noteq> (i, d)" "\<forall>(n, i, d) \<in> set rs. n \<le> now'"
  shows "fst (penalty_of now' i' d' (reads rs (record_block now i d t))) =
         fst (penalty_of now' i' d' t)"
  using reads_invisible[OF assms(2)] other_key[OF assms(1)] by simp

end

section \<open>The tracker provides it\<close>

text \<open>Addresses identify entries: no two keys share one, and none is above the next one.\<close>

definition tracker_wf :: "Tracker \<Rightarrow> bool" where
  "tracker_wf t \<longleftrightarrow> (\<forall>k e. blocks t k = Some e \<longrightarrow> be_addr e < next_addr t)"

lemma tracker_wf_New: "tracker_wf (NewTracker ttl p)"
  by (simp add: tracker_wf_def NewTracker_def)

lemma tracker_wf_RecordBlock: "tracker_wf t \<Longrightarrow> tracker_wf (RecordBlock now i d t)"
  by (auto simp: tracker_wf_def RecordBlock_def less_Suc_eq)

lemma tracker_wf_compare_and_delete: "tracker_wf t \<Longrightarrow> tracker_wf (compare_and_delete k e t)"
  by (auto simp: tracker_wf_def compare_and_delete_def split: option.splits)

lemma tracker_wf_PenaltyFor: "tracker_wf t \<Longrightarrow> tracker_wf (snd (PenaltyFor now i d t))"
  by (auto simp: PenaltyFor_def tracker_wf_compare_and_delete split: prod.splits option.splits)

lemma effective_ttl_positive: "0 < sint (effective_ttl t)"
  by (simp add: effective_ttl_def DefaultBlockTTL_def Minute_def)

lemma effective_ttl_bound: "sint (effective_ttl t) \<le> max_int64"
  using sint_int64_range by blast

text \<open>The comparison with the TTL in terms of the clock: saturation of \<open>time.Since\<close> matters only
  for a TTL of the largest duration, which then never expires.\<close>

lemma expired_iff:
  "expired now t e \<longleftrightarrow>
     sint (effective_ttl t) < now - blockedAt e \<and> sint (effective_ttl t) < max_int64"
  using effective_ttl_positive[of t] effective_ttl_bound[of t]
  by (auto simp: expired_def sint_time_since min_int64_def max_int64_def)

lemma expired_later: "expired now t e \<Longrightarrow> now \<le> now' \<Longrightarrow> expired now' t e"
  by (auto simp: expired_iff)

lemma penalty_load_PenaltyFor: "fst (PenaltyFor now i d t) = fst (penalty_load now i d t)"
  by (auto simp: PenaltyFor_def split: prod.splits option.splits)

lemma effective_record [simp]:
  "effective_ttl (RecordBlock now i d t) = effective_ttl t"
  "effective_penalty (RecordBlock now i d t) = effective_penalty t"
  "expired n (RecordBlock now i d t) = expired n t"
  by (auto simp: RecordBlock_def effective_ttl_def effective_penalty_def expired_def fun_eq_iff)

lemma effective_read [simp]:
  "effective_ttl (snd (PenaltyFor now i d t)) = effective_ttl t"
  "effective_penalty (snd (PenaltyFor now i d t)) = effective_penalty t"
  "expired n (snd (PenaltyFor now i d t)) = expired n t"
  by (auto simp: PenaltyFor_def compare_and_delete_def effective_ttl_def effective_penalty_def
      expired_def fun_eq_iff split: prod.splits option.splits)

text \<open>What a read does to the map: an expired entry of its key is gone, everything else stays.\<close>

lemma blocks_PenaltyFor:
  "blocks (snd (PenaltyFor now i d t)) k =
     (case blocks t k of
        Some e \<Rightarrow> if k = (i, d) \<and> d \<noteq> [] \<and> expired now t e then None else Some e
      | None \<Rightarrow> None)"
  by (auto simp: PenaltyFor_def penalty_load_def compare_and_delete_def
      split: prod.splits option.splits)

text \<open>Blocks never expire under the largest possible TTL, because \<open>time.Since\<close> saturates.\<close>

definition ttl_outlived :: "Tracker \<Rightarrow> int \<Rightarrow> bool" where
  "ttl_outlived t age \<longleftrightarrow> sint (effective_ttl t) < age \<and> sint (effective_ttl t) < max_int64"

lemma fst_PenaltyFor:
  "fst (PenaltyFor now i d t) =
     (if d = [] then FNum 1
      else case blocks t (i, d) of
        None \<Rightarrow> FNum 1
      | Some e \<Rightarrow> if ttl_outlived t (now - blockedAt e) then FNum 1 else effective_penalty t)"
  by (auto simp: penalty_load_PenaltyFor penalty_load_def expired_iff ttl_outlived_def
      split: option.splits)

lemma blocks_RecordBlock:
  "blocks (RecordBlock now i d t) k =
     (if d \<noteq> [] \<and> k = (i, d) then Some \<lparr> be_addr = next_addr t, blockedAt = now \<rparr> else blocks t k)"
  by (auto simp: RecordBlock_def)

lemma ttl_outlived_effective [simp]:
  "ttl_outlived (RecordBlock now i d t) = ttl_outlived t"
  "ttl_outlived (snd (PenaltyFor now i d t)) = ttl_outlived t"
  by (auto simp: ttl_outlived_def fun_eq_iff)

lemma ttl_outlived_later: "ttl_outlived t a \<Longrightarrow> a \<le> b \<Longrightarrow> ttl_outlived t b"
  by (auto simp: ttl_outlived_def)

lemma RecordBlock_no_domain [simp]: "RecordBlock now i [] t = t"
  by (simp add: RecordBlock_def)

lemma PenaltyFor_no_domain [simp]: "PenaltyFor now i [] t = (FNum 1, t)"
  by (simp add: PenaltyFor_def penalty_load_def)

lemma PenaltyFor_after_PenaltyFor:
  assumes "now \<le> now'"
  shows "fst (PenaltyFor now' i' d' (snd (PenaltyFor now i d t))) = fst (PenaltyFor now' i' d' t)"
proof (cases "blocks t (i', d')")
  case (Some e)
  then show ?thesis
    using ttl_outlived_later[of t "now - blockedAt e" "now' - blockedAt e"] assms
    by (auto simp: fst_PenaltyFor blocks_PenaltyFor expired_iff ttl_outlived_def)
qed (simp add: fst_PenaltyFor blocks_PenaltyFor)

lemma PenaltyFor_other_key:
  "(i', d') \<noteq> (i, d) \<Longrightarrow>
   fst (PenaltyFor now' i' d' (RecordBlock now i d t)) = fst (PenaltyFor now' i' d' t)"
  by (auto simp: fst_PenaltyFor blocks_RecordBlock split: option.split)

lemma PenaltyFor_RecordBlock:
  "d \<noteq> [] \<Longrightarrow> fst (PenaltyFor now' i d (RecordBlock now i d t)) =
     (if ttl_outlived t (now' - now) then FNum 1 else effective_penalty t)"
  by (simp add: fst_PenaltyFor blocks_RecordBlock)

lemma PenaltyFor_values: "fst (PenaltyFor now i d t) \<in> {FNum 1, effective_penalty t}"
  by (simp add: fst_PenaltyFor split: option.split)

interpretation tracker: block_memory RecordBlock PenaltyFor ttl_outlived effective_penalty
  by unfold_locales
     (simp_all only: PenaltyFor_after_PenaltyFor PenaltyFor_other_key PenaltyFor_RecordBlock
       PenaltyFor_values RecordBlock_no_domain PenaltyFor_no_domain if_True if_False simp_thms)

section \<open>The tracker against a memory that never forgets\<close>

text \<open>
  The specification of the tracker: a log with the last block of every endpoint and domain, in
  which nothing is ever deleted; a read compares the age of the block with the TTL.
\<close>

datatype tracker_op = Block instant int64 string | Read instant int64 string

fun op_time :: "tracker_op \<Rightarrow> instant" where
  "op_time (Block n i d) = n"
| "op_time (Read n i d) = n"

fun run_tracker :: "tracker_op list \<Rightarrow> Tracker \<Rightarrow> f64 list" where
  "run_tracker [] t = []"
| "run_tracker (Block n i d # ops) t = run_tracker ops (RecordBlock n i d t)"
| "run_tracker (Read n i d # ops) t =
     fst (PenaltyFor n i d t) # run_tracker ops (snd (PenaltyFor n i d t))"

fun run_log :: "(int \<Rightarrow> bool) \<Rightarrow> f64 \<Rightarrow> tracker_op list \<Rightarrow> (blockKey \<Rightarrow> instant option) \<Rightarrow> f64 list" where
  "run_log dead pen [] L = []"
| "run_log dead pen (Block n i d # ops) L = run_log dead pen ops (L((i, d) \<mapsto> n))"
| "run_log dead pen (Read n i d # ops) L =
     (if d = [] then FNum 1
      else case L (i, d) of
        None \<Rightarrow> FNum 1
      | Some b \<Rightarrow> if dead (n - b) then FNum 1 else pen) # run_log dead pen ops L"

text \<open>The simulation: the tracker holds what the log holds, except entries already outlived.\<close>

fun agrees :: "(int \<Rightarrow> bool) \<Rightarrow> instant \<Rightarrow> blockEntry option \<Rightarrow> instant option \<Rightarrow> bool" where
  "agrees dead now (Some e) b = (b = Some (blockedAt e))"
| "agrees dead now None (Some b) = dead (now - b)"
| "agrees dead now None None = True"

definition tracks :: "instant \<Rightarrow> Tracker \<Rightarrow> (blockKey \<Rightarrow> instant option) \<Rightarrow> bool" where
  "tracks now t L \<longleftrightarrow>
     (\<forall>i d. d \<noteq> [] \<longrightarrow> agrees (ttl_outlived t) now (blocks t (i, d)) (L (i, d)))"

lemma tracks_Block:
  "tracks now t L \<Longrightarrow> tracks now (RecordBlock n i d t) (L((i, d) \<mapsto> n))"
  by (simp add: tracks_def blocks_RecordBlock)

lemma agrees_later:
  assumes "agrees (ttl_outlived t) now e b" "now \<le> now'"
  shows "agrees (ttl_outlived t) now' e b"
  using assms ttl_outlived_later[of t "now - the b" "now' - the b"] by (cases e; cases b) auto

lemma tracks_later: "tracks now t L \<Longrightarrow> now \<le> now' \<Longrightarrow> tracks now' t L"
  unfolding tracks_def by (blast intro: agrees_later)

lemma tracks_Read:
  assumes "tracks now t L"
  shows "tracks now (snd (PenaltyFor now i d t)) L"
  unfolding tracks_def
proof (intro allI impI)
  fix j and d' :: string assume "d' \<noteq> []"
  with assms have a: "agrees (ttl_outlived t) now (blocks t (j, d')) (L (j, d'))"
    by (simp add: tracks_def)
  then show "agrees (ttl_outlived (snd (PenaltyFor now i d t))) now
               (blocks (snd (PenaltyFor now i d t)) (j, d')) (L (j, d'))"
    by (cases "blocks t (j, d')")
       (auto simp: blocks_PenaltyFor expired_iff ttl_outlived_def)
qed

lemma tracks_value:
  assumes "tracks now t L"
  shows "fst (PenaltyFor now i d t) =
     (if d = [] then FNum 1
      else case L (i, d) of
        None \<Rightarrow> FNum 1
      | Some b \<Rightarrow> if ttl_outlived t (now - b) then FNum 1 else effective_penalty t)"
proof (cases "d = []")
  case False
  with assms have "agrees (ttl_outlived t) now (blocks t (i, d)) (L (i, d))"
    by (simp add: tracks_def)
  with False show ?thesis
    by (cases "blocks t (i, d)"; cases "L (i, d)") (simp_all add: fst_PenaltyFor)
qed (simp add: fst_PenaltyFor)

lemma run_tracker_log:
  assumes "tracks now t L" "sorted (now # map op_time ops)"
  shows "run_tracker ops t = run_log (ttl_outlived t) (effective_penalty t) ops L"
  using assms
proof (induction ops arbitrary: now t L)
  case (Cons x ops)
  from Cons.prems have later: "tracks (op_time x) t L" and srt: "sorted (op_time x # map op_time ops)"
    by (auto intro: tracks_later)
  show ?case
  proof (cases x)
    case (Block n i d)
    with Cons.IH[OF tracks_Block[OF later] srt, of n i d] show ?thesis
      by (simp only: run_tracker.simps run_log.simps op_time.simps ttl_outlived_effective effective_record)
  next
    case (Read n i d)
    with Cons.IH[OF tracks_Read[OF later] srt, of i d] tracks_value[OF later, of i d] show ?thesis
      by (simp only: run_tracker.simps run_log.simps op_time.simps ttl_outlived_effective effective_read)
  qed
qed simp

section \<open>Concurrent reads and records\<close>

text \<open>
  Between the load and the deletion of one \<open>PenaltyFor\<close>, other goroutines may record blocks:
  the deletion removes the entry that was read and no other.
\<close>

definition penalty_race ::
  "instant \<Rightarrow> int64 \<Rightarrow> string \<Rightarrow> (Tracker \<Rightarrow> Tracker) \<Rightarrow> Tracker \<Rightarrow> f64 \<times> Tracker" where
  "penalty_race now i d others t =
     (case penalty_load now i d t of
        (p, None) \<Rightarrow> (p, others t)
      | (p, Some existing) \<Rightarrow> (p, compare_and_delete (i, d) existing (others t)))"

lemma penalty_race_alone: "penalty_race now i d (\<lambda>t. t) t = PenaltyFor now i d t"
  by (simp add: penalty_race_def PenaltyFor_def)

lemma blocks_penalty_race_fresh:
  assumes "tracker_wf t" "d \<noteq> []"
  shows "blocks (snd (penalty_race now i d (RecordBlock n i d) t)) (i, d) =
           Some \<lparr> be_addr = next_addr t, blockedAt = n \<rparr>"
proof (cases "blocks t (i, d)")
  case None
  then show ?thesis using assms by (simp add: penalty_race_def penalty_load_def blocks_RecordBlock)
next
  case (Some e)
  then have "be_addr e < next_addr t" using assms by (simp add: tracker_wf_def)
  with Some show ?thesis using assms
    by (simp add: penalty_race_def penalty_load_def compare_and_delete_def blocks_RecordBlock)
qed

section \<open>Properties\<close>

text \<open>C9. Forgetting is invisible: over any sequence of blocks and reads in time order, for any
  endpoints and domains, the tracker (which deletes expired entries as it reads them) answers
  exactly what a log that never forgets answers: the penalty for the last block of that endpoint
  by that domain while it is at most TTL old, the full weight otherwise.\<close>

theorem tracker_refines_log:
  assumes "sorted (map op_time ops)" and "0 < sint ttl" and "sint ttl < max_int64"
    and "\<not> fle penalty (FNum 0)"
  shows "run_tracker ops (NewTracker ttl penalty) =
         run_log (\<lambda>age. sint ttl < age) penalty ops (\<lambda>_. None)"
proof -
  have t: "effective_ttl (NewTracker ttl penalty) = ttl"
    "effective_penalty (NewTracker ttl penalty) = penalty"
    using assms(2,4) by (simp_all add: effective_ttl_def effective_penalty_def NewTracker_def)
  have o: "ttl_outlived (NewTracker ttl penalty) = (\<lambda>age. sint ttl < age)"
    using assms(3) by (simp add: ttl_outlived_def t fun_eq_iff)
  have tr: "tracks n (NewTracker ttl penalty) (\<lambda>_. None)" for n
    by (simp add: tracks_def NewTracker_def)
  show ?thesis
  proof (cases ops)
    case (Cons x xs)
    with assms(1) have "sorted (op_time x # map op_time ops)" by simp
    from run_tracker_log[OF tr this] show ?thesis by (simp only: o t)
  qed simp
qed

theorem tracker_refines_log_witness:
  "run_tracker [Block 0 1 ''a'', Read 5 1 ''a'', Read 11 1 ''a'', Read 11 2 ''a''] (NewTracker 10 (FNum (1/2))) =
   [FNum (1/2), FNum 1, FNum 1]"
  using tracker_refines_log[of "[Block 0 1 ''a'', Read 5 1 ''a'', Read 11 1 ''a'', Read 11 2 ''a'']" 10 "FNum (1/2)"]
  by (simp add: max_int64_def)

text \<open>A block for one domain never touches the endpoint's weight for another domain, nor
  another endpoint's weight for the same one, whatever is read before or in between.\<close>

theorem block_is_per_domain:
  assumes "(i', d') \<noteq> (i, d)" and "\<forall>(n, i, d) \<in> set rs. n \<le> now'"
  shows "fst (PenaltyFor now' i' d' (tracker.reads rs (RecordBlock now i d t))) =
         fst (PenaltyFor now' i' d' t)"
  by (rule tracker.other_endpoint_unaffected[OF assms])

text \<open>A block recorded by another goroutine between \<open>PenaltyFor\<close>'s load of an expired entry and
  its deletion is not lost: \<open>CompareAndDelete\<close> removes the entry that was read, and the next
  reads within the TTL apply the penalty.\<close>

theorem concurrent_block_survives:
  assumes "tracker_wf t" and "d \<noteq> []" and "\<not> ttl_outlived t (now' - n)"
  shows "fst (PenaltyFor now' i d (snd (penalty_race now i d (RecordBlock n i d) t))) = effective_penalty t"
proof -
  have e: "effective_ttl (snd (penalty_race now i d (RecordBlock n i d) t)) = effective_ttl t"
    "effective_penalty (snd (penalty_race now i d (RecordBlock n i d) t)) = effective_penalty t"
    by (auto simp: penalty_race_def compare_and_delete_def effective_ttl_def effective_penalty_def
        RecordBlock_def split: prod.split option.split)
  have o: "ttl_outlived (snd (penalty_race now i d (RecordBlock n i d) t)) = ttl_outlived t"
    by (simp add: fun_eq_iff ttl_outlived_def e(1))
  show ?thesis
    using assms(3) by (simp add: fst_PenaltyFor blocks_penalty_race_fresh[OF assms(1,2)] assms(2) e(2) o)
qed

end
