(* ===== verification/Pool_Model.thy ===== *)
theory Pool_Model
  imports Weight Domain_Tracker
begin

text \<open>
  \<open>pool.go\<close> without the selection (see \<open>Selection\<close>): the pool, its constructor with the clean-up
  of a construction that fails half-way, \<open>Close\<close>, \<open>findEndpoint\<close>, \<open>recordDomainBlock\<close> and the
  statistics.  Methods that accept a nil receiver take a \<open>Pool option\<close>.
\<close>

section \<open>State\<close>

text \<open>The health checker of \<open>health.go\<close>; its pool is the one that holds it.\<close>

record healthChecker =
  hc_interval :: duration
  hc_url :: string
  hc_timeout :: duration
  hc_cancelled :: bool

definition startHealthCheck :: "PoolConfig \<Rightarrow> healthChecker option" where
  "startHealthCheck cfg =
     (if sint (pc_HealthCheckInterval cfg) \<le> 0 \<or> pc_HealthCheckURL cfg = [] then None
      else Some \<lparr> hc_interval = pc_HealthCheckInterval cfg, hc_url = pc_HealthCheckURL cfg,
                  hc_timeout = healthCheckTimeout cfg, hc_cancelled = False \<rparr>)"

definition hc_stop :: "healthChecker option \<Rightarrow> healthChecker option" where
  "hc_stop = map_option (\<lambda>hc. hc\<lparr>hc_cancelled := True\<rparr>)"

record Pool =
  pool_name :: string
  pool_endpoints :: "endpoint list"
  pool_currentIndex :: uint64
  pool_retryConfig :: RetryConfig
  pool_sessionPoolSize :: int64
  pool_domains :: Tracker
  pool_health :: "healthChecker option"

section \<open>Operations\<close>

definition Pool_Close :: "Pool option \<Rightarrow> Pool option" where
  "Pool_Close p =
     (case p of
        None \<Rightarrow> None
      | Some p \<Rightarrow> Some (p\<lparr>pool_health := hc_stop (pool_health p),
                          pool_endpoints := map Close (pool_endpoints p)\<rparr>))"

text \<open>
  The loop of the constructor over the endpoint URLs; \<open>i\<close> is the 1-based index.  At the first
  failure it gives the index, the error, the endpoints built so far and the one that failed.
\<close>

fun new_endpoints ::
  "int64 \<Rightarrow> f64 \<Rightarrow> factory \<Rightarrow> int \<Rightarrow> string list \<Rightarrow> nat \<Rightarrow>
   (int \<times> gerr) option \<times> endpoint list \<times> endpoint list \<times> nat" where
  "new_endpoints psize rps factory i [] k = (None, [], [], k)"
| "new_endpoints psize rps factory i (url # urls) k =
     (case newEndpointWithFactory url (word_of_int i) psize rps factory k of
        (Some err, e, k') \<Rightarrow> (Some (i, err), [], [e], k')
      | (None, e, k') \<Rightarrow>
          (case new_endpoints psize rps factory (i + 1) urls k' of
             (r, eps, failed, k'') \<Rightarrow> (r, e # eps, failed, k'')))"

definition blank_pool :: "PoolConfig \<Rightarrow> RetryConfig \<Rightarrow> endpoint list \<Rightarrow> Pool" where
  "blank_pool cfg retryCfg eps =
     \<lparr> pool_name = pc_Name cfg, pool_endpoints = eps, pool_currentIndex = 0,
       pool_retryConfig = retryCfg, pool_sessionPoolSize = sessionPoolSize cfg,
       pool_domains = NewTracker (pc_DomainBlockTTL cfg) (pc_DomainBlockPenalty cfg),
       pool_health = None \<rparr>"

text \<open>
  The constructor.  The second component are the endpoints a failing construction drops: the
  ones \<open>pool.Close()\<close> closed, and the one whose own constructor failed.
\<close>

definition newPoolWithFactory ::
  "(string \<Rightarrow> string) \<Rightarrow> (string \<Rightarrow> gerr + url) \<Rightarrow> PoolConfig \<Rightarrow> RetryConfig \<Rightarrow> factory \<Rightarrow> nat \<Rightarrow>
   (gerr + Pool) \<times> endpoint list \<times> nat" where
  "newPoolWithFactory q parse cfg retryCfg factory k =
     (case validate q parse cfg of
        Some err \<Rightarrow> (Inl err, [], k)
      | None \<Rightarrow>
        (case new_endpoints (sessionPoolSize cfg) (pc_RequestsPerSecond cfg) factory 1 (pc_Endpoints cfg) k of
           (Some (i, err), eps, failed, k') \<Rightarrow>
             (Inl (ErrWrap (''pool '' @ go_quote q (pc_Name cfg) @ '': creating endpoint '' @ itoa i @ '': '') err []),
              (case Pool_Close (Some (blank_pool cfg retryCfg eps)) of
                 None \<Rightarrow> [] | Some p \<Rightarrow> pool_endpoints p) @ failed, k')
         | (None, eps, failed, k') \<Rightarrow>
             (Inr ((blank_pool cfg retryCfg eps)\<lparr>pool_health := startHealthCheck cfg\<rparr>), [], k')))"

definition Pool_Name :: "Pool option \<Rightarrow> string" where
  "Pool_Name p = (case p of None \<Rightarrow> [] | Some p \<Rightarrow> pool_name p)"

definition recordDomainBlock :: "instant \<Rightarrow> int64 \<Rightarrow> string \<Rightarrow> Pool option \<Rightarrow> Pool option" where
  "recordDomainBlock now endpointIndex domain p =
     (case p of
        None \<Rightarrow> None
      | Some p \<Rightarrow> Some (p\<lparr>pool_domains := RecordBlock now endpointIndex domain (pool_domains p)\<rparr>))"

text \<open>\<open>findEndpoint\<close> gives the position of the endpoint, for the pointer the code returns.\<close>

fun find_index :: "int64 \<Rightarrow> nat \<Rightarrow> endpoint list \<Rightarrow> nat option" where
  "find_index index i [] = None"
| "find_index index i (ep # eps) = (if ep_index ep = index then Some i else find_index index (Suc i) eps)"

definition findEndpoint :: "(string \<Rightarrow> string) \<Rightarrow> int64 \<Rightarrow> Pool option \<Rightarrow> gerr + nat" where
  "findEndpoint q index p =
     (case p of
        None \<Rightarrow> Inl ErrPoolNotFound
      | Some p \<Rightarrow>
        (case find_index index 0 (pool_endpoints p) of
           Some i \<Rightarrow> Inr i
         | None \<Rightarrow> Inl (ErrText (''proxator: endpoint '' @ itoa (sint index) @ '' not found in pool '' @
                                 go_quote q (pool_name p)))))"

section \<open>Statistics\<close>

record EndpointStats =
  st_Index :: int64
  st_State :: State
  st_FailCount :: int64
  st_AvailableSessions :: nat
  st_TotalSessions :: int64
  st_AvgLatency :: duration
  st_TotalRequests :: int64
  st_SuccessRequests :: int64
  st_SuccessRate :: f64
  st_CooldownTier :: int64

record PoolStats =
  ps_Name :: string
  ps_Total :: nat
  ps_Alive :: nat
  ps_Dead :: nat
  ps_Cooldown :: nat
  ps_SessionPoolSize :: int64
  ps_Endpoints :: "EndpointStats list"

definition endpoint_stats :: "endpoint \<Rightarrow> EndpointStats" where
  "endpoint_stats ep =
     \<lparr> st_Index = ep_index ep, st_State = ep_state ep, st_FailCount = scast (ep_failCount ep),
       st_AvailableSessions = length (ep_sessions ep), st_TotalSessions = ep_poolSize ep,
       st_AvgLatency = ep_avgLatency ep, st_TotalRequests = ep_totalReqs ep,
       st_SuccessRequests = ep_successReqs ep, st_SuccessRate = successRate ep,
       st_CooldownTier = scast (ep_cooldownTier ep) \<rparr>"

definition count_state :: "State \<Rightarrow> PoolStats \<Rightarrow> PoolStats" where
  "count_state state stats =
     (case state of
        StateAlive \<Rightarrow> stats\<lparr>ps_Alive := ps_Alive stats + 1\<rparr>
      | StateDead \<Rightarrow> stats\<lparr>ps_Dead := ps_Dead stats + 1\<rparr>
      | StateCooldown \<Rightarrow> stats\<lparr>ps_Cooldown := ps_Cooldown stats + 1\<rparr>)"

fun stats_loop :: "endpoint list \<Rightarrow> PoolStats \<Rightarrow> PoolStats" where
  "stats_loop [] stats = stats"
| "stats_loop (ep # eps) stats =
     stats_loop eps (count_state (ep_state ep)
       (stats\<lparr>ps_Endpoints := ps_Endpoints stats @ [endpoint_stats ep]\<rparr>))"

definition Pool_Stats :: "Pool option \<Rightarrow> PoolStats" where
  "Pool_Stats p =
     (case p of
        None \<Rightarrow> \<lparr> ps_Name = [], ps_Total = 0, ps_Alive = 0, ps_Dead = 0, ps_Cooldown = 0,
                  ps_SessionPoolSize = 0, ps_Endpoints = [] \<rparr>
      | Some p \<Rightarrow> stats_loop (pool_endpoints p)
          \<lparr> ps_Name = pool_name p, ps_Total = length (pool_endpoints p), ps_Alive = 0, ps_Dead = 0,
            ps_Cooldown = 0, ps_SessionPoolSize = pool_sessionPoolSize p, ps_Endpoints = [] \<rparr>)"

section \<open>Lemmas\<close>

lemma Pool_Close_idem: "Pool_Close (Pool_Close p) = Pool_Close p"
  by (cases p) (simp_all add: Pool_Close_def hc_stop_def Close_idem option.map_comp comp_def)

lemma stats_loop_fields:
  "ps_Endpoints (stats_loop eps s) = ps_Endpoints s @ map endpoint_stats eps"
  "ps_Total (stats_loop eps s) = ps_Total s"
  "ps_Alive (stats_loop eps s) = ps_Alive s + length (filter (\<lambda>e. ep_state e = StateAlive) eps)"
  "ps_Dead (stats_loop eps s) = ps_Dead s + length (filter (\<lambda>e. ep_state e = StateDead) eps)"
  "ps_Cooldown (stats_loop eps s) = ps_Cooldown s + length (filter (\<lambda>e. ep_state e = StateCooldown) eps)"
  by (induction eps s rule: stats_loop.induct) (simp_all add: count_state_def split: State.split)

lemma states_partition:
  "length eps = (\<Sum>s \<leftarrow> Enum.enum. length (filter (\<lambda>e. ep_state e = s) eps))"
proof (induction eps)
  case (Cons e eps)
  then show ?case by (cases "ep_state e") (simp_all add: enum_State_def)
qed (simp add: enum_State_def)

lemma newEndpoint_index: "newEndpointWithFactory u i n r factory k = (None, e, k') \<Longrightarrow> ep_index e = i"
  by (drule newEndpoint_Done(1)) (simp add: blank_endpoint_def Let_def)

lemma new_endpoints_index:
  "new_endpoints psize rps factory i urls k = (r, eps, failed, k') \<Longrightarrow>
   map ep_index eps = map (\<lambda>j. word_of_int (i + int j)) [0..<length eps] \<and>
   (r = None \<longrightarrow> length eps = length urls)"
proof (induction urls arbitrary: i k r eps failed k')
  case (Cons url urls)
  show ?case
  proof (cases "newEndpointWithFactory url (word_of_int i) psize rps factory k")
    case (fields a e k1)
    show ?thesis
    proof (cases a)
      case None
      obtain r2 eps2 f2 k2 where rest: "new_endpoints psize rps factory (i + 1) urls k1 = (r2, eps2, f2, k2)"
        by (metis prod_cases4)
      have eq: "r = r2" "eps = e # eps2" using Cons.prems fields None rest by simp_all
      have "map ep_index eps2 = map (\<lambda>j. word_of_int (i + int (Suc j))) [0..<length eps2]"
        using Cons.IH[OF rest] by (simp add: ac_simps)
      moreover have "ep_index e = word_of_int i" using newEndpoint_index fields None by blast
      ultimately show ?thesis using Cons.IH[OF rest] eq
        by (simp del: upt_Suc add: upt_conv_Cons map_Suc_upt[symmetric])
    next
      case (Some err)
      then show ?thesis using Cons.prems fields by auto
    qed
  qed
qed simp

lemma new_endpoints_built:
  "new_endpoints psize rps factory i urls k = (None, eps, failed, k') \<Longrightarrow>
   \<forall>e \<in> set eps. ep_state e = StateAlive \<and> int (length (ep_sessions e)) = sint (ep_poolSize e)"
proof (induction urls arbitrary: i k eps)
  case (Cons url urls)
  obtain e k1 eps2 where e: "newEndpointWithFactory url (word_of_int i) psize rps factory k = (None, e, k1)"
    "new_endpoints psize rps factory (i + 1) urls k1 = (None, eps2, failed, k')" "eps = e # eps2"
    using Cons.prems by (auto split: prod.splits option.splits)
  then show ?case
    using Cons.IH[OF e(2)] newEndpoint_Done(1)[OF e(1)] newEndpoint_Done(2)[OF e(1)]
    by (simp add: blank_endpoint_def Let_def)
qed simp

lemma find_index_nth:
  assumes "find_index x i eps = r"
  shows "case r of None \<Rightarrow> x \<notin> ep_index ` set eps
    | Some j \<Rightarrow> i \<le> j \<and> j < i + length eps \<and> ep_index (eps ! (j - i)) = x"
  using assms
proof (induction eps arbitrary: i r)
  case (Cons e eps)
  show ?case
  proof (cases "ep_index e = x")
    case False
    with Cons.prems have "find_index x (Suc i) eps = r" by simp
    from Cons.IH[OF this] False show ?thesis
      by (auto split: option.splits simp: nth_Cons' Suc_le_eq)
  qed (use Cons.prems in auto)
qed simp

section \<open>Construction and its failure\<close>

text \<open>
  The sessions calls \<open>k, \<dots>, k' - 1\<close> of the factory created for a pool whose endpoints have \<open>n\<close>
  sessions each: call number \<open>k + j\<close> is for URL number \<open>j div n\<close>.
\<close>

definition pool_created :: "factory \<Rightarrow> string list \<Rightarrow> nat \<Rightarrow> nat \<Rightarrow> nat \<Rightarrow> session list" where
  "pool_created factory urls n k k' =
     concat (map (\<lambda>j. case factory j (urls ! ((j - k) div n)) of Inl _ \<Rightarrow> [] | Inr s \<Rightarrow> [s]) [k..<k'])"

lemma pool_created_head:
  assumes "k \<le> k'" "k' \<le> k + n" "0 < n"
  shows "pool_created factory (url # urls) n k k' = created factory url k k'"
  unfolding pool_created_def created_def
proof (rule arg_cong[where f = concat], rule map_cong[OF refl])
  fix j assume "j \<in> set [k..<k']"
  with assms have "j - k < n" by auto
  then have "(j - k) div n = 0" by simp
  then show "(case factory j ((url # urls) ! ((j - k) div n)) of Inl _ \<Rightarrow> [] | Inr s \<Rightarrow> [s]) =
    (case factory j url of Inl _ \<Rightarrow> [] | Inr s \<Rightarrow> [s])" by simp
qed

lemma pool_created_tail:
  assumes "k + n \<le> k'" "0 < n"
  shows "pool_created factory (url # urls) n k k' =
    created factory url k (k + n) @ pool_created factory urls n (k + n) k'"
proof -
  have split: "[k..<k'] = [k..<k + n] @ [k + n..<k']"
    using assms upt_add_eq_append[of k "k + n" "k' - (k + n)"] by simp
  have "map (\<lambda>j. case factory j ((url # urls) ! ((j - k) div n)) of Inl _ \<Rightarrow> [] | Inr s \<Rightarrow> [s]) [k + n..<k'] =
    map (\<lambda>j. case factory j (urls ! ((j - (k + n)) div n)) of Inl _ \<Rightarrow> [] | Inr s \<Rightarrow> [s]) [k + n..<k']"
  proof (rule map_cong[OF refl])
    fix j assume "j \<in> set [k + n..<k']"
    then have "j - k = (j - (k + n)) + n" by auto
    then have "(j - k) div n = ((j - (k + n)) + n) div n" by (rule arg_cong)
    also have "\<dots> = Suc ((j - (k + n)) div n)" using assms(2) by simp
    finally have "(j - k) div n = Suc ((j - (k + n)) div n)" .
    then show "(case factory j ((url # urls) ! ((j - k) div n)) of Inl _ \<Rightarrow> [] | Inr s \<Rightarrow> [s]) =
      (case factory j (urls ! ((j - (k + n)) div n)) of Inl _ \<Rightarrow> [] | Inr s \<Rightarrow> [s])" by simp
  qed
  note tl = this
  have hd: "pool_created factory (url # urls) n k (k + n) = created factory url k (k + n)"
    by (rule pool_created_head[OF le_add1 order_refl assms(2)])
  have "pool_created factory (url # urls) n k k' =
    pool_created factory (url # urls) n k (k + n) @ pool_created factory urls n (k + n) k'"
    by (simp only: pool_created_def split map_append concat_append tl)
  with hd show ?thesis by simp
qed

text \<open>The outcome of one endpoint constructor.\<close>

lemma newEndpoint_outcome:
  assumes "newEndpointWithFactory u i n r factory k = (res, e, k')" "0 < sint n"
  shows "k \<le> k' \<and> k' \<le> k + nat (sint n) \<and> ep_owned e = mset (created factory u k k') \<and>
    (case res of
       None \<Rightarrow> k' = k + nat (sint n) \<and> e = (blank_endpoint u i n r)\<lparr>ep_sessions := created factory u k k'\<rparr>
     | Some _ \<Rightarrow> ep_closed e \<and> ep_sessions e = [])"
proof -
  let ?b = "blank_endpoint u i n r"
  have b: "\<not> ep_closeOnce ?b" "ep_closedSessions ?b = []" "ep_sessions ?b = []" "ep_url ?b = u"
    "ep_owned ?b = {#}" "nat (sint (ep_poolSize ?b)) = nat (sint n)"
    using assms(2) by (simp_all add: blank_endpoint_def Let_def ep_owned_def)
  have eq: "open_sessions factory (nat (sint n)) 0 k ?b = (res, e, k')"
    using assms(1) by (simp add: newEndpointWithFactory_def Let_def b(6))
  have o: "ep_owned e = mset (created factory u k k')"
    using open_sessions_owned[OF eq] unfolding b(4,5) by simp
  have f: "case res of None \<Rightarrow> e = ?b\<lparr>ep_sessions := ep_sessions ?b @ created factory (ep_url ?b) k k'\<rparr> \<and>
              length (ep_sessions e) = length (ep_sessions ?b) + nat (sint n)
    | Some _ \<Rightarrow> ep_closeOnce e \<and> ep_closed e \<and> ep_sessions e = []"
    by (rule open_sessions_fields[OF eq b(1,2)])
  show ?thesis
    using open_sessions_calls[OF eq] o f unfolding b(3,4) append_Nil by (cases res) simp_all
qed

lemma fresh_Close:
  assumes "e = (blank_endpoint u i n r)\<lparr>ep_sessions := ss\<rparr>"
  shows "ep_closed (Close e)" "ep_sessions (Close e) = []" "ep_closedSessions (Close e) = ss"
  unfolding assms by (simp_all add: Close_sessions blank_endpoint_def Let_def)

text \<open>Everything the factory created for a pool is owned by the endpoints built for it.\<close>

lemma new_endpoints_owned:
  "new_endpoints psize rps factory i urls k = (res, eps, failed, k') \<Longrightarrow> 0 < sint psize \<Longrightarrow>
   k \<le> k' \<and>
   sum_list (map ep_owned (eps @ failed)) = mset (pool_created factory urls (nat (sint psize)) k k') \<and>
   (res = None \<longrightarrow> k' = k + length urls * nat (sint psize)) \<and>
   (\<forall>e \<in> set eps. \<exists>u i ss. e = (blank_endpoint u i psize rps)\<lparr>ep_sessions := ss\<rparr>) \<and>
   (\<forall>e \<in> set failed. ep_closed e \<and> ep_sessions e = []) \<and>
   (res = None \<longrightarrow> failed = [])"
proof (induction urls arbitrary: i k res eps failed k')
  case Nil
  then show ?case by (auto simp: pool_created_def)
next
  case (Cons url urls)
  let ?n = "nat (sint psize)"
  have n: "0 < ?n" using Cons.prems(2) by simp
  show ?case
  proof (cases "newEndpointWithFactory url (word_of_int i) psize rps factory k")
    case (fields a e k1)
    note out = newEndpoint_outcome[OF fields Cons.prems(2)]
    show ?thesis
    proof (cases a)
      case None
      obtain r2 eps2 f2 k2 where rest: "new_endpoints psize rps factory (i + 1) urls k1 = (r2, eps2, f2, k2)"
        by (metis prod_cases4)
      have eq: "res = r2" "eps = e # eps2" "failed = f2" "k' = k2"
        using Cons.prems(1) fields None rest by simp_all
      have k1: "k1 = k + ?n" using out None by simp
      note IH = Cons.IH[OF rest Cons.prems(2)]
      have "pool_created factory (url # urls) ?n k k' =
        created factory url k (k + ?n) @ pool_created factory urls ?n (k + ?n) k'"
        by (rule pool_created_tail) (use IH eq k1 n in auto)
      then show ?thesis using IH out None eq k1 by auto
    next
      case (Some err)
      have eq: "res = Some (i, err)" "eps = []" "failed = [e]" "k' = k1"
        using Cons.prems(1) fields Some by simp_all
      then show ?thesis using out Some pool_created_head[OF _ _ n, of k k' factory url urls] by simp
    qed
  qed
qed

section \<open>Properties\<close>

text \<open>A pool that cannot be built leaks no session: when the constructor fails, every session
  the factory had created for it, for whichever endpoint, has been closed, and nothing else.\<close>

theorem failed_pool_closes_everything:
  assumes "newPoolWithFactory q parse cfg retryCfg factory k = (Inl err, dropped, k')"
  shows "mset (concat (map ep_closedSessions dropped)) =
           mset (pool_created factory (pc_Endpoints cfg) (nat (sint (sessionPoolSize cfg))) k k') \<and>
         (\<forall>e \<in> set dropped. ep_closed e \<and> ep_sessions e = [])"
proof (cases "validate q parse cfg")
  case (Some e)
  with assms show ?thesis by (simp add: newPoolWithFactory_def pool_created_def)
next
  case None
  obtain res eps failed k1 where ne: "new_endpoints (sessionPoolSize cfg) (pc_RequestsPerSecond cfg) factory 1
      (pc_Endpoints cfg) k = (res, eps, failed, k1)" by (metis prod_cases4)
  note own = new_endpoints_owned[OF ne sessionPoolSize_positive]
  have eq: "dropped = map Close eps @ failed" "k' = k1"
    using assms None ne
    by (auto simp: newPoolWithFactory_def Pool_Close_def blank_pool_def split: option.splits)
  have closed: "ep_closed e \<and> ep_sessions e = []" if "e \<in> set dropped" for e
    using that own unfolding eq by (auto simp: fresh_Close)
  then have "mset (concat (map ep_closedSessions dropped)) = sum_list (map ep_owned dropped)"
    by (auto simp: mset_concat ep_owned_def comp_def intro!: arg_cong[where f = sum_list])
  also have "\<dots> = sum_list (map ep_owned (eps @ failed))" unfolding eq by (simp add: comp_def)
  finally show ?thesis using own closed unfolding eq by simp
qed

definition sample_config :: PoolConfig where
  "sample_config = \<lparr> pc_Name = ''p'', pc_Endpoints = [''http://a:1'', ''http://b:1''], pc_SessionPoolSize = 2,
     pc_RequestsPerSecond = FNum 0, pc_HealthCheckInterval = 0, pc_HealthCheckURL = [], pc_HealthCheckTimeout = 0,
     pc_DomainBlockTTL = 0, pc_DomainBlockPenalty = FNum 0 \<rparr>"

definition sample_parse :: "string \<Rightarrow> gerr + url" where
  "sample_parse s = Inr \<lparr> url_Scheme = ''http'', url_Hostname = s \<rparr>"

lemma sample_config_valid: "validate q sample_parse sample_config = None"
  by (simp add: sample_config_def sample_parse_def validate_None_iff)

text \<open>A pool that is built has one endpoint per URL, alive, numbered from 1, each with a full
  channel of sessions; \<open>findEndpoint\<close> finds number \<open>i\<close> at position \<open>i - 1\<close> and nothing outside.\<close>

lemma built_pool_endpoints:
  assumes "newPoolWithFactory q parse cfg retryCfg factory k = (Inr p, dropped, k')"
    and "length (pc_Endpoints cfg) < 2 ^ 63" and "x = sint idx"
  shows "length (pool_endpoints p) = length (pc_Endpoints cfg) \<and>
    (\<forall>e \<in> set (pool_endpoints p). ep_state e = StateAlive \<and> int (length (ep_sessions e)) = sint (ep_poolSize e)) \<and>
    (case findEndpoint q idx (Some p) of
       Inr j \<Rightarrow> int j = x - 1 \<and> 1 \<le> x \<and> x \<le> int (length (pool_endpoints p))
     | Inl _ \<Rightarrow> x < 1 \<or> int (length (pool_endpoints p)) < x)"
proof -
  have v: "validate q parse cfg = None"
    using assms(1) by (cases "validate q parse cfg") (simp_all add: newPoolWithFactory_def)
  obtain res eps failed k1 where ne: "new_endpoints (sessionPoolSize cfg) (pc_RequestsPerSecond cfg) factory 1
      (pc_Endpoints cfg) k = (res, eps, failed, k1)" by (metis prod_cases4)
  have r: "res = None" "pool_endpoints p = eps"
    using assms(1) v ne by (auto simp: newPoolWithFactory_def blank_pool_def split: option.splits)
  note idxs = new_endpoints_index[OF ne]
  note built = new_endpoints_built[OF ne[unfolded r(1)]]
  have len: "length eps = length (pc_Endpoints cfg)" using idxs r by simp
  have at: "sint (ep_index (eps ! j)) = 1 + int j" if "j < length eps" for j
  proof -
    have "ep_index (eps ! j) = map ep_index eps ! j" using that by simp
    also have "\<dots> = word_of_int (1 + int j)" using idxs that by simp
    finally show ?thesis
      using sint_word_of_int64[of "1 + int j"] that len assms(2) by (simp add: min_int64_def max_int64_def)
  qed
  have find: "case findEndpoint q idx (Some p) of
       Inr j \<Rightarrow> int j = x - 1 \<and> 1 \<le> x \<and> x \<le> int (length eps)
     | Inl _ \<Rightarrow> x < 1 \<or> int (length eps) < x"
  proof (cases "find_index idx 0 eps")
    case (Some j)
    with find_index_nth[OF Some] at[of j] assms(3) show ?thesis by (simp add: findEndpoint_def r)
  next
    case None
    have "x < 1 \<or> int (length eps) < x"
    proof (rule ccontr)
      assume "\<not> (x < 1 \<or> int (length eps) < x)"
      then have j: "nat (x - 1) < length eps" "1 + int (nat (x - 1)) = x" by auto
      with at[of "nat (x - 1)"] assms(3) have "ep_index (eps ! nat (x - 1)) = idx" by (simp add: signed_word_eqI)
      with find_index_nth[OF None] j show False by auto
    qed
    with None show ?thesis by (simp add: findEndpoint_def r)
  qed
  then show ?thesis using built len r by auto
qed

lemma sample_pool_built:
  "\<exists>p. newPoolWithFactory q sample_parse sample_config DefaultRetryConfig (\<lambda>j _. Inr j) 0 = (Inr p, [], 4)"
  unfolding newPoolWithFactory_def sample_config_valid
  by (simp add: sample_config_def sessionPoolSize_def newEndpointWithFactory_def blank_endpoint_def numeral_2_eq_2)

text \<open>The counts of \<open>Stats\<close> partition the pool: alive, dead and in cooldown add up to the
  total, and the snapshot lists the endpoints in order.\<close>

lemma stats_partition:
  "let s = Pool_Stats (Some p) in
     ps_Alive s + ps_Dead s + ps_Cooldown s = ps_Total s \<and>
     ps_Total s = length (ps_Endpoints s) \<and>
     ps_Alive s = length (filter (\<lambda>st. st_State st = StateAlive) (ps_Endpoints s)) \<and>
     map st_Index (ps_Endpoints s) = map ep_index (pool_endpoints p)"
  using states_partition[of "pool_endpoints p"]
  by (simp add: Pool_Stats_def stats_loop_fields endpoint_stats_def Let_def comp_def filter_map enum_State_def)

end
