(* ===== verification/Selection.thy ===== *)
theory Selection
  imports Pool_Model
begin

text \<open>
  \<open>getNextEndpointForDomain\<close> of \<open>pool.go\<close>: the rotating scan over the pool, the weighted random
  draw over the alive endpoints, and the per-domain penalties.  Other goroutines change the
  endpoints and the tracker while the scan runs, so every step of it reads an observation of its
  own; the random number \<open>rand.Float64()\<close> is an argument.
\<close>

section \<open>Model\<close>

text \<open>
  What the scan finds at one endpoint: the state its \<open>isAvailable\<close> reads, the fields its
  \<open>weight\<close> reads afterwards, the clock at \<open>PenaltyFor\<close> and what others did to the tracker since
  the previous step.
\<close>

record scan_obs =
  so_avail :: endpoint
  so_weight :: endpoint
  so_now :: instant
  so_others :: "Tracker \<Rightarrow> Tracker"

type_synonym candidate = "nat \<times> f64"

definition starvation_weight :: f64 where
  "starvation_weight = rnd (1/1000)"

text \<open>The weight of an available endpoint before and after the domain penalty.\<close>

definition base_weight :: "endpoint \<Rightarrow> f64" where
  "base_weight ep = (let w = weight ep in if fle w (FNum 0) then starvation_weight else w)"

definition scan_weight :: "string \<Rightarrow> scan_obs \<Rightarrow> Tracker \<Rightarrow> f64 \<times> Tracker" where
  "scan_weight domain ob t =
     (let w = base_weight (so_weight ob) in
      if domain \<noteq> [] then
        (case PenaltyFor (so_now ob) (ep_index (so_avail ob)) domain (so_others ob t) of
           (pen, t') \<Rightarrow> (fmul w pen, t'))
      else (w, so_others ob t))"

text \<open>The loop over the positions, with \<open>candidates\<close> and \<open>totalWeight\<close> as accumulators.\<close>

fun scan ::
  "string \<Rightarrow> (nat \<Rightarrow> scan_obs) \<Rightarrow> nat list \<Rightarrow> candidate list \<Rightarrow> f64 \<Rightarrow> Tracker \<Rightarrow>
   candidate list \<times> f64 \<times> Tracker" where
  "scan domain obs [] candidates totalWeight t = (candidates, totalWeight, t)"
| "scan domain obs (i # is) candidates totalWeight t =
     (if \<not> isAvailable (so_avail (obs i)) then scan domain obs is candidates totalWeight (so_others (obs i) t)
      else case scan_weight domain (obs i) t of
        (w, t') \<Rightarrow> scan domain obs is (candidates @ [(i, w)]) (fadd totalWeight w) t')"

text \<open>The loop of the draw: the first candidate whose cumulative weight reaches \<open>r\<close>.\<close>

fun pick :: "f64 \<Rightarrow> f64 \<Rightarrow> candidate list \<Rightarrow> nat option" where
  "pick r cumulative [] = None"
| "pick r cumulative ((i, w) # cs) =
     (let cumulative = fadd cumulative w in
      if fle r cumulative then Some i else pick r cumulative cs)"

definition draw :: "f64 \<Rightarrow> candidate list \<Rightarrow> f64 \<Rightarrow> nat" where
  "draw u candidates totalWeight =
     (case pick (fmul u totalWeight) (FNum 0) candidates of
        Some i \<Rightarrow> i
      | None \<Rightarrow> fst (last candidates))"

definition positions :: "nat \<Rightarrow> nat \<Rightarrow> nat list" where
  "positions startIdx n = map (\<lambda>i. (startIdx + i) mod n) [0..<n]"

definition start_index :: "uint64 \<Rightarrow> nat \<Rightarrow> nat" where
  "start_index currentIndex n = nat (uint (currentIndex mod word_of_nat n))"

text \<open>The method: the position of the selected endpoint, or the error, and the pool after it.\<close>

definition getNextEndpointForDomain ::
  "string \<Rightarrow> (nat \<Rightarrow> scan_obs) \<Rightarrow> f64 \<Rightarrow> Pool option \<Rightarrow> (gerr + nat) \<times> Pool option" where
  "getNextEndpointForDomain domain obs u pool =
     (case pool of
        None \<Rightarrow> (Inl ErrAllProxiesBlocked, None)
      | Some p \<Rightarrow>
        let n = length (pool_endpoints p) in
        if n = 0 then (Inl ErrAllProxiesBlocked, Some p)
        else if n = 1 then
          (if isAvailable (so_avail (obs 0)) then Inr 0 else Inl ErrAllProxiesBlocked, Some p)
        else
          let current = pool_currentIndex p + 1;
              startIdx = start_index current n
          in case scan domain obs (positions startIdx n) [] (FNum 0) (pool_domains p) of
               (candidates, totalWeight, t) \<Rightarrow>
                 ((case candidates of
                     [] \<Rightarrow> Inl ErrAllProxiesBlocked
                   | [(i, w)] \<Rightarrow> Inr i
                   | _ \<Rightarrow> Inr (draw u candidates totalWeight)),
                  Some (p\<lparr>pool_currentIndex := current, pool_domains := t\<rparr>)))"

definition getNextEndpoint ::
  "(nat \<Rightarrow> scan_obs) \<Rightarrow> f64 \<Rightarrow> Pool option \<Rightarrow> (gerr + nat) \<times> Pool option" where
  "getNextEndpoint = getNextEndpointForDomain []"

text \<open>The observations of a scan nothing interferes with.\<close>

definition quiet :: "instant \<Rightarrow> Pool \<Rightarrow> nat \<Rightarrow> scan_obs" where
  "quiet now p i =
     \<lparr> so_avail = pool_endpoints p ! i, so_weight = pool_endpoints p ! i, so_now = now, so_others = (\<lambda>t. t) \<rparr>"

section \<open>The scan\<close>

text \<open>The scan visits every position once, from the start index around.\<close>

lemma positions_rotate: "positions s n = rotate s [0..<n]"
  by (rule nth_equalityI) (simp_all add: positions_def nth_rotate)

lemma positions_facts [simp]:
  "set (positions s n) = {..<n}" "distinct (positions s n)" "length (positions s n) = n"
  by (simp_all add: positions_rotate atLeast0LessThan)

lemma positions_nth: "k < n \<Longrightarrow> positions s n ! k = (s + k) mod n"
  by (simp add: positions_def)

lemma start_index_eq: "0 < n \<Longrightarrow> n < 2 ^ 64 \<Longrightarrow> start_index c n = unat c mod n"
  by (simp add: start_index_def unat_mod unat_of_nat flip: unat_eq_nat_uint)

text \<open>What the scan computes: the alive positions in scan order, each with the weight it was given
  there, and the total in the order of the additions.\<close>

lemma scan_spec:
  assumes "scan domain obs is cs tot t = (cs', tot', t')"
    and "I t" and "\<And>i t. i \<in> set is \<Longrightarrow> I t \<Longrightarrow> I (so_others (obs i) t)"
    and "\<And>i t. i \<in> set is \<Longrightarrow> I t \<Longrightarrow> I (snd (scan_weight domain (obs i) t))"
  shows "\<exists>new. cs' = cs @ new \<and> map fst new = filter (\<lambda>i. isAvailable (so_avail (obs i))) is \<and>
           tot' = foldl fadd tot (map snd new) \<and>
           (\<forall>(i, w) \<in> set new. \<exists>t. I t \<and> w = fst (scan_weight domain (obs i) t)) \<and> I t'"
  using assms
proof (induction "is" arbitrary: cs tot t)
  case (Cons i "is")
  show ?case
  proof (cases "isAvailable (so_avail (obs i))")
    case True
    obtain w t1 where w: "scan_weight domain (obs i) t = (w, t1)" by fastforce
    with Cons.prems(1) True have "scan domain obs is (cs @ [(i, w)]) (fadd tot w) t1 = (cs', tot', t')"
      by simp
    moreover have "I t1" using Cons.prems(4)[OF _ Cons.prems(2), of i] w by simp
    ultimately obtain new where new: "cs' = (cs @ [(i, w)]) @ new"
      "map fst new = filter (\<lambda>i. isAvailable (so_avail (obs i))) is"
      "tot' = foldl fadd (fadd tot w) (map snd new)" "I t'"
      "\<forall>(i, w) \<in> set new. \<exists>t. I t \<and> w = fst (scan_weight domain (obs i) t)"
      using Cons.IH[of "cs @ [(i, w)]" "fadd tot w" t1] Cons.prems(3,4) by auto
    have "I t \<and> w = fst (scan_weight domain (obs i) t)" using Cons.prems(2) by (simp add: w)
    with new True show ?thesis by (intro exI[of _ "(i, w) # new"]) auto
  next
    case False
    with Cons.prems(1) have "scan domain obs is cs tot (so_others (obs i) t) = (cs', tot', t')" by simp
    from Cons.IH[OF this Cons.prems(3)[OF _ Cons.prems(2)]] Cons.prems(3,4) False show ?thesis by simp
  qed
qed simp

lemma scan_candidates:
  assumes "scan domain obs is [] (FNum 0) t = (cs, tot, t')"
  shows "map fst cs = filter (\<lambda>i. isAvailable (so_avail (obs i))) is"
    and "tot = foldl fadd (FNum 0) (map snd cs)"
  using scan_spec[OF assms, of "\<lambda>_. True"] by auto

section \<open>The draw\<close>

text \<open>Partial sums of the weights, in the order the loops add them.\<close>

definition cumulated :: "candidate list \<Rightarrow> nat \<Rightarrow> f64" where
  "cumulated cs k = foldl fadd (FNum 0) (map snd (take k cs))"

lemma pick_reached: "cs \<noteq> [] \<Longrightarrow> fle r (foldl fadd c (map snd cs)) \<Longrightarrow> pick r c cs \<noteq> None"
proof (induction r c cs rule: pick.induct)
  case (2 r c i w cs)
  then show ?case by (cases "cs = []") (auto simp: Let_def)
qed simp

lemma pick_Some:
  "pick r c cs = Some i \<Longrightarrow> \<exists>k < length cs. fst (cs ! k) = i \<and>
     fle r (foldl fadd c (map snd (take (Suc k) cs))) \<and>
     (\<forall>j. 0 < j \<and> j \<le> k \<longrightarrow> \<not> fle r (foldl fadd c (map snd (take j cs))))"
proof (induction r c cs rule: pick.induct)
  case (2 r c i' w cs)
  show ?case
  proof (cases "fle r (fadd c w)")
    case True
    with 2(2) show ?thesis by (intro exI[of _ 0]) (simp add: Let_def)
  next
    case False
    with 2(2) have "pick r (fadd c w) cs = Some i" by (simp add: Let_def)
    from 2(1)[OF refl False this] obtain k where k: "k < length cs" "fst (cs ! k) = i"
      "fle r (foldl fadd (fadd c w) (map snd (take (Suc k) cs)))"
      "\<forall>j. 0 < j \<and> j \<le> k \<longrightarrow> \<not> fle r (foldl fadd (fadd c w) (map snd (take j cs)))" by blast
    have "\<not> fle r (foldl fadd c (map snd (take j ((i', w) # cs))))" if "0 < j" "j \<le> Suc k" for j
    proof (cases "j = 1")
      case True
      with False show ?thesis by simp
    next
      case ne: False
      with that obtain l where "j = Suc l" "0 < l" "l \<le> k" by (cases j) auto
      with k(4) show ?thesis by simp
    qed
    with k show ?thesis by (intro exI[of _ "Suc k"]) simp
  qed
qed simp

lemma pick_mem: "pick r c cs = Some i \<Longrightarrow> i \<in> fst ` set cs"
  using pick_Some[of r c cs i] by (auto intro!: image_eqI[of _ fst "cs ! _"])

lemma draw_mem: "cs \<noteq> [] \<Longrightarrow> draw u cs tot \<in> fst ` set cs"
  by (auto simp: draw_def pick_mem split: option.split)

text \<open>Which candidate is drawn depends on the weights only, not on what they belong to.\<close>

fun pick_offset :: "f64 \<Rightarrow> f64 \<Rightarrow> f64 list \<Rightarrow> nat" where
  "pick_offset r c [] = 0"
| "pick_offset r c (w # ws) =
     (if fle r (fadd c w) \<or> ws = [] then 0 else Suc (pick_offset r (fadd c w) ws))"

lemma pick_offset_less: "ws \<noteq> [] \<Longrightarrow> pick_offset r c ws < length ws"
  by (induction r c ws rule: pick_offset.induct) auto

lemma pick_offset_draw:
  "cs \<noteq> [] \<Longrightarrow> (case pick r c cs of Some i \<Rightarrow> i | None \<Rightarrow> fst (last cs)) =
     fst (cs ! pick_offset r c (map snd cs))"
  by (induction r c cs rule: pick.induct) (auto simp: Let_def split: option.splits)

section \<open>Weights are positive and bounded\<close>

definition penalty_ok :: "Tracker \<Rightarrow> bool" where
  "penalty_ok t \<longleftrightarrow> (\<exists>p. effective_penalty t = FNum p \<and> 0 < p \<and> p \<le> 1)"

text \<open>
  The scan runs on endpoints with sane statistics and a tracker whose settings nobody changes
  (the code has no operation that changes them).
\<close>

definition obs_ok :: "nat \<Rightarrow> (nat \<Rightarrow> scan_obs) \<Rightarrow> bool" where
  "obs_ok n obs \<longleftrightarrow> (\<forall>i < n. sane_stats (so_weight (obs i)) \<and>
     (\<forall>t. effective_penalty (so_others (obs i) t) = effective_penalty t))"

lemma starvation_fround: "fround (1/1000) = 1152921504606847 / 1152921504606846976"
  by code_simp

lemma starvation_eq: "starvation_weight = FNum (1152921504606847 / 1152921504606846976)"
  unfolding starvation_weight_def starvation_fround[symmetric] by (rule rnd_nonneg_FNum[where k = 0]) simp_all

lemma base_weight_below:
  assumes "sane_stats ep"
  shows "\<exists>q. base_weight ep = FNum q \<and> 0 < q \<and> q \<le> 2 powi 100"
proof -
  obtain q where "weight ep = FNum q" "0 \<le> q" "q \<le> 2 powi 100" using below_weight[OF assms] by (auto simp: below_def)
  moreover have "\<exists>q. starvation_weight = FNum q \<and> 0 < q \<and> q \<le> 2 powi 100"
    by (rule exI, intro conjI, rule starvation_eq) simp_all
  ultimately show ?thesis by (cases "q = 0") (simp_all add: base_weight_def Let_def)
qed

lemma fmul_penalty:
  assumes "0 \<le> q" "q \<le> 2 powi 100" "0 \<le> p" "p \<le> 1"
  shows "below 100 (fmul (FNum q) (FNum p))"
  using below_mul[of 100 "FNum q" 0 "FNum p"] assms by (simp add: below_def)

lemma fst_PenaltyFor_ok:
  assumes "penalty_ok t"
  obtains p where "fst (PenaltyFor now i d t) = FNum p" "0 < p" "p \<le> 1"
  using PenaltyFor_values[of now i d t] assms that by (force simp: penalty_ok_def)

lemma scan_weight_below:
  assumes "obs_ok n obs" "i < n" "penalty_ok t"
  shows "below 100 (fst (scan_weight domain (obs i) t))"
proof -
  obtain q where q: "base_weight (so_weight (obs i)) = FNum q" "0 < q" "q \<le> 2 powi 100"
    using base_weight_below[of "so_weight (obs i)"] assms(1,2) by (auto simp: obs_ok_def)
  have "penalty_ok (so_others (obs i) t)" using assms by (simp add: obs_ok_def penalty_ok_def)
  then obtain p where p: "fst (PenaltyFor (so_now (obs i)) (ep_index (so_avail (obs i))) domain (so_others (obs i) t)) = FNum p"
    "0 < p" "p \<le> 1" by (rule fst_PenaltyFor_ok)
  show ?thesis
    using q p fmul_penalty[of q p]
    by (simp add: scan_weight_def Let_def split_beta) (simp add: below_def)
qed

lemma scan_weight_tracker:
  assumes "obs_ok n obs" "i < n"
  shows "effective_penalty (snd (scan_weight domain (obs i) t)) = effective_penalty t"
  using assms by (simp add: scan_weight_def Let_def split_beta obs_ok_def)

lemma scan_below:
  assumes "scan domain obs is [] (FNum 0) t = (cs, tot, t')" "obs_ok n obs" "penalty_ok t" "set is \<subseteq> {..<n}"
  shows "\<forall>w \<in> snd ` set cs. below 100 w" and "penalty_ok t'"
proof -
  have keep: "penalty_ok (so_others (obs i) t)" "penalty_ok (snd (scan_weight domain (obs i) t))"
    if "i \<in> set is" "penalty_ok t" for i t
    using that assms(2,4) scan_weight_tracker[OF assms(2), of i domain t] by (auto simp: penalty_ok_def obs_ok_def)
  have c: "set (map fst cs) \<subseteq> {..<n}" using scan_candidates(1)[OF assms(1)] assms(4) by auto
  have "(\<forall>(i, w) \<in> set cs. \<exists>t. penalty_ok t \<and> w = fst (scan_weight domain (obs i) t)) \<and> penalty_ok t'"
    using scan_spec[OF assms(1), of penalty_ok] assms(3) keep by auto
  then show "\<forall>w \<in> snd ` set cs. below 100 w" "penalty_ok t'"
    using scan_weight_below[OF assms(2)] c by fastforce+
qed

text \<open>Sums of up to \<open>2 ^ 53\<close> bounded weights are finite, and they are rounded values.\<close>

lemma sum_below:
  assumes "\<forall>w \<in> set ws. below 100 w" "length ws \<le> 2 ^ 53"
  shows "\<exists>s. foldl fadd (FNum 0) ws = FNum s \<and> 0 \<le> s \<and> s \<le> of_nat (length ws) * 2 powi 100 \<and> representable s"
  using assms
proof (induction ws rule: rev_induct)
  case Nil
  then show ?case using representable_of_int[of 0] by simp
next
  case (snoc w ws)
  from snoc obtain s where s: "foldl fadd (FNum 0) ws = FNum s" "0 \<le> s"
    "s \<le> of_nat (length ws) * 2 powi 100" by auto
  from snoc.prems obtain q where q: "w = FNum q" "0 \<le> q" "q \<le> 2 powi 100" by (auto simp: below_def)
  let ?b = "of_int (int (length (ws @ [w]))) * 2 powi 100 :: rat"
  have le: "s + q \<le> ?b" using s q by (simp add: algebra_simps)
  have rep: "representable ?b"
    unfolding representable_def
    by (rule exI[of _ "int (length (ws @ [w]))"], rule exI[of _ 100]) (use snoc.prems(2) in simp)
  have "(of_nat (length (ws @ [w])) :: rat) \<le> of_nat (2 ^ 53)" using snoc.prems(2) by (simp only: of_nat_le_iff)
  then have small: "?b \<le> 2 powi 153" by simp
  have "rnd (s + q) = FNum (fround (s + q))"
    by (rule rnd_nonneg_FNum[where k = 153]) (use s q le small in linarith)+
  then show ?case
    using s q fround_nonneg[of "s + q"] fround_le[OF le rep] representable_fround[of "s + q"] by simp
qed

lemma draw_reaches:
  assumes "\<forall>w \<in> set ws. below 100 w" "length ws \<le> 2 ^ 53" "0 \<le> x" "x \<le> 1"
  shows "fle (fmul (FNum x) (foldl fadd (FNum 0) ws)) (foldl fadd (FNum 0) ws)"
proof -
  obtain s where s: "foldl fadd (FNum 0) ws = FNum s" "0 \<le> s"
    "s \<le> of_nat (length ws) * 2 powi 100" "representable s" using sum_below[OF assms(1,2)] by blast
  have "x * s \<le> s" "0 \<le> x * s" using assms(3,4) s(2) by (simp_all add: mult_left_le_one_le)
  have "(of_nat (length ws) :: rat) \<le> of_nat (2 ^ 53)" using assms(2) by (simp only: of_nat_le_iff)
  then have "s \<le> 2 powi 153" using s(3) by simp
  then have "rnd (x * s) = FNum (fround (x * s))"
    by (intro rnd_nonneg_FNum[where k = 153]) (use \<open>x * s \<le> s\<close> \<open>0 \<le> x * s\<close> in linarith)+
  then show ?thesis using fround_le[OF \<open>x * s \<le> s\<close> s(4)] s(1) by simp
qed

lemma NewTracker_penalty_ok:
  assumes "pen \<noteq> FNaN" "\<not> flt pen (FNum 0)" "\<not> flt (FNum 1) pen"
  shows "penalty_ok (NewTracker ttl pen)"
proof -
  have d: "DefaultBlockPenalty = FNum (fround (1/10))"
    unfolding DefaultBlockPenalty_def by (rule rnd_nonneg_FNum[where k = 0]) simp_all
  have v: "fround (1/10) = 3602879701896397 / 36028797018963968" by code_simp
  have "\<exists>p. DefaultBlockPenalty = FNum p \<and> 0 < p \<and> p \<le> 1 \<and> \<not> p \<le> 0"
    by (rule exI, intro conjI, rule d[unfolded v]) simp_all
  moreover obtain q where "pen = FNum q" "0 \<le> q" "q \<le> 1" using assms by (cases pen) auto
  ultimately show ?thesis
    by (cases "q = 0") (auto simp: penalty_ok_def effective_penalty_def NewTracker_def)
qed

lemma cumulated_Suc: "k < length cs \<Longrightarrow> cumulated cs (Suc k) = fadd (cumulated cs k) (snd (cs ! k))"
  by (simp add: cumulated_def take_Suc_conv_app_nth)

lemma cumulated_FNum:
  assumes "\<forall>w \<in> snd ` set cs. below 100 w" "length cs \<le> 2 ^ 53"
  shows "\<exists>s. cumulated cs k = FNum s \<and> 0 \<le> s \<and> representable s"
proof -
  have "\<forall>w \<in> set (map snd (take k cs)). below 100 w" using assms(1) by (auto dest: in_set_takeD)
  moreover have "length (map snd (take k cs)) \<le> 2 ^ 53" using assms(2) by simp
  ultimately show ?thesis using sum_below unfolding cumulated_def by blast
qed

lemma cumulated_mono:
  assumes "\<forall>w \<in> snd ` set cs. below 100 w" "length cs \<le> 2 ^ 53" "j \<le> k" "k \<le> length cs"
  shows "fle (cumulated cs j) (cumulated cs k)"
  using assms(3,4)
proof (induction k)
  case 0
  then show ?case using cumulated_FNum[OF assms(1,2), of 0] by auto
next
  case (Suc k)
  show ?case
  proof (cases "j = Suc k")
    case True
    then show ?thesis using cumulated_FNum[OF assms(1,2), of j] by auto
  next
    case False
    with Suc have j: "fle (cumulated cs j) (cumulated cs k)" by simp
    obtain a b c where abc: "cumulated cs j = FNum a" "cumulated cs k = FNum b" "representable b"
      "cumulated cs (Suc k) = FNum c"
      using cumulated_FNum[OF assms(1,2)] by blast
    have "cs ! k \<in> set cs" using Suc.prems by simp
    with assms(1) obtain q where q: "snd (cs ! k) = FNum q" "0 \<le> q" by (auto simp: below_def)
    have "FNum c = rnd (b + q)" using cumulated_Suc[of k cs] Suc.prems abc q by simp
    then have "c = fround (b + q)" by (metis rnd_eq_FNum)
    moreover have "b \<le> fround (b + q)" by (rule fround_ge[OF _ abc(3)]) (use q in simp)
    ultimately show ?thesis using j abc by simp
  qed
qed

section \<open>Properties\<close>

lemma getNext_scan:
  assumes "2 \<le> length (pool_endpoints p)"
    and "scan domain obs (positions (start_index (pool_currentIndex p + 1) (length (pool_endpoints p)))
           (length (pool_endpoints p))) [] (FNum 0) (pool_domains p) = (cs, tot, t)"
  shows "getNextEndpointForDomain domain obs u (Some p) =
    ((if cs = [] then Inl ErrAllProxiesBlocked
      else if length cs = 1 then Inr (fst (hd cs)) else Inr (draw u cs tot)),
     Some (p\<lparr>pool_currentIndex := pool_currentIndex p + 1, pool_domains := t\<rparr>))"
  using assms by (auto simp: getNextEndpointForDomain_def Let_def split: list.splits)

lemma getNext_cases:
  obtains "length (pool_endpoints p) < 2" "getNextEndpointForDomain domain obs u (Some p) =
      (if length (pool_endpoints p) = 1 \<and> isAvailable (so_avail (obs 0)) then Inr 0 else Inl ErrAllProxiesBlocked, Some p)"
  | cs tot t where "2 \<le> length (pool_endpoints p)"
      "\<And>i. i \<in> fst ` set cs \<longleftrightarrow> i < length (pool_endpoints p) \<and> isAvailable (so_avail (obs i))"
      "getNextEndpointForDomain domain obs u (Some p) =
        ((if cs = [] then Inl ErrAllProxiesBlocked
          else if length cs = 1 then Inr (fst (hd cs)) else Inr (draw u cs tot)),
         Some (p\<lparr>pool_currentIndex := pool_currentIndex p + 1, pool_domains := t\<rparr>))"
proof (cases "2 \<le> length (pool_endpoints p)")
  case True
  let ?n = "length (pool_endpoints p)"
  let ?is = "positions (start_index (pool_currentIndex p + 1) ?n) ?n"
  obtain cs tot t where sc: "scan domain obs ?is [] (FNum 0) (pool_domains p) = (cs, tot, t)"
    by (metis prod_cases3)
  have "i \<in> fst ` set cs \<longleftrightarrow> i < ?n \<and> isAvailable (so_avail (obs i))" for i
    using arg_cong[OF scan_candidates(1)[OF sc], of set] by auto
  from that(2)[OF True this getNext_scan[OF True sc]] show thesis .
next
  case False
  then have "length (pool_endpoints p) = 0 \<or> length (pool_endpoints p) = 1" by linarith
  then show thesis
  proof
    assume l: "length (pool_endpoints p) = 1"
    then have "pool_endpoints p \<noteq> []" by auto
    with l that(1) show thesis by (simp add: getNextEndpointForDomain_def)
  qed (use that(1) in \<open>simp add: getNextEndpointForDomain_def\<close>)
qed

lemma getNext_alive:
  assumes "getNextEndpointForDomain domain obs u (Some p) = (Inr i, p')"
  shows "i < length (pool_endpoints p) \<and> isAvailable (so_avail (obs i)) \<and>
    (\<exists>q. p' = Some q \<and> pool_endpoints q = pool_endpoints p)"
proof (cases rule: getNext_cases[of p domain obs u])
  case 1
  then show ?thesis using assms by (auto split: if_splits)
next
  case (2 cs tot t)
  have "fst (hd cs) \<in> fst ` set cs" if "cs \<noteq> []" using that by simp
  then show ?thesis using 2 assms draw_mem[of cs u tot] by (auto split: if_splits)
qed

lemma getNext_none:
  assumes "getNextEndpointForDomain domain obs u (Some p) = (Inl e, p')"
  shows "e = ErrAllProxiesBlocked \<and> (\<forall>i < length (pool_endpoints p). \<not> isAvailable (so_avail (obs i))) \<and>
    (\<exists>q. p' = Some q \<and> pool_endpoints q = pool_endpoints p)"
proof (cases rule: getNext_cases[of p domain obs u])
  case 1
  then have "i = 0" if "i < length (pool_endpoints p)" for i using that by linarith
  moreover have "length (pool_endpoints p) = 1 \<Longrightarrow> \<not> isAvailable (so_avail (obs 0))"
    "e = ErrAllProxiesBlocked" "p' = Some p"
    using 1 assms by (auto split: if_splits)
  moreover have "length (pool_endpoints p) = 0 \<or> length (pool_endpoints p) = 1" using 1 by linarith
  ultimately show ?thesis by auto
next
  case (2 cs tot t)
  then show ?thesis using assms by (auto split: if_splits)
qed

lemma getNext_pool: "\<exists>r p'. getNextEndpointForDomain domain obs u (Some p) = (r, Some p') \<and> pool_endpoints p' = pool_endpoints p"
  using getNext_alive[of domain obs u p] getNext_none[of domain obs u p]
  by (metis old.sum.exhaust surj_pair)

text \<open>C14. Selection returns a position of the pool whose endpoint the scan saw alive; it fails only
  with \<open>ErrAllProxiesBlocked\<close> and only if the scan saw none alive.  This holds for every random
  number, domain, weight and interference.\<close>

theorem selection_sees_alive:
  "case fst (getNextEndpointForDomain domain obs u (Some p)) of
     Inr i \<Rightarrow> i < length (pool_endpoints p) \<and> isAvailable (so_avail (obs i))
   | Inl e \<Rightarrow> e = ErrAllProxiesBlocked \<and>
       (\<forall>i < length (pool_endpoints p). \<not> isAvailable (so_avail (obs i)))"
proof (cases "getNextEndpointForDomain domain obs u (Some p)")
  case (Pair r p')
  then show ?thesis using getNext_alive[of domain obs u p _ p'] getNext_none[of domain obs u p _ p'] by (cases r) auto
qed

text \<open>What a scan leaves for the draw: distinct candidates, bounded weights, and the sum of the weights.\<close>

definition weighed :: "candidate list \<Rightarrow> f64 \<Rightarrow> bool" where
  "weighed cs tot \<longleftrightarrow> distinct (map fst cs) \<and> length cs \<le> 2 ^ 53 \<and> (\<forall>w \<in> set (map snd cs). below 100 w) \<and>
     tot = foldl fadd (FNum 0) (map snd cs)"

lemma scan_weighed:
  assumes "obs_ok n obs" "penalty_ok t" "n \<le> 2 ^ 53" "scan domain obs (positions s n) [] (FNum 0) t = (cs, tot, t')"
  shows "weighed cs tot"
proof -
  have "length cs = length (map fst cs)" by simp
  also have "\<dots> \<le> n" unfolding scan_candidates(1)[OF assms(4)] using length_filter_le[of _ "positions s n"] by simp
  finally show ?thesis
    using assms(3) scan_below(1)[OF assms(4,1,2)] scan_candidates[OF assms(4)] by (simp add: weighed_def)
qed

lemma weighed_reached:
  "weighed cs tot \<Longrightarrow> cs \<noteq> [] \<Longrightarrow> 0 \<le> x \<Longrightarrow> x \<le> 1 \<Longrightarrow> pick (fmul (FNum x) tot) (FNum 0) cs \<noteq> None"
  using pick_reached[of cs] draw_reaches[of "map snd cs" x] by (simp add: weighed_def)

lemma weighed_draw:
  assumes "weighed cs tot" "0 \<le> x" "x \<le> 1" "k < length cs"
  shows "draw (FNum x) cs tot = fst (cs ! k) \<longleftrightarrow>
    (0 < k \<longrightarrow> \<not> fle (fmul (FNum x) tot) (cumulated cs k)) \<and> fle (fmul (FNum x) tot) (cumulated cs (Suc k))"
proof -
  let ?r = "fmul (FNum x) tot"
  have w: "\<forall>w \<in> set (map snd cs). below 100 w" and w': "\<forall>w \<in> snd ` set cs. below 100 w" and d: "distinct (map fst cs)"
    and l: "length cs \<le> 2 ^ 53" and c: "tot = foldl fadd (FNum 0) (map snd cs)"
    using assms(1) by (simp_all add: weighed_def)
  have ne: "cs \<noteq> []" using assms(4) by auto
  have "fle ?r (foldl fadd (FNum 0) (map snd cs))"
    using draw_reaches[OF _ _ assms(2,3)] w l c by simp
  then obtain i where i: "pick ?r (FNum 0) cs = Some i" using pick_reached[OF ne] by auto
  then obtain m where m: "m < length cs" "fst (cs ! m) = i" "fle ?r (cumulated cs (Suc m))"
    "\<forall>j. 0 < j \<and> j \<le> m \<longrightarrow> \<not> fle ?r (cumulated cs j)"
    using pick_Some[OF i] unfolding cumulated_def by blast
  have dr: "draw (FNum x) cs tot = fst (cs ! m)" using i m(2) by (simp add: draw_def)
  have same: "fst (cs ! m) = fst (cs ! k) \<longleftrightarrow> m = k"
    using d m(1) assms(4) by (simp add: distinct_conv_nth) (metis)
  have up: "fle ?r (cumulated cs b)" if h: "fle ?r (cumulated cs a)" "a \<le> b" "b \<le> length cs" for a b
  proof -
    obtain y z where yz: "cumulated cs a = FNum y" "cumulated cs b = FNum z" "y \<le> z"
      using cumulated_mono[OF w' l h(2,3)] cumulated_FNum[OF w' l, of a] cumulated_FNum[OF w' l, of b] by auto
    then show ?thesis using h(1) by (cases ?r) auto
  qed
  have "m = k" if "0 < k \<longrightarrow> \<not> fle ?r (cumulated cs k)" "fle ?r (cumulated cs (Suc k))"
  proof (rule ccontr)
    assume "m \<noteq> k"
    then consider "m < k" | "k < m" by linarith
    then show False
    proof cases
      case 1
      then show False using up[OF m(3), of k] that(1) assms(4) by auto
    next
      case 2
      then show False using m(4) that(2) by auto
    qed
  qed
  then show ?thesis unfolding dr same using m by auto
qed

text \<open>The fallback after the draw (\<open>r\<close> landed past the accumulated total) is unreachable: with
  sane statistics, a penalty in \<open>(0, 1]\<close> and \<open>rand.Float64()\<close> in \<open>[0, 1]\<close>, rounding included, some
  candidate's cumulative weight reaches \<open>r\<close>.\<close>

lemma draw_never_falls_back:
  assumes "obs_ok n obs" and "penalty_ok t" and "n \<le> 2 ^ 53" and "0 \<le> x" and "x \<le> 1"
    and "scan domain obs (positions s n) [] (FNum 0) t = (cs, tot, t')" and "cs \<noteq> []"
  shows "pick (fmul (FNum x) tot) (FNum 0) cs \<noteq> None"
  by (rule weighed_reached[OF scan_weighed[OF assms(1-3,6)] assms(7,4,5)])

text \<open>The draw is the weighted one: candidate \<open>k\<close> is selected exactly when \<open>u\<close> times the total
  lies above the sum of the weights before it (for the first one: anywhere below) and at most at
  the sum including it, so that its share of the unit interval is its share of the total weight.\<close>

lemma draw_is_weighted:
  assumes "obs_ok n obs" and "penalty_ok t" and "n \<le> 2 ^ 53" and "0 \<le> x" and "x \<le> 1"
    and "scan domain obs (positions s n) [] (FNum 0) t = (cs, tot, t')" and "k < length cs"
  shows "draw (FNum x) cs tot = fst (cs ! k) \<longleftrightarrow>
    (0 < k \<longrightarrow> \<not> fle (fmul (FNum x) tot) (cumulated cs k)) \<and> fle (fmul (FNum x) tot) (cumulated cs (Suc k))"
  by (rule weighed_draw[OF scan_weighed[OF assms(1-3,6)] assms(4,5,7)])

text \<open>A pool whose alive endpoints all have weight \<open>w\<close>, scanned without a domain.\<close>

lemma scan_equal_weights:
  assumes "\<forall>i \<in> set is. isAvailable (so_avail (obs i)) \<and> base_weight (so_weight (obs i)) = w"
  shows "\<exists>tot' t'. scan [] obs is cs tot t = (cs @ map (\<lambda>i. (i, w)) is, tot', t')"
  using assms
proof (induction "is" arbitrary: cs tot t)
  case (Cons i "is")
  then obtain tot' t' where "scan [] obs is (cs @ [(i, w)]) (fadd tot w) (so_others (obs i) t) =
      ((cs @ [(i, w)]) @ map (\<lambda>i. (i, w)) is, tot', t')" by (meson list.set_intros(2))
  with Cons.prems show ?case by (simp add: scan_weight_def)
qed simp


text \<open>C27. A block lowers the endpoint's weight for that domain to the penalty times its weight, never
  above what it was without the block, and leaves its weight for every other domain alone.\<close>

theorem block_lowers_weight:
  assumes "sane_stats (so_weight ob)" and "penalty_ok t" and "so_others ob = (\<lambda>t. t)"
    and "d \<noteq> []" and "\<not> ttl_outlived t (so_now ob - now)"
  defines "t' \<equiv> RecordBlock now (ep_index (so_avail ob)) d t"
  shows "fst (scan_weight d ob t') = fmul (base_weight (so_weight ob)) (effective_penalty t) \<and>
    fle (fst (scan_weight d ob t')) (fst (scan_weight d ob t)) \<and>
    (\<forall>d'. d' \<noteq> d \<longrightarrow> fst (scan_weight d' ob t') = fst (scan_weight d' ob t))"
proof -
  obtain q where q: "base_weight (so_weight ob) = FNum q" "0 < q" using base_weight_below[OF assms(1)] by blast
  obtain p where p: "effective_penalty t = FNum p" "0 < p" "p \<le> 1" using assms(2) by (auto simp: penalty_ok_def)
  have w: "fst (scan_weight d' ob s) = (if d' = [] then base_weight (so_weight ob)
      else fmul (base_weight (so_weight ob)) (fst (PenaltyFor (so_now ob) (ep_index (so_avail ob)) d' s)))" for d' s
    using assms(3) by (simp add: scan_weight_def Let_def split_beta)
  have blocked: "fst (PenaltyFor (so_now ob) (ep_index (so_avail ob)) d t') = effective_penalty t"
    unfolding t'_def by (rule tracker.fresh_block[OF assms(4,5)])
  have le: "q * p \<le> q" using p q by simp
  have lower: "fle (fmul (FNum q) (FNum p)) (fmul (FNum q) v)" if "v = FNum 1 \<or> v = FNum p" for v
    using that le by (auto intro: fle_rnd)
  have old: "fst (PenaltyFor (so_now ob) (ep_index (so_avail ob)) d t) = FNum 1 \<or>
      fst (PenaltyFor (so_now ob) (ep_index (so_avail ob)) d t) = FNum p"
    using tracker.read_values[of "so_now ob" "ep_index (so_avail ob)" d t] p by simp
  have "fst (scan_weight d' ob t') = fst (scan_weight d' ob t)" if "d' \<noteq> d" for d'
    using tracker.other_key[of "ep_index (so_avail ob)" d' "ep_index (so_avail ob)" d "so_now ob" now t] that
    by (simp add: w t'_def)
  moreover have "fle (fst (scan_weight d ob t')) (fst (scan_weight d ob t))"
    using lower[OF old] assms(4) blocked p q by (simp add: w)
  ultimately show ?thesis using blocked assms(4) by (simp add: w)
qed

section \<open>Witnesses\<close>

text \<open>A pool of two fresh endpoints.\<close>

definition duo_endpoints :: "endpoint list" where
  "duo_endpoints = [sample_endpoint\<lparr>ep_index := 1\<rparr>, sample_endpoint\<lparr>ep_index := 2\<rparr>]"

definition duo :: "PoolConfig \<Rightarrow> Pool" where
  "duo cfg = blank_pool cfg DefaultRetryConfig duo_endpoints"

lemma duo_fields [simp]:
  "pool_endpoints (duo cfg) = duo_endpoints" "pool_currentIndex (duo cfg) = 0"
  "pool_domains (duo cfg) = NewTracker (pc_DomainBlockTTL cfg) (pc_DomainBlockPenalty cfg)"
  "length duo_endpoints = 2"
  by (simp_all add: duo_def blank_pool_def duo_endpoints_def)

lemma duo_nth:
  assumes "i < 2"
  shows "isAvailable (duo_endpoints ! i)" "sane_stats (duo_endpoints ! i)"
    "base_weight (duo_endpoints ! i) = FNum 1" "ep_index (duo_endpoints ! i) = word_of_nat (Suc i)"
proof -
  from assms have "i = 0 \<or> i = 1" by auto
  then show "isAvailable (duo_endpoints ! i)" "sane_stats (duo_endpoints ! i)"
    "base_weight (duo_endpoints ! i) = FNum 1" "ep_index (duo_endpoints ! i) = word_of_nat (Suc i)"
    by (auto simp: duo_endpoints_def sample_endpoint_eq blank_endpoint_def isAvailable_def sane_stats_def
        base_weight_def weight_def Let_def)
qed

lemma duo_obs:
  assumes "i < 2"
  shows "isAvailable (so_avail (quiet now (duo cfg) i))" "base_weight (so_weight (quiet now (duo cfg) i)) = FNum 1"
    "ep_index (so_avail (quiet now (duo cfg) i)) = word_of_nat (Suc i)"
    "so_others (quiet now (duo cfg) i) = (\<lambda>t. t)" "so_now (quiet now (duo cfg) i) = now"
    "sane_stats (so_weight (quiet now (duo cfg) i))"
  using duo_nth[OF assms] by (simp_all add: quiet_def)

lemma duo_obs_ok: "obs_ok 2 (quiet now (duo cfg))"
  by (simp add: obs_ok_def duo_obs)

lemma small_sums [simp]: "rnd 1 = FNum 1" "rnd 2 = FNum 2"
  using f_of_int_exact[of 1] f_of_int_exact[of 2] by (simp_all add: f_of_int_def)

lemma duo_positions: "positions (Suc 0) 2 = [1, 0]" "start_index 1 2 = Suc 0"
  by (simp_all add: positions_def start_index_eq upt_rec)

lemma duo_scan:
  "scan [] (quiet now (duo cfg)) (positions 1 2) [] (FNum 0) t = ([(1, FNum 1), (0, FNum 1)], FNum 2, t)"
  by (simp add: duo_positions duo_obs scan_weight_def Let_def)

theorem selection_sees_alive_witness:
  "case fst (getNextEndpointForDomain [] (quiet 0 (duo sample_config)) (FNum (1/2)) (Some (duo sample_config))) of
     Inr i \<Rightarrow> i < 2 | Inl e \<Rightarrow> False"
  using selection_sees_alive[where domain = "[]" and obs = "quiet 0 (duo sample_config)" and u = "FNum (1/2)" and
      p = "duo sample_config"] duo_obs(1)[of 0]
  by (auto split: sum.splits dest!: spec[where x = 0])

lemma duo_penalty_ok: "penalty_ok (pool_domains (duo sample_config))"
  by (simp add: sample_config_def NewTracker_penalty_ok)


theorem block_lowers_weight_witness:
  "fle (fst (scan_weight ''d'' (quiet 1 (duo sample_config) 0) (RecordBlock 0 1 ''d'' (pool_domains (duo sample_config)))))
       (fst (scan_weight ''d'' (quiet 1 (duo sample_config) 0) (pool_domains (duo sample_config))))"
proof -
  have "\<not> ttl_outlived (pool_domains (duo sample_config)) 1"
    by (simp add: ttl_outlived_def effective_ttl_def NewTracker_def sample_config_def DefaultBlockTTL_def Minute_def)
  then have n: "\<not> ttl_outlived (pool_domains (duo sample_config)) (so_now (quiet 1 (duo sample_config) 0) - 0)"
    using duo_obs(5)[of 0 1 sample_config] by simp
  have o: "so_others (quiet 1 (duo sample_config) 0) = (\<lambda>t. t)" "sane_stats (so_weight (quiet 1 (duo sample_config) 0))"
    "ep_index (so_avail (quiet 1 (duo sample_config) 0)) = 1"
    using duo_obs[of 0 1 sample_config] by simp_all
  have "''d'' \<noteq> []" by simp
  from block_lowers_weight[OF o(2) duo_penalty_ok o(1) this n, THEN conjunct2, THEN conjunct1]
  show ?thesis by (simp only: o(3))
qed

definition nan_config :: PoolConfig where
  "nan_config = sample_config\<lparr>pc_DomainBlockPenalty := FNaN\<rparr>"


end
