(* ===== verification/Transport.thy ===== *)
theory Transport
  imports Go_Errors "HOL-Library.AList"
begin

text \<open>
  \<open>transport.go\<close>, \<open>transport_http.go\<close> and \<open>transport_azuretls.go\<close>: the transport-neutral request
  and response, and the two adapters that build the library's request from them and its response
  from the library's.  The transports themselves (\<open>http.Client.Do\<close>, \<open>azuretls.Session.Do\<close>,
  \<open>SetProxy\<close>) and \<open>json.Marshal\<close> are arguments.  A Go \<open>map\<close> of headers is an association list.
\<close>

section \<open>Requests and responses\<close>

type_synonym OrderedHeaders = "string list list"

text \<open>The dynamic type of \<open>Request.Body\<close> (an \<open>any\<close>), as far as the adapters distinguish it.\<close>

datatype 'v body = NilBody | ReaderBody 'v | BytesBody string | StringBody string | OtherBody 'v

record 'v Request =
  rq_Method :: string
  rq_URL :: string
  rq_Body :: "'v body"
  rq_Headers :: OrderedHeaders

type_synonym header = "(string \<times> string list) list"

record Response =
  resp_StatusCode :: int64
  resp_Status :: string
  resp_Body :: string
  resp_Header :: header

text \<open>What a Go function with results \<open>(*Response, error)\<close> returns.\<close>

type_synonym outcome = "Response option \<times> gerr option"

section \<open>\<open>http.Header\<close>\<close>

text \<open>
  \<open>textproto.CanonicalMIMEHeaderKey\<close>: capitals at the start and after each hyphen, provided every
  byte is a token byte (\<open>validHeaderFieldByte\<close>).
\<close>

definition upper_char :: "char \<Rightarrow> char" where
  "upper_char c = (if 97 \<le> (of_char c :: nat) \<and> (of_char c :: nat) \<le> 122
                   then char_of ((of_char c :: nat) - 32) else c)"

definition token_char :: "char \<Rightarrow> bool" where
  "token_char c \<longleftrightarrow>
     (let n = (of_char c :: nat) in
      48 \<le> n \<and> n \<le> 57 \<or> 65 \<le> n \<and> n \<le> 90 \<or> 97 \<le> n \<and> n \<le> 122 \<or> c \<in> set ''!#$%&*+-.^_`|~'' \<or> n = 39)"

fun canonical_from :: "bool \<Rightarrow> string \<Rightarrow> string" where
  "canonical_from upper [] = []"
| "canonical_from upper (c # s) =
     (if upper then upper_char c else lower_char c) # canonical_from (c = CHR ''-'') s"

definition canonical_key :: "string \<Rightarrow> string" where
  "canonical_key s = (if list_all token_char s then canonical_from True s else s)"

definition header_values :: "string \<Rightarrow> header \<Rightarrow> string list" where
  "header_values key h = (case map_of h key of None \<Rightarrow> [] | Some vs \<Rightarrow> vs)"

definition header_add :: "string \<Rightarrow> string \<Rightarrow> header \<Rightarrow> header" where
  "header_add key v h =
     AList.update (canonical_key key) (header_values (canonical_key key) h @ [v]) h"

definition header_get :: "string \<Rightarrow> header \<Rightarrow> string" where
  "header_get key h = (case header_values (canonical_key key) h of [] \<Rightarrow> [] | v # vs \<Rightarrow> v)"

definition header_set :: "string \<Rightarrow> string \<Rightarrow> header \<Rightarrow> header" where
  "header_set key v h = AList.update (canonical_key key) [v] h"

section \<open>The net/http adapter\<close>

text \<open>\<open>httpRequestBody\<close>: what is sent, and whether it is JSON the adapter encoded itself.\<close>

datatype 'v reader = NoReader | GivenReader 'v | BytesReader string

definition httpRequestBody :: "('v \<Rightarrow> gerr + string) \<Rightarrow> 'v body \<Rightarrow> gerr + ('v reader \<times> bool)" where
  "httpRequestBody json_marshal b =
     (case b of
        NilBody \<Rightarrow> Inr (NoReader, False)
      | ReaderBody r \<Rightarrow> Inr (GivenReader r, False)
      | BytesBody s \<Rightarrow> Inr (BytesReader s, False)
      | StringBody s \<Rightarrow> Inr (BytesReader s, False)
      | OtherBody v \<Rightarrow>
          (case json_marshal v of
             Inl err \<Rightarrow> Inl (ErrWrap ''encoding net/http request body as JSON: '' err [])
           | Inr encoded \<Rightarrow> Inr (BytesReader encoded, True)))"

fun add_values :: "string \<Rightarrow> string list \<Rightarrow> header \<Rightarrow> header" where
  "add_values key [] h = h"
| "add_values key (v # vs) h = add_values key vs (header_add key v h)"

fun add_rows :: "OrderedHeaders \<Rightarrow> header \<Rightarrow> header" where
  "add_rows [] h = h"
| "add_rows (row # rows) h =
     add_rows rows (if length row < 2 then h else add_values (hd row) (tl row) h)"

definition default_content_type :: "bool \<Rightarrow> header \<Rightarrow> header" where
  "default_content_type jsonBody h =
     (if jsonBody \<and> header_get ''Content-Type'' h = [] then header_set ''Content-Type'' ''application/json'' h
      else h)"

record 'v http_request =
  hr_Method :: string
  hr_URL :: string
  hr_Header :: header
  hr_Body :: "'v reader"

record http_response =
  hp_StatusCode :: int64
  hp_Status :: string
  hp_Header :: header
  hp_Read :: "gerr + string"
  hp_Close :: "gerr option"

text \<open>
  \<open>httpSession.Do\<close>; \<open>new_request\<close> is the error of \<open>http.NewRequestWithContext\<close>, if any, and
  \<open>http_do\<close> is \<open>client.Do\<close>.
\<close>

definition http_response_of :: "http_response \<Rightarrow> outcome" where
  "http_response_of r =
     (case hp_Read r of
        Inl readErr \<Rightarrow> (None, Some (ErrWrap ''reading HTTP response: '' readErr []))
      | Inr responseBody \<Rightarrow>
          (case hp_Close r of
             Some closeErr \<Rightarrow> (None, Some (ErrWrap ''closing HTTP response: '' closeErr []))
           | None \<Rightarrow>
               (Some \<lparr> resp_StatusCode = hp_StatusCode r, resp_Status = hp_Status r,
                       resp_Body = responseBody, resp_Header = hp_Header r \<rparr>, None)))"

definition http_request_of :: "'v Request \<Rightarrow> 'v reader \<Rightarrow> bool \<Rightarrow> 'v http_request" where
  "http_request_of req body jsonBody =
     \<lparr> hr_Method = (if rq_Method req = [] then ''GET'' else rq_Method req), hr_URL = rq_URL req,
       hr_Header = default_content_type jsonBody (add_rows (rq_Headers req) []), hr_Body = body \<rparr>"

definition http_Do ::
  "('v \<Rightarrow> gerr + string) \<Rightarrow> (string \<Rightarrow> string \<Rightarrow> gerr option) \<Rightarrow> ('v http_request \<Rightarrow> gerr + http_response) \<Rightarrow>
   'v Request \<Rightarrow> outcome" where
  "http_Do json_marshal new_request http_do req =
     (case httpRequestBody json_marshal (rq_Body req) of
        Inl err \<Rightarrow> (None, Some err)
      | Inr (body, jsonBody) \<Rightarrow>
          (case new_request (rq_Method req) (rq_URL req) of
             Some err \<Rightarrow> (None, Some (ErrWrap ''creating HTTP request: '' err []))
           | None \<Rightarrow>
               (case http_do (http_request_of req body jsonBody) of
                  Inl err \<Rightarrow> (None, Some err)
                | Inr r \<Rightarrow> http_response_of r)))"

text \<open>\<open>HTTPFactory.New\<close>: which proxy URLs get a session.\<close>

definition HTTPFactory_New :: "(string \<Rightarrow> string) \<Rightarrow> (string \<Rightarrow> gerr + url) \<Rightarrow> string \<Rightarrow> gerr + url" where
  "HTTPFactory_New q parse proxyURL =
     (case parse proxyURL of
        Inl err \<Rightarrow> Inl (ErrWrap ''parsing proxy URL: '' err [])
      | Inr parsed \<Rightarrow>
          if url_Scheme parsed \<noteq> ''http'' \<and> url_Scheme parsed \<noteq> ''https'' then
            Inl (ErrText (''unsupported net/http proxy scheme '' @ go_quote q (url_Scheme parsed)))
          else Inr parsed)"

section \<open>The Azure TLS adapter\<close>

text \<open>\<open>azureTLSSession.Do\<close>: \<open>azure_do\<close> is the library's \<open>Do\<close> on method, URL, body and header rows.\<close>

definition azure_Do ::
  "(string \<Rightarrow> string \<Rightarrow> 'v body \<Rightarrow> OrderedHeaders \<Rightarrow> outcome) \<Rightarrow> 'v Request \<Rightarrow> outcome" where
  "azure_Do azure_do req =
     (case azure_do (rq_Method req) (rq_URL req) (rq_Body req) (map (\<lambda>header. header) (rq_Headers req)) of
        (None, err) \<Rightarrow> (None, err)
      | (Some resp, err) \<Rightarrow>
          (Some \<lparr> resp_StatusCode = resp_StatusCode resp, resp_Status = resp_Status resp,
                  resp_Body = resp_Body resp,
                  resp_Header = map (\<lambda>(key, values). (key, values)) (resp_Header resp) \<rparr>, err))"

section \<open>The calls on the library's sessions\<close>

text \<open>
  An adapter session is a handle on an object of its library, which is known by the calls made on it.
  \<open>azureTLSSessionFactory.New\<close> configures the object and closes it when the proxy is refused; \<open>Do\<close> sets
  the context of the caller before it sends; \<open>Close\<close> closes the object.
\<close>

datatype ('c, 'v) azure_call =
    SetBrowserChrome | SetProxy string | SetContext 'c | SendRequest string string "'v body" OrderedHeaders | CloseSession

definition azure_session_New :: "(string \<Rightarrow> gerr option) \<Rightarrow> string \<Rightarrow> gerr option \<times> ('c, 'v) azure_call list" where
  "azure_session_New set_proxy proxyURL =
     (let calls = [SetBrowserChrome, SetProxy proxyURL] in
      case set_proxy proxyURL of
        Some err \<Rightarrow> (Some err, calls @ [CloseSession])
      | None \<Rightarrow> (None, calls))"

definition azure_session_Do ::
  "(string \<Rightarrow> string \<Rightarrow> 'v body \<Rightarrow> OrderedHeaders \<Rightarrow> outcome) \<Rightarrow> 'c \<Rightarrow> 'v Request \<Rightarrow> ('c, 'v) azure_call list \<Rightarrow>
   outcome \<times> ('c, 'v) azure_call list" where
  "azure_session_Do azure_do ctx req calls =
     (let calls = calls @ [SetContext ctx];
          ordered = map (\<lambda>header. header) (rq_Headers req);
          calls = calls @ [SendRequest (rq_Method req) (rq_URL req) (rq_Body req) ordered]
      in (azure_Do azure_do req, calls))"

definition azure_session_Close :: "('c, 'v) azure_call list \<Rightarrow> ('c, 'v) azure_call list" where
  "azure_session_Close calls = calls @ [CloseSession]"

text \<open>The transport of a net/http session: the requests sent on it, and \<open>CloseIdleConnections\<close>.\<close>

datatype 'v http_call = SendHTTP "'v http_request" | CloseIdleConnections

definition http_session_Do ::
  "('v \<Rightarrow> gerr + string) \<Rightarrow> (string \<Rightarrow> string \<Rightarrow> gerr option) \<Rightarrow> ('v http_request \<Rightarrow> gerr + http_response) \<Rightarrow>
   'v Request \<Rightarrow> 'v http_call list \<Rightarrow> outcome \<times> 'v http_call list" where
  "http_session_Do json_marshal new_request http_do req calls =
     (http_Do json_marshal new_request http_do req,
      case httpRequestBody json_marshal (rq_Body req) of
        Inl err \<Rightarrow> calls
      | Inr (body, jsonBody) \<Rightarrow>
          if new_request (rq_Method req) (rq_URL req) = None then calls @ [SendHTTP (http_request_of req body jsonBody)]
          else calls)"

definition http_session_Close :: "'v http_call list \<Rightarrow> 'v http_call list" where
  "http_session_Close calls = calls @ [CloseIdleConnections]"

section \<open>Lemmas\<close>

lemma header_values_update:
  "header_values k (AList.update k' vs h) = (if k = k' then vs else header_values k h)"
  by (simp add: header_values_def update_conv')

lemma header_values_add_values:
  "header_values k (add_values key vs h) =
     header_values k h @ (if k = canonical_key key then vs else [])"
  by (induction key vs h rule: add_values.induct) (auto simp: header_add_def header_values_update)

lemma header_values_add_rows:
  "header_values k (add_rows rows h) =
     header_values k h @
       concat (map tl (filter (\<lambda>row. 2 \<le> length row \<and> canonical_key (hd row) = k) rows))"
  by (induction rows h rule: add_rows.induct) (auto simp: header_values_add_values)

lemma canonical_content_type: "canonical_key ''Content-Type'' = ''Content-Type''"
  by (simp add: canonical_key_def token_char_def upper_char_def lower_char_def)

lemma header_values_default_content_type:
  "header_values k (default_content_type json h) =
     (if json \<and> k = ''Content-Type'' \<and> (header_values k h = [] \<or> hd (header_values k h) = [])
      then [''application/json''] else header_values k h)"
  by (auto simp: default_content_type_def header_set_def header_get_def canonical_content_type
      header_values_update split: list.splits)

section \<open>Properties\<close>

text \<open>C30. The net/http adapter sends every header row of the request, values in order and rows of
  the same (canonical) name merged in order, drops rows without a value, and sends
  \<open>application/json\<close> exactly when it encoded the body itself and no content type was given (an
  empty first value counts as not given and is replaced).\<close>

theorem http_request_headers:
  assumes "http_Do json_marshal new_request http_do req = (Some resp, err)"
  shows "\<exists>b json r. httpRequestBody json_marshal (rq_Body req) = Inr (b, json) \<and>
    http_do (http_request_of req b json) = Inr r \<and>
    err = None \<and> resp_StatusCode resp = hp_StatusCode r \<and> hp_Read r = Inr (resp_Body resp) \<and>
    header_values k (hr_Header (http_request_of req b json)) =
      (let given = concat (map tl (filter (\<lambda>row. 2 \<le> length row \<and> canonical_key (hd row) = k) (rq_Headers req)))
       in if json \<and> k = ''Content-Type'' \<and> (given = [] \<or> hd given = []) then [''application/json''] else given)"
proof -
  obtain b json r where r: "httpRequestBody json_marshal (rq_Body req) = Inr (b, json)"
    "http_do (http_request_of req b json) = Inr r" "http_response_of r = (Some resp, err)"
    using assms by (auto simp: http_Do_def split: sum.splits prod.splits option.splits)
  have "hp_Read r = Inr (resp_Body resp) \<and> resp_StatusCode resp = hp_StatusCode r \<and> err = None"
    using r(3) by (auto simp: http_response_of_def split: sum.splits option.splits)
  with r show ?thesis
    by (intro exI[of _ b] exI[of _ json] exI[of _ r])
       (auto simp: http_request_of_def header_values_default_content_type header_values_add_rows Let_def
         header_values_def[of _ "[]"])
qed

definition echo_http :: "'v http_request \<Rightarrow> gerr + http_response" where
  "echo_http hr = Inr \<lparr> hp_StatusCode = 200, hp_Status = ''200 OK'', hp_Header = hr_Header hr,
     hp_Read = Inr ''ok'', hp_Close = None \<rparr>"

definition json_request :: "nat Request" where
  "json_request = \<lparr> rq_Method = ''POST'', rq_URL = ''http://h/'', rq_Body = OtherBody 7,
     rq_Headers = [[''x-a'', ''1'', ''2''], [''lonely''], [''X-A'', ''3'']] \<rparr>"

lemma json_request_runs:
  "\<exists>resp. http_Do (\<lambda>v. Inr ''7'') (\<lambda>_ _. None) echo_http json_request = (Some resp, None)"
  by (simp add: http_Do_def json_request_def httpRequestBody_def echo_http_def http_response_of_def)

theorem http_request_headers_witness:
  "header_values ''X-A'' (hr_Header (http_request_of json_request (BytesReader ''7'') True)) = [''1'', ''2'', ''3'']"
proof -
  obtain resp where d: "http_Do (\<lambda>v. Inr ''7'') (\<lambda>_ _. None) echo_http json_request = (Some resp, None)"
    using json_request_runs by blast
  have c: "canonical_key ''x-a'' = ''X-A''" "canonical_key ''X-A'' = ''X-A''"
    by code_simp+
  from http_request_headers[OF d, of "''X-A''"] show ?thesis
    by (auto simp: httpRequestBody_def c json_request_def)
qed

end
