(* ===== verification/Detector.thy ===== *)
theory Detector
  imports Transport
begin

text \<open>
  \<open>detector.go\<close>: which responses and transport errors count as blocked.  A compiled regular
  expression is represented by its source.  The expressions of the package (\<open>(?i)\<close>, then ASCII
  bytes and dots) are matched here on ASCII bodies; what \<open>regexp\<close> does with any other expression
  or body is the argument \<open>rx\<close>.  A nil slice is \<open>None\<close>.
\<close>

section \<open>Regular expressions\<close>

record regexp_env =
  rx_compile :: "string \<Rightarrow> gerr option"
  rx_match :: "string \<Rightarrow> string \<Rightarrow> bool"

datatype atom = AnyByte | Lit char

text \<open>Bytes that stand for themselves in Go's syntax.\<close>

definition literal_char :: "char \<Rightarrow> bool" where
  "literal_char c \<longleftrightarrow> is_ascii c \<and> c \<notin> set ''()[]{}*+?|^$'' \<and> c \<noteq> CHR 0x5C"

definition simple_atoms :: "string \<Rightarrow> atom list option" where
  "simple_atoms p =
     (if has_prefix p ''(?i)'' \<and> list_all literal_char (drop 4 p)
      then Some (map (\<lambda>c. if c = CHR ''.'' then AnyByte else Lit c) (drop 4 p)) else None)"

fun atom_matches :: "atom \<Rightarrow> char \<Rightarrow> bool" where
  "atom_matches AnyByte c = (c \<noteq> CHR 0x0A)"
| "atom_matches (Lit l) c = (lower_char l = lower_char c)"

fun atoms_prefix :: "atom list \<Rightarrow> string \<Rightarrow> bool" where
  "atoms_prefix [] s = True"
| "atoms_prefix (a # as) [] = False"
| "atoms_prefix (a # as) (c # s) = (atom_matches a c \<and> atoms_prefix as s)"

fun atoms_in :: "atom list \<Rightarrow> string \<Rightarrow> bool" where
  "atoms_in as [] = atoms_prefix as []"
| "atoms_in as (c # s) = (atoms_prefix as (c # s) \<or> atoms_in as s)"

definition regexp_Compile :: "regexp_env \<Rightarrow> string \<Rightarrow> gerr option" where
  "regexp_Compile rx p = (case simple_atoms p of Some as \<Rightarrow> None | None \<Rightarrow> rx_compile rx p)"

definition re_MatchString :: "regexp_env \<Rightarrow> string \<Rightarrow> string \<Rightarrow> bool" where
  "re_MatchString rx p s =
     (case simple_atoms p of
        Some as \<Rightarrow> if list_all is_ascii s then atoms_in as s else rx_match rx p s
      | None \<Rightarrow> rx_match rx p s)"

section \<open>The detector\<close>

definition DefaultBlockedStatusCodes :: "int64 list" where
  "DefaultBlockedStatusCodes = [401, 403, 407, 429, 503]"

definition DefaultBodyPatterns :: "string list" where
  "DefaultBodyPatterns =
     [''(?i)cloudflare'', ''(?i)captcha'', ''(?i)access.denied'', ''(?i)forbidden'', ''(?i)rate.limit'',
      ''(?i)too.many.requests'', ''(?i)please.verify'', ''(?i)security.check'', ''(?i)bot.detection'',
      ''(?i)suspicious.activity'', ''(?i)cf-ray'', ''(?i)__cf_chl'', ''(?i)hcaptcha'', ''(?i)recaptcha'',
      ''(?i)turnstile'', ''(?i)just.a.moment'', ''(?i)checking.your.browser'', ''(?i)ddos.protection'',
      ''(?i)attention.required'']"

definition DefaultErrorPatterns :: "string list" where
  "DefaultErrorPatterns =
     [''403'', ''forbidden'', ''blocked'', ''captcha'', ''challenge'', ''rate limit'', ''too many requests'']"

record DetectorConfig =
  dc_StatusCodes :: "int64 list option"
  dc_BodyPatterns :: "string list option"
  dc_ErrorPatterns :: "string list option"
  dc_DisableCloudflareHeaderCheck :: bool

record BlockDetector =
  bd_statusCodes :: "int64 \<Rightarrow> bool"
  bd_bodyPatterns :: "string list"
  bd_errorPatterns :: "string list"
  bd_checkCFHeaders :: bool

fun compile_all :: "(string \<Rightarrow> string) \<Rightarrow> regexp_env \<Rightarrow> string list \<Rightarrow> gerr + string list" where
  "compile_all q rx [] = Inr []"
| "compile_all q rx (p # ps) =
     (case regexp_Compile rx p of
        Some err \<Rightarrow>
          Inl (ErrWrap (''proxator: compiling body pattern '' @ go_quote q p @ '': '') err [])
      | None \<Rightarrow> (case compile_all q rx ps of Inl err \<Rightarrow> Inl err | Inr compiled \<Rightarrow> Inr (p # compiled)))"

fun code_set :: "int64 list \<Rightarrow> (int64 \<Rightarrow> bool) \<Rightarrow> int64 \<Rightarrow> bool" where
  "code_set [] m = m"
| "code_set (code # codes) m = code_set codes (m(code := True))"

definition NewBlockDetectorWith ::
  "(string \<Rightarrow> string) \<Rightarrow> regexp_env \<Rightarrow> (string \<Rightarrow> string) \<Rightarrow> DetectorConfig \<Rightarrow> gerr + BlockDetector" where
  "NewBlockDetectorWith q rx uni cfg =
     (let statusCodes = (case dc_StatusCodes cfg of None \<Rightarrow> DefaultBlockedStatusCodes | Some cs \<Rightarrow> cs);
          bodyPatterns = (case dc_BodyPatterns cfg of None \<Rightarrow> DefaultBodyPatterns | Some ps \<Rightarrow> ps);
          errorPatterns = (case dc_ErrorPatterns cfg of None \<Rightarrow> DefaultErrorPatterns | Some ps \<Rightarrow> ps)
      in case compile_all q rx bodyPatterns of
           Inl err \<Rightarrow> Inl err
         | Inr compiled \<Rightarrow>
             Inr \<lparr> bd_statusCodes = code_set statusCodes (\<lambda>_. False), bd_bodyPatterns = compiled,
                   bd_errorPatterns = map (to_lower uni) errorPatterns,
                   bd_checkCFHeaders = (\<not> dc_DisableCloudflareHeaderCheck cfg) \<rparr>)"

definition empty_detector_config :: DetectorConfig where
  "empty_detector_config =
     \<lparr> dc_StatusCodes = None, dc_BodyPatterns = None, dc_ErrorPatterns = None,
       dc_DisableCloudflareHeaderCheck = False \<rparr>"

definition NewBlockDetector :: "(string \<Rightarrow> string) \<Rightarrow> regexp_env \<Rightarrow> (string \<Rightarrow> string) \<Rightarrow> BlockDetector run" where
  "NewBlockDetector q rx uni =
     (case NewBlockDetectorWith q rx uni empty_detector_config of Inl err \<Rightarrow> Panic | Inr d \<Rightarrow> Done d)"

definition isCloudflareHeader :: "(string \<Rightarrow> string) \<Rightarrow> string \<Rightarrow> bool" where
  "isCloudflareHeader uni key =
     (let k = to_lower uni key in
      if has_prefix k ''x-amz-cf-'' then False else has_prefix k ''cf-'' \<or> contains k ''cloudflare'')"

definition IsBlocked :: "regexp_env \<Rightarrow> (string \<Rightarrow> string) \<Rightarrow> BlockDetector option \<Rightarrow> Response option \<Rightarrow> bool" where
  "IsBlocked rx uni d resp =
     (case (d, resp) of
        (Some d, Some resp) \<Rightarrow>
          let code = sint (resp_StatusCode resp) in
          if bd_statusCodes d (resp_StatusCode resp) then True
          else if 200 \<le> code \<and> code < 300 then False
          else if list_ex (\<lambda>re. re_MatchString rx re (resp_Body resp)) (bd_bodyPatterns d) then True
          else bd_checkCFHeaders d \<and> 400 \<le> code \<and>
               list_ex (\<lambda>(key, vs). isCloudflareHeader uni key) (resp_Header resp)
      | _ \<Rightarrow> False)"

definition IsBlockedError ::
  "(string \<Rightarrow> string) \<Rightarrow> (string \<Rightarrow> string) \<Rightarrow> BlockDetector option \<Rightarrow> gerr option \<Rightarrow> bool" where
  "IsBlockedError q uni d err =
     (case (d, err) of
        (Some d, Some err) \<Rightarrow>
          let msg = to_lower uni (error_text q err)
          in list_ex (\<lambda>pattern. contains msg pattern) (bd_errorPatterns d)
      | _ \<Rightarrow> False)"

section \<open>Matching\<close>

lemma atoms_prefix_iff: "atoms_prefix as s \<longleftrightarrow> (\<exists>mid post. s = mid @ post \<and> list_all2 atom_matches as mid)"
proof (induction "as" s rule: atoms_prefix.induct)
  case (3 a "as" c s)
  show ?case
  proof
    assume "atoms_prefix (a # as) (c # s)"
    with 3 obtain mid post where "s = mid @ post" "list_all2 atom_matches as mid" "atom_matches a c" by auto
    then show "\<exists>mid post. c # s = mid @ post \<and> list_all2 atom_matches (a # as) mid"
      by (intro exI[of _ "c # mid"] exI[of _ post]) simp
  next
    assume "\<exists>mid post. c # s = mid @ post \<and> list_all2 atom_matches (a # as) mid"
    then obtain x mid post where "c # s = (x # mid) @ post" "atom_matches a x" "list_all2 atom_matches as mid"
      by (metis list_all2_Cons1)
    then have "atom_matches a c" "atoms_prefix as s" unfolding 3 by auto
    then show "atoms_prefix (a # as) (c # s)" by simp
  qed
qed auto

text \<open>The atoms match consecutive bytes somewhere in the text.\<close>

definition occur_in :: "atom list \<Rightarrow> string \<Rightarrow> bool" where
  "occur_in as s \<longleftrightarrow> (\<exists>pre mid post. s = pre @ mid @ post \<and> list_all2 atom_matches as mid)"

lemma atoms_in_iff: "atoms_in as s \<longleftrightarrow> occur_in as s"
proof (induction s)
  case Nil
  then show ?case by (auto simp: atoms_prefix_iff occur_in_def)
next
  case (Cons c s)
  have "occur_in as (c # s) \<longleftrightarrow> atoms_prefix as (c # s) \<or> occur_in as s"
  proof (intro iffI; (elim disjE)?)
    assume "occur_in as (c # s)"
    then obtain pre mid post where m: "c # s = pre @ mid @ post" "list_all2 atom_matches as mid"
      unfolding occur_in_def by blast
    then show "atoms_prefix as (c # s) \<or> occur_in as s"
      unfolding occur_in_def atoms_prefix_iff by (cases pre) auto
  next
    assume "atoms_prefix as (c # s)"
    then obtain mid post where "c # s = [] @ mid @ post" "list_all2 atom_matches as mid"
      unfolding atoms_prefix_iff by auto
    then show "occur_in as (c # s)" unfolding occur_in_def by blast
  next
    assume "occur_in as s"
    then obtain pre mid post where "c # s = (c # pre) @ mid @ post" "list_all2 atom_matches as mid"
      unfolding occur_in_def by auto
    then show "occur_in as (c # s)" unfolding occur_in_def by blast
  qed
  with Cons show ?case by simp
qed

text \<open>The atoms of a pattern of the fragment.\<close>

definition atoms_of :: "string \<Rightarrow> atom list" where
  "atoms_of p = (case simple_atoms p of None \<Rightarrow> [] | Some as \<Rightarrow> as)"

lemma default_patterns_simple: "list_all (\<lambda>p. simple_atoms p \<noteq> None) DefaultBodyPatterns"
  by code_simp

lemma default_patterns_match:
  assumes "p \<in> set DefaultBodyPatterns" "list_all is_ascii s"
  shows "re_MatchString rx p s \<longleftrightarrow> occur_in (atoms_of p) s"
  using assms default_patterns_simple
  by (auto simp: list_all_iff re_MatchString_def atoms_of_def atoms_in_iff)

lemma compile_all_simple:
  "list_all (\<lambda>p. simple_atoms p \<noteq> None) ps \<Longrightarrow> compile_all q rx ps = Inr ps"
  by (induction ps) (auto simp: regexp_Compile_def)

lemma code_set_iff: "code_set codes m c \<longleftrightarrow> m c \<or> c \<in> set codes"
  by (induction codes arbitrary: m) auto

definition default_detector :: "(string \<Rightarrow> string) \<Rightarrow> BlockDetector" where
  "default_detector uni =
     \<lparr> bd_statusCodes = code_set DefaultBlockedStatusCodes (\<lambda>_. False), bd_bodyPatterns = DefaultBodyPatterns,
       bd_errorPatterns = map (to_lower uni) DefaultErrorPatterns, bd_checkCFHeaders = True \<rparr>"

lemma default_detector_built:
  "NewBlockDetectorWith q rx uni empty_detector_config = Inr (default_detector uni)"
  by (simp add: NewBlockDetectorWith_def empty_detector_config_def default_detector_def
      compile_all_simple[OF default_patterns_simple])

lemma default_codes: "bd_statusCodes (default_detector uni) c \<longleftrightarrow> sint c \<in> {401, 403, 407, 429, 503}"
proof -
  have eq: "c = word_of_int k \<longleftrightarrow> sint c = k" if "min_int64 \<le> k" "k \<le> max_int64" for k
    using sint_word_of_int64[OF that] by (metis signed_word_eqI)
  show ?thesis
    using eq[of 401] eq[of 403] eq[of 407] eq[of 429] eq[of 503]
    by (auto simp: default_detector_def code_set_iff DefaultBlockedStatusCodes_def min_int64_def max_int64_def)
qed

section \<open>Judgements on error texts\<close>

definition ascii :: "string \<Rightarrow> bool" where
  "ascii s \<longleftrightarrow> list_all is_ascii s"

text \<open>A chain of \<open>fmt.Errorf("pre %w post")\<close> around an error, outermost first.\<close>

fun wrapped :: "(string \<times> string) list \<Rightarrow> gerr \<Rightarrow> gerr" where
  "wrapped [] e = e"
| "wrapped ((pre, post) # ws) e = ErrWrap pre (wrapped ws e) post"

text \<open>
  A judgement on errors that adding text around an error cannot revoke.  The client wraps every
  error it passes on, so whoever classifies the result relies on this.
\<close>

locale wrap_stable =
  fixes judge :: "gerr \<Rightarrow> bool" and quote :: "string \<Rightarrow> string"
  assumes judge_wrap: "judge e \<Longrightarrow> ascii (error_text quote e) \<Longrightarrow> ascii pre \<Longrightarrow> ascii post \<Longrightarrow>
    judge (ErrWrap pre e post)"
begin

lemma judge_wrapped:
  assumes "judge e" "ascii (error_text quote e)" "\<forall>(pre, post) \<in> set ws. ascii pre \<and> ascii post"
  shows "judge (wrapped ws e) \<and> ascii (error_text quote (wrapped ws e))"
  using assms by (induction ws e rule: wrapped.induct) (auto simp: judge_wrap ascii_def)

end

lemma to_lower_around:
  assumes "ascii pre" "ascii s" "ascii post"
  shows "to_lower uni (pre @ s @ post) = to_lower uni pre @ to_lower uni s @ to_lower uni post"
  using assms by (simp add: to_lower_def ascii_def)

lemma contains_around:
  assumes "ascii pre" "ascii s" "ascii post" "contains (to_lower uni s) p"
  shows "contains (to_lower uni (pre @ s @ post)) p"
  unfolding to_lower_around[OF assms(1-3)] using assms(4) by (intro contains_prepend contains_extend)

lemma IsBlockedError_wrap:
  assumes "IsBlockedError q uni d (Some e)" "ascii (error_text q e)" "ascii pre" "ascii post"
  shows "IsBlockedError q uni d (Some (ErrWrap pre e post))"
  using assms contains_around[OF assms(3,2,4)]
  by (auto simp: IsBlockedError_def list_ex_iff Let_def split: option.splits)

interpretation blocked_error: wrap_stable "\<lambda>e. IsBlockedError q uni d (Some e)" q for q uni d
  by unfold_locales (rule IsBlockedError_wrap)

section \<open>Properties\<close>


definition no_rx :: regexp_env where
  "no_rx = \<lparr> rx_compile = (\<lambda>_. None), rx_match = (\<lambda>_ _. False) \<rparr>"

definition challenge_page :: Response where
  "challenge_page = \<lparr> resp_StatusCode = 500, resp_Status = ''500'', resp_Body = ''a CAPTCHA!'', resp_Header = [] \<rparr>"


text \<open>The Cloudflare test ignores letter case and never fires on Amazon CloudFront's
  \<open>x-amz-cf-*\<close> headers, whatever the rest of the name says.\<close>

lemma cloudflare_header_case:
  assumes "list_all is_ascii k" and "list_all is_ascii k'" and "map lower_char k = map lower_char k'"
  shows "isCloudflareHeader uni k = isCloudflareHeader uni k' \<and>
    (has_prefix (map lower_char k) ''x-amz-cf-'' \<longrightarrow> \<not> isCloudflareHeader uni k')"
  using assms by (simp add: isCloudflareHeader_def to_lower_def Let_def)

text \<open>An error that reads as a block keeps reading as one however many layers of context
  \<open>fmt.Errorf\<close> puts around it, for every detector configuration.\<close>

lemma blocked_error_survives_wrapping:
  assumes "IsBlockedError q uni d (Some e)" and "ascii (error_text q e)"
    and "\<forall>(pre, post) \<in> set ws. ascii pre \<and> ascii post"
  shows "IsBlockedError q uni d (Some (wrapped ws e))"
  using blocked_error.judge_wrapped[OF assms] by simp

end
