(* ===== verification/Transient.thy ===== *)
theory Transient
  imports Detector
begin

text \<open>
  \<open>transient.go\<close>: the three-tier classifier of errors.  A nil slice of patterns is \<open>None\<close>, and so
  are a nil classifier and a nil error.
\<close>

section \<open>Model\<close>

definition DefaultUnambiguousPatterns :: "string list" where
  "DefaultUnambiguousPatterns = [''proxy tunnel failed'', ''all proxies are blocked'', ''blocking response'']"

definition DefaultAmbiguousPatterns :: "string list" where
  "DefaultAmbiguousPatterns =
     [''failed to dial'', ''connection refused'', ''connection reset'', ''i/o timeout'', ''tls handshake timeout'',
      ''no such host'', ''502 bad gateway'', ''503 service unavailable'', ''429 too many requests'']"

definition DefaultBlockingPatterns :: "string list" where
  "DefaultBlockingPatterns =
     [''just a moment'', ''cloudflare'', ''captcha'', ''status 403'', ''status 407'', ''status 429'', ''status 502'',
      ''status 503'']"

definition DefaultContextPatterns :: "string list" where
  "DefaultContextPatterns = [''proxy'', ''proxator'']"

record TransientConfig =
  tc_UnambiguousPatterns :: "string list option"
  tc_AmbiguousPatterns :: "string list option"
  tc_BlockingPatterns :: "string list option"
  tc_ContextPatterns :: "string list option"

record TransientClassifier =
  unambiguous :: "string list"
  ambiguous :: "string list"
  blocking :: "string list"
  contextual :: "string list"

definition pick_patterns :: "(string \<Rightarrow> string) \<Rightarrow> string list option \<Rightarrow> string list \<Rightarrow> string list" where
  "pick_patterns uni given fallback =
     map (to_lower uni) (case given of None \<Rightarrow> fallback | Some src \<Rightarrow> src)"

definition NewTransientClassifierWith :: "(string \<Rightarrow> string) \<Rightarrow> TransientConfig \<Rightarrow> TransientClassifier" where
  "NewTransientClassifierWith uni cfg =
     \<lparr> unambiguous = pick_patterns uni (tc_UnambiguousPatterns cfg) DefaultUnambiguousPatterns,
       ambiguous = pick_patterns uni (tc_AmbiguousPatterns cfg) DefaultAmbiguousPatterns,
       blocking = pick_patterns uni (tc_BlockingPatterns cfg) DefaultBlockingPatterns,
       contextual = pick_patterns uni (tc_ContextPatterns cfg) DefaultContextPatterns \<rparr>"

definition NewTransientClassifier :: "(string \<Rightarrow> string) \<Rightarrow> TransientClassifier" where
  "NewTransientClassifier uni =
     NewTransientClassifierWith uni
       \<lparr> tc_UnambiguousPatterns = None, tc_AmbiguousPatterns = None, tc_BlockingPatterns = None,
         tc_ContextPatterns = None \<rparr>"

fun containsAny :: "string \<Rightarrow> string list \<Rightarrow> bool" where
  "containsAny s [] = False"
| "containsAny s (p # ps) = (if contains s p then True else containsAny s ps)"

definition classify ::
  "(string \<Rightarrow> string) \<Rightarrow> (string \<Rightarrow> string) \<Rightarrow> TransientClassifier option \<Rightarrow> gerr option \<Rightarrow> bool" where
  "classify q uni c err =
     (case (c, err) of
        (Some c, Some err) \<Rightarrow>
          if errors_is err ErrAllProxiesBlocked then True
          else
            let msg = to_lower uni (error_text q err) in
            if containsAny msg (unambiguous c) then True
            else if \<not> containsAny msg (contextual c) then False
            else containsAny msg (ambiguous c) \<or> containsAny msg (blocking c)
      | _ \<Rightarrow> False)"

definition IsTransient :: "(string \<Rightarrow> string) \<Rightarrow> (string \<Rightarrow> string) \<Rightarrow> gerr option \<Rightarrow> bool" where
  "IsTransient q uni err = classify q uni (Some (NewTransientClassifier uni)) err"

section \<open>Lemmas\<close>

lemma containsAny_iff: "containsAny s ps \<longleftrightarrow> (\<exists>p \<in> set ps. contains s p)"
  by (induction s ps rule: containsAny.induct) auto

lemma containsAny_around:
  assumes "ascii pre" "ascii s" "ascii post" "containsAny (to_lower uni s) ps"
  shows "containsAny (to_lower uni (pre @ s @ post)) ps"
  using assms contains_around[OF assms(1-3)] by (auto simp: containsAny_iff)

lemma classify_wrap:
  assumes "classify q uni c (Some e)" "ascii (error_text q e)" "ascii pre" "ascii post"
  shows "classify q uni c (Some (ErrWrap pre e post))"
  using assms containsAny_around[OF assms(3,2,4)]
  by (auto simp: classify_def Let_def split: option.splits if_splits)

interpretation transient: wrap_stable "\<lambda>e. classify q uni c (Some e)" q for q uni c
  by unfold_locales (rule classify_wrap)

lemma lower_defaults:
  "map (to_lower uni) DefaultUnambiguousPatterns = DefaultUnambiguousPatterns"
  "map (to_lower uni) DefaultAmbiguousPatterns = DefaultAmbiguousPatterns"
  "map (to_lower uni) DefaultBlockingPatterns = DefaultBlockingPatterns"
  "map (to_lower uni) DefaultContextPatterns = DefaultContextPatterns"
  by code_simp+

lemma default_classifier:
  "NewTransientClassifier uni =
     \<lparr> unambiguous = DefaultUnambiguousPatterns, ambiguous = DefaultAmbiguousPatterns,
       blocking = DefaultBlockingPatterns, contextual = DefaultContextPatterns \<rparr>"
  by (simp add: NewTransientClassifier_def NewTransientClassifierWith_def pick_patterns_def lower_defaults)

section \<open>Properties\<close>

text \<open>C29. The context requirement: an error that does not wrap \<open>ErrAllProxiesBlocked\<close>, holds no
  unambiguous phrase and never mentions a proxy is not transient whatever else it says; wrapped
  in a text that mentions one, it is transient as soon as it holds a network or blocking phrase.\<close>

theorem context_decides:
  assumes "\<not> errors_is e ErrAllProxiesBlocked" and "ascii (error_text q e)"
    and "\<forall>p \<in> set (DefaultUnambiguousPatterns @ DefaultContextPatterns). \<not> contains (to_lower uni (error_text q e)) p"
    and "ascii pre" and "contains (to_lower uni pre) ''proxy''"
    and "p \<in> set (DefaultAmbiguousPatterns @ DefaultBlockingPatterns)" and "contains (to_lower uni (error_text q e)) p"
  shows "\<not> IsTransient q uni (Some e) \<and> IsTransient q uni (Some (ErrWrap pre e []))"
proof -
  have n: "ascii []" by (simp add: ascii_def)
  have "contains (to_lower uni (pre @ error_text q e)) ''proxy''"
    using contains_around[OF n assms(4,2,5)] by simp
  moreover have "contains (to_lower uni (pre @ error_text q e)) p"
    using contains_around[OF assms(4,2) n assms(7)] by simp
  ultimately show ?thesis
    using assms(1,3,6)
    by (auto simp: IsTransient_def classify_def default_classifier containsAny_iff Let_def DefaultContextPatterns_def)
qed

theorem context_decides_witness:
  "\<not> IsTransient id id (Some (ErrText ''dial 10.0.0.1:5432: connection refused'')) \<and>
   IsTransient id id (Some (ErrWrap ''Proxy 3: '' (ErrText ''dial 10.0.0.1:5432: connection refused'') []))"
proof (rule context_decides[where p = "''connection refused''"])
  show "ascii (error_text id (ErrText ''dial 10.0.0.1:5432: connection refused''))" "ascii ''Proxy 3: ''"
    "contains (to_lower id ''Proxy 3: '') ''proxy''"
    "''connection refused'' \<in> set (DefaultAmbiguousPatterns @ DefaultBlockingPatterns)"
    "contains (to_lower id (error_text id (ErrText ''dial 10.0.0.1:5432: connection refused''))) ''connection refused''"
    by code_simp+
  show "\<forall>p \<in> set (DefaultUnambiguousPatterns @ DefaultContextPatterns).
    \<not> contains (to_lower id (error_text id (ErrText ''dial 10.0.0.1:5432: connection refused''))) p"
    by code_simp
qed simp

text \<open>Context is never lost: an error classified as transient stays transient under any number of
  \<open>fmt.Errorf\<close> wrappings, for every classifier configuration.\<close>

lemma transient_survives_wrapping:
  assumes "classify q uni c (Some e)" and "ascii (error_text q e)"
    and "\<forall>(pre, post) \<in> set ws. ascii pre \<and> ascii post"
  shows "classify q uni c (Some (wrapped ws e))"
  using transient.judge_wrapped[OF assms] by simp

end
