(* ===== verification/Retry.thy ===== *)
theory Retry
  imports Go_Errors
begin

text \<open>
  What the client relies on of \<open>retry.Do\<close> (package \<open>retry-go\<close>, not part of this repository).  The
  function is a parameter of the client's definitions; its documented behaviour is the relation
  \<open>retry_allowed\<close>, and the locale \<open>retrier\<close> is the assumption that it behaves so.  A plain retry
  loop shows that the assumption can be met.
\<close>

section \<open>The documented behaviour\<close>

text \<open>
  With up to \<open>n\<close> attempts left in state \<open>s\<close>: the context may end the operation before an attempt
  (with the cause of its end); an attempt that succeeds ends it; an attempt that fails ends it if
  \<open>RetryIf\<close> declines or it was the last one, with the error of that attempt, which the package may
  take out of its \<open>Unrecoverable\<close> wrapper; otherwise there is another attempt.
\<close>

fun unpack :: "gerr \<Rightarrow> gerr" where
  "unpack (Unrecoverable e) = e"
| "unpack e = e"

inductive retry_allowed ::
  "(gerr \<Rightarrow> bool) \<Rightarrow> ('s \<Rightarrow> (gerr option \<times> 's) run) \<Rightarrow> nat \<Rightarrow> 's \<Rightarrow> (gerr option \<times> 's) run \<Rightarrow> bool"
  for retry_if f where
  ctx_done: "retry_allowed retry_if f (Suc n) s (Done (Some e, s))"
| success: "f s = Done (None, s') \<Longrightarrow> retry_allowed retry_if f (Suc n) s (Done (None, s'))"
| give_up: "f s = Done (Some e, s') \<Longrightarrow> \<not> retry_if e \<or> n = 0 \<Longrightarrow> e' \<in> {e, unpack e} \<Longrightarrow>
    retry_allowed retry_if f (Suc n) s (Done (Some e', s'))"
| again: "f s = Done (Some e, s') \<Longrightarrow> retry_if e \<Longrightarrow> retry_allowed retry_if f n s' r \<Longrightarrow>
    retry_allowed retry_if f (Suc n) s r"
| panic: "f s = Panic \<Longrightarrow> retry_allowed retry_if f (Suc n) s Panic"
| blocked: "f s = Blocked \<Longrightarrow> retry_allowed retry_if f (Suc n) s Blocked"

inductive_cases retry_allowed_0: "retry_allowed retry_if f 0 s r"
inductive_cases retry_allowed_Suc: "retry_allowed retry_if f (Suc n) s r"

section \<open>The interface\<close>

locale retrier =
  fixes retry_do :: "nat \<Rightarrow> (gerr \<Rightarrow> bool) \<Rightarrow> ('s \<Rightarrow> (gerr option \<times> 's) run) \<Rightarrow> 's \<Rightarrow> (gerr option \<times> 's) run"
  assumes documented: "0 < n \<Longrightarrow> retry_allowed retry_if f n s (retry_do n retry_if f s)"
begin

text \<open>What every attempt keeps, the whole operation keeps.\<close>

lemma keeps:
  assumes "0 < n" "retry_do n retry_if f s = Done (r, s')" "P s"
    and step: "\<And>s r s'. P s \<Longrightarrow> f s = Done (r, s') \<Longrightarrow> P s'"
  shows "P s'"
proof -
  have "retry_allowed retry_if f n s (Done (r, s'))" using documented[OF assms(1)] assms(2) by metis
  then show ?thesis using assms(3)
    by (induction n s "Done (r, s')" rule: retry_allowed.induct) (auto dest: step)
qed

text \<open>Success means that some attempt succeeded in the state the operation ends in.\<close>

lemma succeeds:
  assumes "0 < n" "retry_do n retry_if f s = Done (None, s')" "P s"
    and step: "\<And>s e s'. P s \<Longrightarrow> f s = Done (Some e, s') \<Longrightarrow> retry_if e \<Longrightarrow> P s'"
  shows "\<exists>s1. P s1 \<and> f s1 = Done (None, s')"
proof -
  have "retry_allowed retry_if f n s (Done (None, s'))" using documented[OF assms(1)] assms(2) by metis
  then show ?thesis using assms(3)
    by (induction n s "Done (None :: gerr option, s')" rule: retry_allowed.induct) (auto dest: step)
qed

text \<open>The operation returns when every attempt does, as long as a budget of one unit per attempt
  lasts.\<close>

lemma returns:
  assumes "0 < n" "P n s"
    and step: "\<And>k s. P (Suc k) s \<Longrightarrow> \<exists>r s'. f s = Done (r, s') \<and> P k s'"
  shows "\<exists>r s'. retry_do n retry_if f s = Done (r, s')"
proof -
  have "\<exists>r s'. res = Done (r, s')" if "retry_allowed retry_if f n s res" "P n s" for res
    using that by (induction rule: retry_allowed.induct) (force dest: step)+
  then show ?thesis using documented[OF assms(1)] assms(2) by blast
qed

text \<open>When the first attempt succeeds the operation ends there, unless the context ended before it.\<close>

lemma first_try:
  assumes "0 < n" "f s = Done (None, s')"
  shows "retry_do n retry_if f s = Done (None, s') \<or> (\<exists>e. retry_do n retry_if f s = Done (Some e, s))"
proof -
  obtain k where n: "n = Suc k" using assms(1) gr0_conv_Suc by blast
  have "retry_allowed retry_if f (Suc k) s (retry_do (Suc k) retry_if f s)" by (rule documented) simp
  then show ?thesis unfolding n by (elim retry_allowed_Suc) (auto simp: assms(2))
qed

text \<open>A counter that every attempt increments grows by at most the number of attempts allowed.\<close>

lemma counts:
  assumes "0 < n" "retry_do n retry_if f s = Done (r, s')"
    and step: "\<And>s r s'. f s = Done (r, s') \<Longrightarrow> c s' = Suc (c s)"
  shows "c s' \<le> c s + n"
proof -
  have "retry_allowed retry_if f n s (Done (r, s'))" using documented[OF assms(1)] assms(2) by metis
  then show ?thesis
    by (induction n s "Done (r, s')" rule: retry_allowed.induct) (auto dest!: step)
qed

end

section \<open>A loop that meets it\<close>

fun retry_loop ::
  "nat \<Rightarrow> (gerr \<Rightarrow> bool) \<Rightarrow> ('s \<Rightarrow> (gerr option \<times> 's) run) \<Rightarrow> 's \<Rightarrow> (gerr option \<times> 's) run" where
  "retry_loop 0 retry_if f s = Done (None, s)"
| "retry_loop (Suc n) retry_if f s =
     (case f s of
        Panic \<Rightarrow> Panic
      | Blocked \<Rightarrow> Blocked
      | Done (None, s') \<Rightarrow> Done (None, s')
      | Done (Some e, s') \<Rightarrow>
          if \<not> retry_if e \<or> n = 0 then Done (Some (unpack e), s') else retry_loop n retry_if f s')"

lemma retry_loop_allowed: "0 < n \<Longrightarrow> retry_allowed retry_if f n s (retry_loop n retry_if f s)"
proof (induction n arbitrary: s)
  case (Suc n)
  then show ?case
    by (auto split: run.split prod.split option.split intro: retry_allowed.intros)
qed simp

interpretation loop: retrier retry_loop
  by unfold_locales (rule retry_loop_allowed)

end
