(* ===== verification/Client.thy ===== *)
theory Client
  imports Selection Transient Retry "HOL-Library.Char_ord" "HOL-Library.List_Lexorder"
begin

text \<open>
  \<open>client.go\<close>: the client, its construction, and a request with its retries.  \<open>retry.Do\<close> is an
  argument (see \<open>Retry\<close>).  What the surroundings do during attempt number \<open>k\<close> (the clock, the
  random number, the outcome of the request function, the steps other goroutines take between
  the steps of this one) is given by an \<open>attempt_env\<close>.
\<close>

section \<open>State\<close>

record Client =
  cl_pools :: "string \<Rightarrow> Pool option"
  cl_poolNames :: "string list"
  cl_detector :: BlockDetector
  cl_retry :: RetryConfig

record attempt_env =
  ae_before :: "Pool \<Rightarrow> Pool"
  ae_obs :: "Pool \<Rightarrow> nat \<Rightarrow> scan_obs"
  ae_rand :: f64
  ae_selected :: "Pool \<Rightarrow> Pool"
  ae_acquire :: acq_env
  ae_fn :: "session \<Rightarrow> outcome"
  ae_during :: "Pool \<Rightarrow> Pool"
  ae_elapsed :: duration
  ae_latencies :: "int64 list"
  ae_counted :: "Pool \<Rightarrow> Pool"
  ae_now :: instant

text \<open>The variables the closure of \<open>DoForDomain\<close> shares with its caller, and the attempts made.\<close>

record call_state =
  cs_pool :: Pool
  cs_lastResp :: "Response option"
  cs_lastErr :: "gerr option"
  cs_attempts :: nat

section \<open>Pools by name\<close>

definition resolvePool :: "(string \<Rightarrow> string) \<Rightarrow> string \<Rightarrow> Client \<Rightarrow> gerr + string" where
  "resolvePool q name c =
     (if name = [] then
        (if length (cl_poolNames c) \<noteq> 1 then Inl ErrAmbiguousPool else Inr (cl_poolNames c ! 0))
      else case cl_pools c name of
        None \<Rightarrow> Inl (ErrWrap [] ErrPoolNotFound ('': '' @ go_quote q name))
      | Some _ \<Rightarrow> Inr name)"

definition Client_Pool :: "string \<Rightarrow> Client \<Rightarrow> Pool option" where
  "Client_Pool name c = cl_pools c name"

definition PoolNames :: "Client \<Rightarrow> string list" where
  "PoolNames c = cl_poolNames c"

definition HasPool :: "string \<Rightarrow> Client \<Rightarrow> bool" where
  "HasPool name c = (case cl_pools c name of None \<Rightarrow> False | Some p \<Rightarrow> 0 < length (pool_endpoints p))"

section \<open>Endpoints of a pool\<close>

definition update_ep :: "nat \<Rightarrow> (endpoint \<Rightarrow> endpoint) \<Rightarrow> Pool \<Rightarrow> Pool" where
  "update_ep i f p = p\<lparr>pool_endpoints := (pool_endpoints p)[i := f (pool_endpoints p ! i)]\<rparr>"

definition run_ep :: "nat \<Rightarrow> (endpoint \<Rightarrow> endpoint run) \<Rightarrow> Pool \<Rightarrow> Pool run" where
  "run_ep i f p = bind_run (f (pool_endpoints p ! i)) (\<lambda>e. Done (update_ep i (\<lambda>_. e) p))"

definition penalise ::
  "instant \<Rightarrow> (Pool \<Rightarrow> Pool) \<Rightarrow> RetryConfig \<Rightarrow> int32 \<Rightarrow> string \<Rightarrow> nat \<Rightarrow> Pool \<Rightarrow> Pool run" where
  "penalise now others retry threshold domain i p =
     (let p = update_ep i incrementFailCount p;
          p = the (recordDomainBlock now (ep_index (pool_endpoints p ! i)) domain (Some p));
          p = others p
      in if sint threshold \<le> sint (ep_failCount (pool_endpoints p ! i))
         then run_ep i (markFailed now (rc_CooldownPeriod retry) (rc_MaxCooldown retry)) p
         else Done p)"

section \<open>One attempt\<close>

text \<open>What the closure does with the outcome of the request function on endpoint \<open>i\<close>.\<close>

definition settle ::
  "(string \<Rightarrow> string) \<Rightarrow> regexp_env \<Rightarrow> (string \<Rightarrow> string) \<Rightarrow> BlockDetector \<Rightarrow> RetryConfig \<Rightarrow> int32 \<Rightarrow> string \<Rightarrow>
   attempt_env \<Rightarrow> nat \<Rightarrow> outcome \<Rightarrow> Pool \<Rightarrow> (gerr option \<times> Pool) run" where
  "settle q rx uni detector retry threshold domain env i out p =
     (let p = update_ep i (recordLatency_among (ae_latencies env) (ae_elapsed env)) p;
          index = sint (ep_index (pool_endpoints p ! i));
          penalised = penalise (ae_now env) (ae_counted env) retry threshold domain i p
      in case out of
           (resp, Some err) \<Rightarrow>
             if IsBlockedError q uni (Some detector) (Some err) then
               bind_run penalised (\<lambda>p. Done (Some (ErrWrap (''proxy '' @ itoa index @ '' blocked: '') err []), p))
             else Done (Some err, p)
         | (resp, None) \<Rightarrow>
             if IsBlocked rx uni (Some detector) resp then
               bind_run penalised (\<lambda>p. Done
                 (Some (ErrText (''proxy '' @ itoa index @ '' received blocking response (status '' @
                    itoa (sint (resp_StatusCode (the resp))) @ '')'')), p))
             else Done (None, update_ep i (\<lambda>e. resetFailCount (recordSuccess e)) p))"

text \<open>The closure: selection, session, request, settlement, and the deferred release.\<close>

definition attempt ::
  "(string \<Rightarrow> string) \<Rightarrow> regexp_env \<Rightarrow> (string \<Rightarrow> string) \<Rightarrow> BlockDetector \<Rightarrow> RetryConfig \<Rightarrow> int32 \<Rightarrow> string \<Rightarrow>
   (nat \<Rightarrow> attempt_env) \<Rightarrow> call_state \<Rightarrow> (gerr option \<times> call_state) run" where
  "attempt q rx uni detector retry threshold domain envs st =
     (let env = envs (cs_attempts st);
          st = st\<lparr>cs_attempts := Suc (cs_attempts st)\<rparr>;
          p = ae_before env (cs_pool st);
          (sel, p') = getNextEndpointForDomain domain (ae_obs env p) (ae_rand env) (Some p)
      in case sel of
           Inl _ \<Rightarrow> Done (Some (Unrecoverable ErrAllProxiesBlocked), st\<lparr>cs_pool := the p'\<rparr>)
         | Inr i \<Rightarrow>
             (let p = ae_selected env (the p') in
              bind_run (acquireSession (ae_acquire env) (pool_endpoints p ! i))
                (\<lambda>(r, e). let p = update_ep i (\<lambda>_. e) p in
                   (case r of
                      Inl err \<Rightarrow> Done (Some (ErrWrap ''acquiring session: '' err []), st\<lparr>cs_pool := p\<rparr>)
                    | Inr session \<Rightarrow>
                        (let out = ae_fn env session; p = ae_during env p in
                         bind_run (settle q rx uni detector retry threshold domain env i out p)
                           (\<lambda>(res, p). Done (res, st\<lparr>cs_pool := update_ep i (releaseSession (Some session)) p,
                              cs_lastResp := fst out, cs_lastErr := snd out\<rparr>)))))))"

section \<open>The request with its retries\<close>

definition retry_if :: "gerr \<Rightarrow> bool" where
  "retry_if err = (\<not> errors_is err ErrAllProxiesBlocked \<and> \<not> errors_is err CtxCanceled)"

type_synonym retry_fun =
  "nat \<Rightarrow> (gerr \<Rightarrow> bool) \<Rightarrow> (call_state \<Rightarrow> (gerr option \<times> call_state) run) \<Rightarrow> call_state \<Rightarrow> (gerr option \<times> call_state) run"

definition result_of :: "gerr option \<Rightarrow> call_state \<Rightarrow> outcome" where
  "result_of err st =
     (case err of
        Some e \<Rightarrow>
          (case cs_lastResp st of
             Some resp \<Rightarrow> (Some resp, Some e)
           | None \<Rightarrow> (case cs_lastErr st of Some le \<Rightarrow> (None, Some le) | None \<Rightarrow> (None, Some e)))
      | None \<Rightarrow>
          (case cs_lastResp st of
             None \<Rightarrow> (None, Some (ErrText ''proxator: request returned a nil response''))
           | Some resp \<Rightarrow> (Some resp, None)))"

definition start_call :: "Pool \<Rightarrow> call_state" where
  "start_call p = \<lparr> cs_pool = p, cs_lastResp = None, cs_lastErr = None, cs_attempts = 0 \<rparr>"

definition DoForDomain ::
  "retry_fun \<Rightarrow> (string \<Rightarrow> string) \<Rightarrow> regexp_env \<Rightarrow> (string \<Rightarrow> string) \<Rightarrow> (nat \<Rightarrow> attempt_env) \<Rightarrow>
   string \<Rightarrow> string \<Rightarrow> Client \<Rightarrow> (outcome \<times> Client) run" where
  "DoForDomain retry_do q rx uni envs poolName domain c =
     (case resolvePool q poolName c of
        Inl err \<Rightarrow> Done ((None, Some err), c)
      | Inr name \<Rightarrow>
          (let threshold = failThreshold (cl_retry c) in
           bind_run (retry_do (unat (rc_MaxAttempts (cl_retry c))) retry_if
                       (attempt q rx uni (cl_detector c) (cl_retry c) threshold domain envs)
                       (start_call (the (cl_pools c name))))
             (\<lambda>(err, st). Done (result_of err st, c\<lparr>cl_pools := (cl_pools c)(name \<mapsto> cs_pool st)\<rparr>))))"

definition Do ::
  "retry_fun \<Rightarrow> (string \<Rightarrow> string) \<Rightarrow> regexp_env \<Rightarrow> (string \<Rightarrow> string) \<Rightarrow> (nat \<Rightarrow> attempt_env) \<Rightarrow>
   string \<Rightarrow> Client \<Rightarrow> (outcome \<times> Client) run" where
  "Do retry_do q rx uni envs pool c = DoForDomain retry_do q rx uni envs pool [] c"

text \<open>The shorthands: a request function that performs one request on the session, and the domain
  of the target URL.  \<open>session_do k s r\<close> is what \<open>Session.Do\<close> gives during attempt \<open>k\<close>.\<close>

type_synonym 'v session_do = "nat \<Rightarrow> session \<Rightarrow> 'v Request \<Rightarrow> outcome"

definition with_request :: "'v session_do \<Rightarrow> 'v Request \<Rightarrow> (nat \<Rightarrow> attempt_env) \<Rightarrow> nat \<Rightarrow> attempt_env" where
  "with_request session_do r envs k = (envs k)\<lparr>ae_fn := (\<lambda>s. session_do k s r)\<rparr>"

definition Get ::
  "retry_fun \<Rightarrow> (string \<Rightarrow> string) \<Rightarrow> regexp_env \<Rightarrow> (string \<Rightarrow> string) \<Rightarrow> (string \<Rightarrow> gerr + url) \<Rightarrow> 'v session_do \<Rightarrow>
   (nat \<Rightarrow> attempt_env) \<Rightarrow> string \<Rightarrow> string \<Rightarrow> Client \<Rightarrow> (outcome \<times> Client) run" where
  "Get retry_do q rx uni parse session_do envs pool targetURL c =
     DoForDomain retry_do q rx uni
       (with_request session_do
          \<lparr> rq_Method = ''GET'', rq_URL = targetURL, rq_Body = NilBody, rq_Headers = [] \<rparr> envs)
       pool (FromURL parse targetURL) c"

definition GetWithHeaders ::
  "retry_fun \<Rightarrow> (string \<Rightarrow> string) \<Rightarrow> regexp_env \<Rightarrow> (string \<Rightarrow> string) \<Rightarrow> (string \<Rightarrow> gerr + url) \<Rightarrow> 'v session_do \<Rightarrow>
   (nat \<Rightarrow> attempt_env) \<Rightarrow> string \<Rightarrow> string \<Rightarrow> OrderedHeaders \<Rightarrow> Client \<Rightarrow> (outcome \<times> Client) run" where
  "GetWithHeaders retry_do q rx uni parse session_do envs pool targetURL headers c =
     DoForDomain retry_do q rx uni
       (with_request session_do
          \<lparr> rq_Method = ''GET'', rq_URL = targetURL, rq_Body = NilBody, rq_Headers = headers \<rparr> envs)
       pool (FromURL parse targetURL) c"

definition Post ::
  "retry_fun \<Rightarrow> (string \<Rightarrow> string) \<Rightarrow> regexp_env \<Rightarrow> (string \<Rightarrow> string) \<Rightarrow> (string \<Rightarrow> gerr + url) \<Rightarrow> 'v session_do \<Rightarrow>
   (nat \<Rightarrow> attempt_env) \<Rightarrow> string \<Rightarrow> string \<Rightarrow> 'v body \<Rightarrow> Client \<Rightarrow> (outcome \<times> Client) run" where
  "Post retry_do q rx uni parse session_do envs pool targetURL body c =
     DoForDomain retry_do q rx uni
       (with_request session_do
          \<lparr> rq_Method = ''POST'', rq_URL = targetURL, rq_Body = body, rq_Headers = [] \<rparr> envs)
       pool (FromURL parse targetURL) c"

definition PostWithHeaders ::
  "retry_fun \<Rightarrow> (string \<Rightarrow> string) \<Rightarrow> regexp_env \<Rightarrow> (string \<Rightarrow> string) \<Rightarrow> (string \<Rightarrow> gerr + url) \<Rightarrow> 'v session_do \<Rightarrow>
   (nat \<Rightarrow> attempt_env) \<Rightarrow> string \<Rightarrow> string \<Rightarrow> 'v body \<Rightarrow> OrderedHeaders \<Rightarrow> Client \<Rightarrow> (outcome \<times> Client) run" where
  "PostWithHeaders retry_do q rx uni parse session_do envs pool targetURL body headers c =
     DoForDomain retry_do q rx uni
       (with_request session_do
          \<lparr> rq_Method = ''POST'', rq_URL = targetURL, rq_Body = body, rq_Headers = headers \<rparr> envs)
       pool (FromURL parse targetURL) c"

section \<open>Ping\<close>

text \<open>
  One request on one endpoint.  Of the environment it uses the selection, the acquisition and
  what others do during the request; a nil response with a nil error is dereferenced.
\<close>

definition ping_verdict :: "outcome \<Rightarrow> gerr option run" where
  "ping_verdict out =
     (case out of
        (resp, Some err) \<Rightarrow> Done (Some (ErrWrap ''proxy ping failed: '' err []))
      | (None, None) \<Rightarrow> Panic
      | (Some resp, None) \<Rightarrow>
          (let code = sint (resp_StatusCode resp) in
           Done (if code < 200 \<or> 400 \<le> code
                 then Some (ErrText (''proxator: ping returned status '' @ itoa code)) else None)))"

definition Ping ::
  "(string \<Rightarrow> string) \<Rightarrow> (session \<Rightarrow> 'v Request \<Rightarrow> outcome) \<Rightarrow> attempt_env \<Rightarrow> string \<Rightarrow> string \<Rightarrow> Client \<Rightarrow>
   (gerr option \<times> Client) run" where
  "Ping q session_do env pool probeURL c =
     (if probeURL = [] then Done (Some (ErrText ''proxator: Ping requires a probe URL''), c)
      else case resolvePool q pool c of
        Inl err \<Rightarrow> Done (Some err, c)
      | Inr name \<Rightarrow>
          (let (sel, p') = getNextEndpoint (ae_obs env (the (cl_pools c name))) (ae_rand env) (cl_pools c name);
               back = (\<lambda>p. c\<lparr>cl_pools := (cl_pools c)(name := p)\<rparr>)
           in case sel of
                Inl err \<Rightarrow> Done (Some err, back p')
              | Inr i \<Rightarrow>
                  (let p = ae_selected env (the p') in
                   bind_run (acquireSession (ae_acquire env) (pool_endpoints p ! i))
                     (\<lambda>(r, e). let p = update_ep i (\<lambda>_. e) p in
                        (case r of
                           Inl err \<Rightarrow> Done (Some (ErrWrap ''acquiring session: '' err []), back (Some p))
                         | Inr session \<Rightarrow>
                             (let out = session_do session
                                    \<lparr> rq_Method = ''GET'', rq_URL = probeURL, rq_Body = NilBody, rq_Headers = [] \<rparr>;
                                  p = ae_during env p
                              in bind_run (ping_verdict out)
                                   (\<lambda>v. Done (v, back (Some (update_ep i (releaseSession (Some session)) p))))))))))"

section \<open>Administration\<close>

definition Client_Close :: "Client \<Rightarrow> Client" where
  "Client_Close c = c\<lparr>cl_pools := (\<lambda>name. Pool_Close (cl_pools c name))\<rparr>"

definition Client_Stats :: "Client \<Rightarrow> string \<Rightarrow> PoolStats option" where
  "Client_Stats c name = (case cl_pools c name of None \<Rightarrow> None | Some p \<Rightarrow> Some (Pool_Stats (Some p)))"

definition on_endpoint ::
  "(string \<Rightarrow> string) \<Rightarrow> (endpoint \<Rightarrow> endpoint) \<Rightarrow> string \<Rightarrow> int64 \<Rightarrow> Client \<Rightarrow> gerr option \<times> Client" where
  "on_endpoint q f pool index c =
     (case resolvePool q pool c of
        Inl err \<Rightarrow> (Some err, c)
      | Inr name \<Rightarrow>
          (case findEndpoint q index (cl_pools c name) of
             Inl err \<Rightarrow> (Some err, c)
           | Inr i \<Rightarrow> (None, c\<lparr>cl_pools := (cl_pools c)(name := map_option (update_ep i f) (cl_pools c name))\<rparr>)))"

definition MarkEndpointDead :: "(string \<Rightarrow> string) \<Rightarrow> string \<Rightarrow> int64 \<Rightarrow> Client \<Rightarrow> gerr option \<times> Client" where
  "MarkEndpointDead q pool index c = on_endpoint q markDead pool index c"

definition ResetEndpoint :: "(string \<Rightarrow> string) \<Rightarrow> string \<Rightarrow> int64 \<Rightarrow> Client \<Rightarrow> gerr option \<times> Client" where
  "ResetEndpoint q pool index c =
     on_endpoint q (\<lambda>e. resetTier (resetFailCount (setState StateAlive e))) pool index c"

section \<open>The default transport\<close>

text \<open>
  \<open>transport_azuretls.go\<close>: call number \<open>k\<close> of the factory creates library session \<open>k\<close>; when \<open>SetProxy\<close>
  refuses the URL the session is closed at once.  The second component are the sessions closed.
\<close>

definition azure_New :: "(nat \<Rightarrow> string \<Rightarrow> gerr option) \<Rightarrow> nat \<Rightarrow> string \<Rightarrow> (gerr + session) \<times> session list" where
  "azure_New set_proxy k proxyURL =
     (case set_proxy k proxyURL of
        Some err \<Rightarrow> (Inl err, [k])
      | None \<Rightarrow> (Inr k, []))"

definition defaultSessionFactory :: "(nat \<Rightarrow> string \<Rightarrow> gerr option) \<Rightarrow> factory" where
  "defaultSessionFactory set_proxy k proxyURL = fst (azure_New set_proxy k proxyURL)"

definition newEndpoint ::
  "(nat \<Rightarrow> string \<Rightarrow> gerr option) \<Rightarrow> string \<Rightarrow> int64 \<Rightarrow> int64 \<Rightarrow> f64 \<Rightarrow> nat \<Rightarrow> gerr option \<times> endpoint \<times> nat" where
  "newEndpoint set_proxy proxyURL index poolSize rps k =
     newEndpointWithFactory proxyURL index poolSize rps (defaultSessionFactory set_proxy) k"

definition newPool ::
  "(nat \<Rightarrow> string \<Rightarrow> gerr option) \<Rightarrow> (string \<Rightarrow> string) \<Rightarrow> (string \<Rightarrow> gerr + url) \<Rightarrow> PoolConfig \<Rightarrow> RetryConfig \<Rightarrow> nat \<Rightarrow>
   (gerr + Pool) \<times> endpoint list \<times> nat" where
  "newPool set_proxy q parse cfg retryCfg k =
     newPoolWithFactory q parse cfg retryCfg (defaultSessionFactory set_proxy) k"

section \<open>Construction\<close>

record Config =
  cfg_Pools :: "PoolConfig list"
  cfg_Retry :: RetryConfig
  cfg_Detector :: "BlockDetector option"
  cfg_SessionFactory :: "factory option"

definition session_factory :: "(nat \<Rightarrow> string \<Rightarrow> gerr option) \<Rightarrow> Config \<Rightarrow> factory" where
  "session_factory set_proxy cfg =
     (case cfg_SessionFactory cfg of None \<Rightarrow> defaultSessionFactory set_proxy | Some factory \<Rightarrow> factory)"

text \<open>\<open>sort.Strings\<close>: the library's sort, on strings ordered lexicographically by their bytes.\<close>

definition sort_Strings :: "string list \<Rightarrow> string list" where
  "sort_Strings xs = sort xs"

text \<open>
  The loop over the pool configurations.  On failure the pools built so far are closed
  (\<open>c.Close\<close>); with the error come all endpoints the failure drops.
\<close>

fun new_pools ::
  "(string \<Rightarrow> string) \<Rightarrow> (string \<Rightarrow> gerr + url) \<Rightarrow> RetryConfig \<Rightarrow> factory \<Rightarrow> PoolConfig list \<Rightarrow> Client \<Rightarrow> nat \<Rightarrow>
   (gerr option \<times> endpoint list) \<times> Client \<times> nat" where
  "new_pools q parse retry factory [] c k = ((None, []), c, k)"
| "new_pools q parse retry factory (pc # pcs) c k =
     (if cl_pools c (pc_Name pc) \<noteq> None then
        ((Some (ErrText (''proxator: duplicate pool name '' @ go_quote q (pc_Name pc))), []), Client_Close c, k)
      else case newPoolWithFactory q parse pc retry factory k of
        (Inl err, dropped, k') \<Rightarrow> ((Some err, dropped), Client_Close c, k')
      | (Inr pool, dropped, k') \<Rightarrow>
          new_pools q parse retry factory pcs
            (c\<lparr>cl_pools := (cl_pools c)(pc_Name pc \<mapsto> pool), cl_poolNames := cl_poolNames c @ [pc_Name pc]\<rparr>) k')"

text \<open>The result: the error or the client, the client as the failure left it and the dropped endpoints.\<close>

definition New ::
  "(string \<Rightarrow> string) \<Rightarrow> regexp_env \<Rightarrow> (string \<Rightarrow> string) \<Rightarrow> (string \<Rightarrow> gerr + url) \<Rightarrow>
   (nat \<Rightarrow> string \<Rightarrow> gerr option) \<Rightarrow> Config \<Rightarrow> nat \<Rightarrow>
   (gerr + Client) \<times> (Client option \<times> endpoint list) \<times> nat" where
  "New q rx uni parse set_proxy cfg k =
     (if cfg_Pools cfg = [] then (Inl ErrNoPools, (None, []), k)
      else case (case cfg_Detector cfg of
                   Some d \<Rightarrow> Inr d
                 | None \<Rightarrow> NewBlockDetectorWith q rx uni empty_detector_config) of
        Inl err \<Rightarrow> (Inl err, (None, []), k)
      | Inr detector \<Rightarrow>
          (case new_pools q parse (withDefaults (cfg_Retry cfg)) (session_factory set_proxy cfg) (cfg_Pools cfg)
                  \<lparr> cl_pools = (\<lambda>_. None), cl_poolNames = [], cl_detector = detector,
                    cl_retry = withDefaults (cfg_Retry cfg) \<rparr> k of
             ((Some err, dropped), c, k') \<Rightarrow> (Inl err, (Some c, dropped), k')
           | ((None, dropped), c, k') \<Rightarrow>
               (Inr (c\<lparr>cl_poolNames := sort_Strings (cl_poolNames c)\<rparr>), (None, []), k')))"

end
