(* ===== verification/Requests.thy ===== *)
theory Requests
  imports Client
begin

text \<open>
  Properties of requests: what an attempt does to the pool, what a request returns, how often it
  tries, and that it gives back the sessions it borrows.
\<close>

section \<open>Sessions\<close>

text \<open>The sessions each endpoint of a pool answers for.\<close>

definition owned :: "Pool \<Rightarrow> session multiset list" where
  "owned p = map ep_owned (pool_endpoints p)"

text \<open>
  Surroundings that take and return sessions of their own only, as every goroutine running the
  code does over its whole borrowing: they leave the endpoints' accounts as they find them.
\<close>

definition neutral_acquire :: "acq_env \<Rightarrow> bool" where
  "neutral_acquire a \<longleftrightarrow> (\<forall>e. ep_owned (aq_during_wait a e) = ep_owned e \<and>
     ep_owned (aq_during_select a e) = ep_owned e \<and> ep_owned (aq_before_recheck a e) = ep_owned e)"

definition neutral :: "attempt_env \<Rightarrow> bool" where
  "neutral env \<longleftrightarrow> neutral_acquire (ae_acquire env) \<and>
     (\<forall>p. owned (ae_before env p) = owned p \<and> owned (ae_selected env p) = owned p \<and>
          owned (ae_during env p) = owned p \<and> owned (ae_counted env p) = owned p)"

lemma length_owned: "owned p = owned p' \<Longrightarrow> length (pool_endpoints p) = length (pool_endpoints p')"
  by (metis owned_def length_map)

lemma owned_update_ep:
  "owned (update_ep i f p) = (owned p)[i := ep_owned (f (pool_endpoints p ! i))]"
  by (simp add: owned_def update_ep_def map_update)

lemma owned_nth: "i < length (pool_endpoints p) \<Longrightarrow> owned p ! i = ep_owned (pool_endpoints p ! i)"
  by (simp add: owned_def)

lemma owned_update_same:
  assumes "\<And>e. ep_owned (f e) = ep_owned e"
  shows "owned (update_ep i f p) = owned p"
proof (cases "i < length (pool_endpoints p)")
  case True
  then show ?thesis by (metis assms list_update_id owned_nth owned_update_ep)
next
  case False
  then show ?thesis by (simp add: owned_def update_ep_def list_update_beyond)
qed

lemma update_ep_fields [simp]:
  "length (pool_endpoints (update_ep i f p)) = length (pool_endpoints p)"
  "i < length (pool_endpoints p) \<Longrightarrow> pool_endpoints (update_ep i f p) ! i = f (pool_endpoints p ! i)"
  "j \<noteq> i \<Longrightarrow> pool_endpoints (update_ep i f p) ! j = pool_endpoints p ! j"
  "pool_domains (update_ep i f p) = pool_domains p" "pool_name (update_ep i f p) = pool_name p"
  "pool_currentIndex (update_ep i f p) = pool_currentIndex p"
  by (simp_all add: update_ep_def)

lemma ep_owned_acquireSession:
  assumes "neutral_acquire a" "acquireSession a e = Done (r, e')"
  shows "ep_owned e = (case r of Inl _ \<Rightarrow> ep_owned e' | Inr s \<Rightarrow> add_mset s (ep_owned e'))"
proof -
  let ?w = "case ep_limiter e of None \<Rightarrow> e | Some _ \<Rightarrow> aq_during_wait a e"
  have w: "ep_owned ?w = ep_owned e" "ep_owned (aq_during_select a ?w) = ep_owned e"
    using assms(1) by (auto simp: neutral_acquire_def split: option.split)
  from assms(2) show ?thesis
  proof (cases rule: acquireSession_cases)
    case (refused err)
    with ep_owned_acq_select[OF refused(1)] w show ?thesis by simp
  next
    case (taken s e2)
    with ep_owned_acq_select[OF taken(1)] ep_owned_acq_recheck[OF taken(2)] w assms(1)
    show ?thesis by (simp add: neutral_acquire_def)
  qed (use w in auto)
qed

text \<open>
  The interface between an endpoint and whoever borrows its sessions (a request, a ping, a probe):
  an acquisition that fails leaves the account of the endpoint alone, one that succeeds takes its
  session out of it, and a release puts it back, so that a loan that ends is neutral.
\<close>

locale session_lender =
  fixes account :: "'e \<Rightarrow> 's multiset"
    and acquire :: "'e \<Rightarrow> (('x + 's) \<times> 'e) run"
    and release :: "'s \<Rightarrow> 'e \<Rightarrow> 'e"
  assumes refused: "acquire e = Done (Inl err, e') \<Longrightarrow> account e' = account e"
    and lent: "acquire e = Done (Inr s, e') \<Longrightarrow> account e = add_mset s (account e')"
    and returned: "account (release s e) = add_mset s (account e)"
begin

lemma loan_is_neutral:
  "acquire e = Done (Inr s, e1) \<Longrightarrow> account e2 = account e1 \<Longrightarrow> account (release s e2) = account e"
  by (simp add: lent returned)

end

lemma endpoint_lends: "neutral_acquire a \<Longrightarrow> session_lender ep_owned (acquireSession a) (\<lambda>s. releaseSession (Some s))"
  using ep_owned_acquireSession[of a] by unfold_locales (fastforce, fastforce, simp)

definition quiet_acquire :: acq_env where
  "quiet_acquire = \<lparr> aq_limit = None, aq_case = CaseSession, aq_during_wait = (\<lambda>e. e),
     aq_during_select = (\<lambda>e. e), aq_before_recheck = (\<lambda>e. e) \<rparr>"

interpretation lender: session_lender ep_owned "acquireSession quiet_acquire" "\<lambda>s. releaseSession (Some s)"
  by (rule endpoint_lends) (simp add: neutral_acquire_def quiet_acquire_def)

text \<open>The same for an endpoint in its place in the pool.\<close>

lemma owned_no_session:
  assumes "neutral_acquire a" "acquireSession a (pool_endpoints p ! i) = Done (Inl err, e)" "i < length (pool_endpoints p)"
  shows "owned (update_ep i (\<lambda>_. e) p) = owned p"
  using session_lender.refused[OF endpoint_lends[OF assms(1)] assms(2)] owned_nth[OF assms(3)]
  by (metis list_update_id owned_update_ep)

lemma owned_borrow:
  assumes "neutral_acquire a" "acquireSession a (pool_endpoints p ! i) = Done (Inr s, e)"
    "i < length (pool_endpoints p)" "owned p' = owned (update_ep i (\<lambda>_. e) p)"
  shows "owned (update_ep i (releaseSession (Some s)) p') = owned p"
proof -
  have o: "owned p' = (owned p)[i := ep_owned e]" using assms(4) by (simp add: owned_update_ep)
  then have l: "i < length (pool_endpoints p')" using assms(3) by (metis length_list_update length_map owned_def)
  have "ep_owned (pool_endpoints p' ! i) = ep_owned e" using owned_nth[OF l] o assms(3) by (simp add: owned_def)
  from session_lender.loan_is_neutral[OF endpoint_lends[OF assms(1)] assms(2) this] owned_nth[OF assms(3)]
  show ?thesis by (metis list_update_id list_update_overwrite o owned_update_ep)
qed

lemma ep_owned_plain [simp]:
  "ep_owned (incrementFailCount e) = ep_owned e" "ep_owned (resetFailCount e) = ep_owned e"
  "ep_owned (recordSuccess e) = ep_owned e" "ep_owned (recordLatency_among ws d e) = ep_owned e"
  "ep_owned (markDead e) = ep_owned e" "ep_owned (setState s e) = ep_owned e"
  by (simp_all add: ep_owned_def incrementFailCount_def resetFailCount_def recordSuccess_def resetTier_def
      countSuccess_def recordLatency_among_def markDead_def setState_def)

lemma ep_owned_markFailed: "markFailed now b m e = Done e' \<Longrightarrow> ep_owned e' = ep_owned e"
  by (auto simp: markFailed_def Let_def ep_owned_def cancel_timer_def split: option.splits)

lemma owned_recordDomainBlock [simp]: "owned (the (recordDomainBlock now i d (Some p))) = owned p"
  by (simp add: recordDomainBlock_def owned_def)

lemma owned_penalise:
  assumes "penalise now others retry th d i p = Done p'" "\<And>p. owned (others p) = owned p"
    "i < length (pool_endpoints p)"
  shows "owned p' = owned p"
proof -
  let ?p1 = "update_ep i incrementFailCount p"
  let ?p2 = "others (the (recordDomainBlock now (ep_index (pool_endpoints ?p1 ! i)) d (Some ?p1)))"
  have o: "owned ?p2 = owned p" by (simp add: assms(2) owned_update_same)
  show ?thesis
  proof (cases "sint th \<le> sint (ep_failCount (pool_endpoints ?p2 ! i))")
    case True
    then obtain e where e: "markFailed now (rc_CooldownPeriod retry) (rc_MaxCooldown retry) (pool_endpoints ?p2 ! i) = Done e"
      "p' = update_ep i (\<lambda>_. e) ?p2"
      using assms(1) by (auto simp: penalise_def Let_def run_ep_def)
    have "i < length (pool_endpoints ?p2)" using length_owned[OF o] assms(3) by simp
    then have "owned p' = owned ?p2"
      using ep_owned_markFailed[OF e(1)] owned_nth[of i ?p2] unfolding e(2) owned_update_ep
      by (simp add: list_update_same_conv owned_def)
    with o show ?thesis by simp
  next
    case False
    then show ?thesis using assms(1) o by (simp add: penalise_def Let_def)
  qed
qed

lemma owned_settle:
  assumes "settle q rx uni det retry th d env i out p = Done (res, p')" "neutral env" "i < length (pool_endpoints p)"
  shows "owned p' = owned p"
proof -
  let ?p1 = "update_ep i (recordLatency_among (ae_latencies env) (ae_elapsed env)) p"
  have o: "owned ?p1 = owned p" and l: "i < length (pool_endpoints ?p1)"
    using assms(3) by (simp_all add: owned_update_same)
  have pen: "owned p'' = owned p" if "penalise (ae_now env) (ae_counted env) retry th d i ?p1 = Done p''" for p''
    using owned_penalise[OF that _ l] assms(2) o by (simp add: neutral_def)
  obtain resp err where out: "out = (resp, err)" by fastforce
  show ?thesis
    using assms(1) o pen
    by (auto simp: settle_def Let_def out owned_update_same split: option.splits if_splits)
qed

lemma owned_getNext:
  "getNextEndpointForDomain d obs u (Some p) = (sel, p') \<Longrightarrow> owned (the p') = owned p"
  using getNext_alive[of d obs u p _ p'] getNext_none[of d obs u p _ p']
  by (cases sel) (auto simp: owned_def)

text \<open>The three ways an attempt ends: no endpoint, no session, or an outcome that is settled.\<close>

lemma attempt_cases:
  assumes at: "attempt q rx uni det retry th d envs st = Done (res, st')"
  defines "env \<equiv> envs (cs_attempts st)"
  defines "p \<equiv> ae_before env (cs_pool st)"
  obtains (no_endpoint) p' where
      "getNextEndpointForDomain d (ae_obs env p) (ae_rand env) (Some p) = (Inl ErrAllProxiesBlocked, p')"
      "res = Some (Unrecoverable ErrAllProxiesBlocked)"
      "st' = st\<lparr>cs_attempts := Suc (cs_attempts st), cs_pool := the p'\<rparr>"
  | (no_session) i p' err e where
      "getNextEndpointForDomain d (ae_obs env p) (ae_rand env) (Some p) = (Inr i, p')"
      "acquireSession (ae_acquire env) (pool_endpoints (ae_selected env (the p')) ! i) = Done (Inl err, e)"
      "res = Some (ErrWrap ''acquiring session: '' err [])"
      "st' = st\<lparr>cs_attempts := Suc (cs_attempts st), cs_pool := update_ep i (\<lambda>_. e) (ae_selected env (the p'))\<rparr>"
  | (settled) i p' s e p4 where
      "getNextEndpointForDomain d (ae_obs env p) (ae_rand env) (Some p) = (Inr i, p')"
      "acquireSession (ae_acquire env) (pool_endpoints (ae_selected env (the p')) ! i) = Done (Inr s, e)"
      "settle q rx uni det retry th d env i (ae_fn env s)
         (ae_during env (update_ep i (\<lambda>_. e) (ae_selected env (the p')))) = Done (res, p4)"
      "st' = st\<lparr>cs_attempts := Suc (cs_attempts st), cs_pool := update_ep i (releaseSession (Some s)) p4,
                cs_lastResp := fst (ae_fn env s), cs_lastErr := snd (ae_fn env s)\<rparr>"
proof -
  obtain sel p' where sel: "getNextEndpointForDomain d (ae_obs env p) (ae_rand env) (Some p) = (sel, p')"
    by fastforce
  note at' = at[unfolded attempt_def Let_def, simplified, folded env_def, folded p_def, unfolded sel prod.case]
  show thesis
  proof (cases sel)
    case (Inl e)
    then have "e = ErrAllProxiesBlocked" using getNext_none sel by blast
    then show thesis using no_endpoint[of p'] sel Inl at' by auto
  next
    case (Inr i)
    from at'[unfolded Inr sum.case] obtain r e where
      acq: "acquireSession (ae_acquire env) (pool_endpoints (ae_selected env (the p')) ! i) = Done (r, e)" by auto
    note at2 = at'[unfolded Inr sum.case acq bind_run.simps prod.case]
    show thesis
    proof (cases r)
      case (Inl err)
      then show thesis using no_session[of i p' err e] sel \<open>sel = Inr i\<close> acq at2 by auto
    next
      case (Inr s)
      then show thesis using settled[of i p' s e] sel \<open>sel = Inr i\<close> acq at2 by auto
    qed
  qed
qed

text \<open>An attempt puts back what it borrows, on every path.\<close>

lemma owned_attempt:
  assumes "attempt q rx uni det retry th d envs st = Done (res, st')" "\<And>k. neutral (envs k)"
  shows "owned (cs_pool st') = owned (cs_pool st)"
proof -
  define env where "env = envs (cs_attempts st)"
  have nt: "neutral env" using assms(2) by (simp add: env_def)
  have sel: "owned (ae_selected env (the p')) = owned (cs_pool st)" "owned (the p') = owned (cs_pool st)"
    "sl = Inr i \<Longrightarrow> i < length (pool_endpoints (ae_selected env (the p')))"
    if "getNextEndpointForDomain d (ae_obs env (ae_before env (cs_pool st))) (ae_rand env)
      (Some (ae_before env (cs_pool st))) = (sl, p')" for sl i p'
  proof -
    show o: "owned (the p') = owned (cs_pool st)" using owned_getNext[OF that] nt by (simp add: neutral_def)
    then show o2: "owned (ae_selected env (the p')) = owned (cs_pool st)" using nt by (simp add: neutral_def)
    assume "sl = Inr i"
    then have "i < length (pool_endpoints (the p'))" using getNext_alive that by fastforce
    then show "i < length (pool_endpoints (ae_selected env (the p')))" using length_owned o o2 by metis
  qed
  have na: "neutral_acquire (ae_acquire env)" using nt by (simp add: neutral_def)
  show ?thesis
  proof (cases rule: attempt_cases[OF assms(1), folded env_def])
    case (1 p')
    then show ?thesis using sel by simp
  next
    case (2 i p' err e)
    then show ?thesis using sel(1)[OF 2(1)] owned_no_session[OF na 2(2)] sel(3)[OF 2(1)] by simp
  next
    case (3 i p' s e p4)
    let ?p2 = "ae_selected env (the p')"
    have i: "i < length (pool_endpoints ?p2)" using sel(3)[OF 3(1)] by simp
    have during: "owned (ae_during env (update_ep i (\<lambda>_. e) ?p2)) = owned (update_ep i (\<lambda>_. e) ?p2)"
      using nt by (simp add: neutral_def)
    have "owned p4 = owned (update_ep i (\<lambda>_. e) ?p2)"
      using owned_settle[OF 3(3) nt] during length_owned[OF during] i by simp
    from owned_borrow[OF na 3(2) i this] show ?thesis using sel(1)[OF 3(1)] 3(4) by simp
  qed
qed

lemma attempts_attempt:
  assumes "attempt q rx uni det retry th d envs st = Done (res, st')"
  shows "cs_attempts st' = Suc (cs_attempts st)"
  by (cases rule: attempt_cases[OF assms]) simp_all

text \<open>What a successful attempt leaves: a response or nil with a nil error, not judged as blocked.\<close>

lemma settle_success:
  "settle q rx uni det retry th d env i out p = Done (None, p') \<Longrightarrow>
   snd out = None \<and> \<not> IsBlocked rx uni (Some det) (fst out)"
  by (cases out) (auto simp: settle_def Let_def split: option.splits if_splits)

lemma attempt_success:
  assumes "attempt q rx uni det retry th d envs st = Done (None, st')"
  shows "\<exists>s. ae_fn (envs (cs_attempts st)) s = (cs_lastResp st', None) \<and> \<not> IsBlocked rx uni (Some det) (cs_lastResp st')"
proof (cases rule: attempt_cases[OF assms])
  case (3 i p' s e p4)
  with settle_success[OF 3(3)] show ?thesis by (metis (no_types, lifting) call_state.select_convs(2) call_state.surjective
    call_state.update_convs(2,3) prod.collapse)
qed simp_all

section \<open>The whole request\<close>

text \<open>A client as \<open>New\<close> builds it: the list and the map hold the same names, and the retry
  configuration is complete.\<close>

definition client_ok :: "Client \<Rightarrow> bool" where
  "client_ok c \<longleftrightarrow> set (cl_poolNames c) = dom (cl_pools c) \<and> retry_positive (cl_retry c)"

lemma resolvePool_found:
  assumes "resolvePool q name c = Inr n" "client_ok c"
  obtains p where "cl_pools c n = Some p"
proof -
  have "n \<in> dom (cl_pools c)"
  proof (cases "name = []")
    case True
    then have "length (cl_poolNames c) = 1" "n = cl_poolNames c ! 0"
      using assms(1) by (auto simp: resolvePool_def split: if_splits)
    then have "n \<in> set (cl_poolNames c)" by simp
    then show ?thesis using assms(2) by (simp add: client_ok_def)
  next
    case False
    then show ?thesis using assms(1) by (auto simp: resolvePool_def split: option.splits)
  qed
  then show thesis using that by blast
qed

lemma attempts_positive: "client_ok c \<Longrightarrow> 0 < unat (rc_MaxAttempts (cl_retry c))"
proof -
  assume "client_ok c"
  then have "0 < sint (rc_MaxAttempts (cl_retry c))" by (simp add: client_ok_def retry_positive_def)
  then have "rc_MaxAttempts (cl_retry c) \<noteq> 0" by auto
  then show ?thesis by (simp add: unat_gt_0)
qed

lemma DoForDomain_cases:
  assumes "DoForDomain retry_do q rx uni envs poolName d c = Done (out, c')" "client_ok c"
  obtains (unresolved) err where "resolvePool q poolName c = Inl err" "out = (None, Some err)" "c' = c"
  | (ran) name p err st where "resolvePool q poolName c = Inr name" "cl_pools c name = Some p"
      "retry_do (unat (rc_MaxAttempts (cl_retry c))) retry_if
         (attempt q rx uni (cl_detector c) (cl_retry c) (failThreshold (cl_retry c)) d envs) (start_call p) = Done (err, st)"
      "out = result_of err st" "c' = c\<lparr>cl_pools := (cl_pools c)(name \<mapsto> cs_pool st)\<rparr>"
proof (cases "resolvePool q poolName c")
  case (Inl err)
  then have "Done ((None, Some err), c) = Done (out, c')"
    using assms(1) unfolding DoForDomain_def by simp
  then have "out = (None, Some err)" "c' = c" by auto
  with Inl show thesis by (rule unresolved)
next
  case (Inr name)
  then obtain p where p: "cl_pools c name = Some p" using resolvePool_found assms(2) by blast
  then obtain err st where "retry_do (unat (rc_MaxAttempts (cl_retry c))) retry_if
         (attempt q rx uni (cl_detector c) (cl_retry c) (failThreshold (cl_retry c)) d envs) (start_call p) = Done (err, st)"
    "out = result_of err st" "c' = c\<lparr>cl_pools := (cl_pools c)(name \<mapsto> cs_pool st)\<rparr>"
    using assms(1) Inr by (auto simp: DoForDomain_def Let_def)
  with ran[OF Inr p] show thesis by blast
qed

text \<open>A request makes at most \<open>MaxAttempts\<close> attempts, and when it returns without an error it
  returns the response its request function gave, without an error, in one of those attempts, and
  the detector does not judge that response as blocked.\<close>

lemma genuine_success:
  assumes "retrier retry_do" and "client_ok c"
    and "DoForDomain retry_do q rx uni envs poolName d c = Done ((resp, None), c')"
  shows "\<exists>r k s. resp = Some r \<and> k < unat (rc_MaxAttempts (cl_retry c)) \<and> ae_fn (envs k) s = (Some r, None) \<and>
    \<not> IsBlocked rx uni (Some (cl_detector c)) (Some r)"
proof (cases rule: DoForDomain_cases[OF assms(3,2)])
  case (2 n p err st)
  let ?f = "attempt q rx uni (cl_detector c) (cl_retry c) (failThreshold (cl_retry c)) d envs"
  from 2(4) have err: "err = None" and r: "resp = cs_lastResp st" "resp \<noteq> None"
    by (auto simp: result_of_def split: option.splits)
  obtain s1 where s1: "?f s1 = Done (None, st)"
    using retrier.succeeds[OF assms(1) attempts_positive[OF assms(2)] 2(3)[unfolded err], where P = "\<lambda>_. True"] by auto
  have "cs_attempts st \<le> cs_attempts (start_call p) + unat (rc_MaxAttempts (cl_retry c))"
    by (rule retrier.counts[OF assms(1) attempts_positive[OF assms(2)] 2(3)]) (rule attempts_attempt)
  then have "cs_attempts s1 < unat (rc_MaxAttempts (cl_retry c))"
    using attempts_attempt[OF s1] by (simp add: start_call_def)
  moreover obtain s where "ae_fn (envs (cs_attempts s1)) s = (resp, None)" "\<not> IsBlocked rx uni (Some (cl_detector c)) resp"
    using attempt_success[OF s1] r(1) by blast
  ultimately show ?thesis using r(2) by (metis not_None_eq)
qed simp

section \<open>Properties\<close>

text \<open>C1. Every session a request borrows is given back: whatever happened in its attempts (no
  endpoint, no session, transport errors, blocks, cooldowns, a client closed meanwhile), after the
  request every endpoint answers for exactly the sessions it had before.\<close>

theorem request_returns_sessions:
  assumes "retrier retry_do" and "client_ok c" and "\<And>k. neutral (envs k)"
    and "DoForDomain retry_do q rx uni envs poolName d c = Done (out, c')"
  shows "map_option owned (cl_pools c' name) = map_option owned (cl_pools c name)"
proof (cases rule: DoForDomain_cases[OF assms(4,2)])
  case (2 n p err st)
  have "owned (cs_pool st) = owned p"
    by (rule retrier.keeps[OF assms(1) attempts_positive[OF assms(2)] 2(3), where P = "\<lambda>s. owned (cs_pool s) = owned p"])
       (auto simp: start_call_def dest: owned_attempt[OF _ assms(3)])
  then show ?thesis using 2 by simp
qed simp

text \<open>An error is never silent: a request that returns gives a response or an error (possibly
  both, a blocking response for inspection), never neither.\<close>

lemma request_gives_something:
  assumes "DoForDomain retry_do q rx uni envs poolName d c = Done (out, c')"
  shows "out \<noteq> (None, None)"
  using assms by (auto simp: DoForDomain_def Let_def result_of_def split: sum.splits option.splits)

section \<open>Failures and cooldown\<close>

lemma penalise_endpoint:
  assumes "i < length (pool_endpoints p)" "sint (ep_failCount (pool_endpoints p ! i)) < 2 ^ 31 - 1"
  defines "e \<equiv> incrementFailCount (pool_endpoints p ! i)"
  shows "penalise now (\<lambda>p. p) retry th d i p =
    (let p1 = the (recordDomainBlock now (ep_index (pool_endpoints p ! i)) d (Some (update_ep i incrementFailCount p)))
     in if sint th \<le> sint (ep_failCount (pool_endpoints p ! i)) + 1
        then bind_run (markFailed now (rc_CooldownPeriod retry) (rc_MaxCooldown retry) e) (\<lambda>e'. Done (update_ep i (\<lambda>_. e') p1))
        else Done p1)"
proof -
  have "sint (ep_failCount e) = sint (ep_failCount (pool_endpoints p ! i)) + 1"
    unfolding e_def incrementFailCount_def using sint_inc32[OF assms(2)] by simp
  then show ?thesis using assms(1)
    by (simp add: penalise_def Let_def run_ep_def recordDomainBlock_def e_def update_ep_def incrementFailCount_def)
qed

text \<open>The endpoint that was blocked, before its cooldown starts if it does.\<close>

lemma tier_inc:
  assumes "0 \<le> sint (ep_cooldownTier e)" "sint (ep_cooldownTier e) < 2 ^ 31 - 1"
  shows "\<exists>dur. cooldown_duration b m (ep_cooldownTier e + 1) = Done dur"
  by (rule cooldown_duration_runs) (use sint_inc32[OF assms(2)] assms(1) in simp)

text \<open>C15. A block counts, and crossing the threshold cools the endpoint down: the fail count goes up
  by one, the domain is recorded so that the penalty applies, no other endpoint changes, and the
  endpoint is in cooldown with an escalated tier exactly if the count has reached the threshold.\<close>

theorem penalise_effect:
  assumes "i < length (pool_endpoints p)" and "sint (ep_failCount (pool_endpoints p ! i)) < 2 ^ 31 - 1"
    and "0 \<le> sint (ep_cooldownTier (pool_endpoints p ! i))" and "sint (ep_cooldownTier (pool_endpoints p ! i)) < 2 ^ 31 - 1"
    and "dm \<noteq> []" and "\<not> ttl_outlived (pool_domains p) (later - now)"
  shows "\<exists>p'. penalise now (\<lambda>p. p) retry th dm i p = Done p' \<and>
    (let e = pool_endpoints p ! i; e' = pool_endpoints p' ! i in
      sint (ep_failCount e') = sint (ep_failCount e) + 1 \<and>
      fst (PenaltyFor later (ep_index e) dm (pool_domains p')) = effective_penalty (pool_domains p) \<and>
      (if sint th \<le> sint (ep_failCount e) + 1
       then ep_state e' = StateCooldown \<and> sint (ep_cooldownTier e') = sint (ep_cooldownTier e) + 1
       else ep_state e' = ep_state e \<and> ep_cooldownTier e' = ep_cooldownTier e)) \<and>
    length (pool_endpoints p') = length (pool_endpoints p) \<and>
    (\<forall>j. j \<noteq> i \<longrightarrow> pool_endpoints p' ! j = pool_endpoints p ! j)"
proof -
  let ?e = "pool_endpoints p ! i"
  let ?e1 = "incrementFailCount ?e"
  let ?p1 = "the (recordDomainBlock now (ep_index ?e) dm (Some (update_ep i incrementFailCount p)))"
  have f: "sint (ep_failCount ?e1) = sint (ep_failCount ?e) + 1" "ep_cooldownTier ?e1 = ep_cooldownTier ?e"
    "ep_state ?e1 = ep_state ?e"
    using sint_inc32[OF assms(2)] by (simp_all add: incrementFailCount_def)
  have t: "sint (ep_cooldownTier ?e + 1) = sint (ep_cooldownTier ?e) + 1" by (rule sint_inc32[OF assms(4)])
  obtain dur where dur: "cooldown_duration (rc_CooldownPeriod retry) (rc_MaxCooldown retry) (ep_cooldownTier ?e1 + 1) = Done dur"
    using tier_inc[of ?e1] assms(3,4) f(2) by auto
  then have mf: "markFailed now (rc_CooldownPeriod retry) (rc_MaxCooldown retry) ?e1 = Done (cooled now dur ?e1)"
    by (auto simp: markFailed_Done)
  have pen: "fst (PenaltyFor later (ep_index ?e) dm (pool_domains ?p1)) = effective_penalty (pool_domains p)"
    using tracker.fresh_block[OF assms(5,6)] by (simp add: recordDomainBlock_def)
  have p1: "length (pool_endpoints ?p1) = length (pool_endpoints p)" "pool_endpoints ?p1 ! i = ?e1"
    "j \<noteq> i \<Longrightarrow> pool_endpoints ?p1 ! j = pool_endpoints p ! j" for j
    using assms(1) by (simp_all add: recordDomainBlock_def)
  show ?thesis
  proof (cases "sint th \<le> sint (ep_failCount ?e) + 1")
    case True
    then have "penalise now (\<lambda>p. p) retry th dm i p = Done (update_ep i (\<lambda>_. cooled now dur ?e1) ?p1)"
      using penalise_endpoint[OF assms(1,2)] mf by (simp add: Let_def)
    then show ?thesis using True f t pen p1 assms(1)
      by (intro exI[of _ "update_ep i (\<lambda>_. cooled now dur ?e1) ?p1"]) (simp add: Let_def cooled_def)
  next
    case False
    then have "penalise now (\<lambda>p. p) retry th dm i p = Done ?p1"
      using penalise_endpoint[OF assms(1,2)] by (simp add: Let_def)
    then show ?thesis using False f pen p1 assms(1) by (intro exI[of _ ?p1]) (simp add: Let_def)
  qed
qed

text \<open>What an outcome that is no block does to its endpoint, and to nothing else: every request is
  counted and its latency folded in; a transport error is not held against the endpoint; a success is
  counted and wipes its failures and the escalation of its cooldown, and leaves its state alone.\<close>

lemma settle_unblocked:
  fixes env p i
  defines "sampled \<equiv> (\<lambda>e. e\<lparr>ep_totalReqs := ep_totalReqs e + 1,
      ep_avgLatency := latency_loop (ae_elapsed env) (ep_avgLatency e) (ae_latencies env)\<rparr>)"
  shows "(\<not> IsBlockedError q uni (Some det) (Some err) \<longrightarrow>
      settle q rx uni det retry th dm env i (resp, Some err) p = Done (Some err, update_ep i sampled p)) \<and>
    (i < length (pool_endpoints p) \<and> \<not> IsBlocked rx uni (Some det) resp \<longrightarrow>
      settle q rx uni det retry th dm env i (resp, None) p =
        Done (None, update_ep i (\<lambda>e. (sampled e)\<lparr>ep_successReqs := ep_successReqs e + 1,
          ep_cooldownTier := 0, ep_failCount := 0\<rparr>) p))"
  by (simp add: settle_def Let_def recordLatency_among_def[abs_def] recordSuccess_def countSuccess_def resetTier_def
      resetFailCount_def sampled_def update_ep_def)

section \<open>Ping\<close>

lemma ping_verdict_cases:
  assumes "ping_verdict out = Done v"
  shows "v = None \<longleftrightarrow> (\<exists>r. out = (Some r, None) \<and> 200 \<le> sint (resp_StatusCode r) \<and> sint (resp_StatusCode r) < 400)"
  using assms by (cases out) (auto simp: ping_verdict_def Let_def not_less not_le split: option.splits if_splits)

text \<open>The four ways a ping ends: refused at once, no endpoint, no session, or the verdict on an answer.\<close>

definition probe_request :: "string \<Rightarrow> 'v Request" where
  "probe_request u = \<lparr> rq_Method = ''GET'', rq_URL = u, rq_Body = NilBody, rq_Headers = [] \<rparr>"

lemma ping_cases:
  fixes session_do :: "session \<Rightarrow> 'v Request \<Rightarrow> outcome"
  assumes ping: "Ping q session_do env pool probeURL c = Done (v, c')" and ok: "client_ok c"
  obtains (refused) "v \<noteq> None" "c' = c"
  | (no_endpoint) name p err p' where "cl_pools c name = Some p"
      "getNextEndpointForDomain [] (ae_obs env p) (ae_rand env) (Some p) = (Inl err, Some p')"
      "v = Some err" "c' = c\<lparr>cl_pools := (cl_pools c)(name \<mapsto> p')\<rparr>"
  | (no_session) name p i p' err e where "cl_pools c name = Some p"
      "getNextEndpointForDomain [] (ae_obs env p) (ae_rand env) (Some p) = (Inr i, Some p')"
      "acquireSession (ae_acquire env) (pool_endpoints (ae_selected env p') ! i) = Done (Inl err, e)"
      "v \<noteq> None" "c' = c\<lparr>cl_pools := (cl_pools c)(name \<mapsto> update_ep i (\<lambda>_. e) (ae_selected env p'))\<rparr>"
  | (answered) name p i p' s e where "resolvePool q pool c = Inr name" "cl_pools c name = Some p"
      "getNextEndpointForDomain [] (ae_obs env p) (ae_rand env) (Some p) = (Inr i, Some p')"
      "acquireSession (ae_acquire env) (pool_endpoints (ae_selected env p') ! i) = Done (Inr s, e)"
      "ping_verdict (session_do s (probe_request probeURL)) = Done v"
      "c' = c\<lparr>cl_pools := (cl_pools c)(name \<mapsto>
         update_ep i (releaseSession (Some s)) (ae_during env (update_ep i (\<lambda>_. e) (ae_selected env p'))))\<rparr>"
proof (cases "probeURL = [] \<or> isl (resolvePool q pool c)")
  case True
  then show ?thesis using ping refused by (auto simp: Ping_def split: if_splits sum.splits)
next
  case False
  then obtain name where name: "resolvePool q pool c = Inr name" by (cases "resolvePool q pool c") auto
  obtain p where p: "cl_pools c name = Some p" using resolvePool_found[OF name ok] .
  obtain sel p' where sel: "getNextEndpointForDomain [] (ae_obs env p) (ae_rand env) (Some p) = (sel, Some p')"
    using getNext_pool by blast
  have ne: "probeURL \<noteq> []" using False by simp
  note run = ping[unfolded Ping_def getNextEndpoint_def name sum.case if_not_P[OF ne] p option.sel Let_def sel prod.case]
  show ?thesis
  proof (cases sel)
    case (Inl err)
    then show ?thesis using run no_endpoint[OF p, of err p'] sel by auto
  next
    case (Inr i)
    with run obtain r e where acq: "acquireSession (ae_acquire env) (pool_endpoints (ae_selected env p') ! i) = Done (r, e)" by auto
    then show ?thesis
      using run sel Inr no_session[OF p, of i p' _ e] answered[OF name p, of i p' _ e]
      by (cases r) (auto simp: Let_def probe_request_def)
  qed
qed

text \<open>C32. \<open>Ping\<close> is honest and leaks nothing: it returns nil only if an endpoint the scan saw alive gave it
  a session on which the request to the probe URL was answered, without an error, with a status from
  200 to 399; and on every path each endpoint answers for the sessions it had before.\<close>

theorem ping_is_honest:
  fixes session_do :: "session \<Rightarrow> 'v Request \<Rightarrow> outcome"
  assumes "Ping q session_do env pool probeURL c = Done (v, c')" and "client_ok c" and "neutral env"
  shows "(\<forall>name. map_option owned (cl_pools c' name) = map_option owned (cl_pools c name)) \<and>
    (v = None \<longrightarrow> (\<exists>name p i s r. resolvePool q pool c = Inr name \<and> cl_pools c name = Some p \<and>
       i < length (pool_endpoints p) \<and> isAvailable (so_avail (ae_obs env p i)) \<and>
       session_do s \<lparr> rq_Method = ''GET'', rq_URL = probeURL, rq_Body = NilBody, rq_Headers = [] \<rparr> = (Some r, None) \<and>
       200 \<le> sint (resp_StatusCode r) \<and> sint (resp_StatusCode r) < 400))"
proof -
  have na: "neutral_acquire (ae_acquire env)" using assms(3) by (simp add: neutral_def)
  have upd: "map_option owned (((cl_pools c)(name \<mapsto> x)) n) = map_option owned (cl_pools c n)"
    if "owned x = owned p" "cl_pools c name = Some p" for name p x n
    using that by simp
  have sel: "owned (ae_selected env p') = owned p" "owned p' = owned p"
    if "getNextEndpointForDomain [] (ae_obs env p) (ae_rand env) (Some p) = (r, Some p')" for p p' r
    using owned_getNext[OF that] assms(3) by (simp_all add: neutral_def)
  have range: "i < length (pool_endpoints (ae_selected env p'))"
    if "getNextEndpointForDomain [] (ae_obs env p) (ae_rand env) (Some p) = (Inr i, Some p')" for p p' i
    using getNext_alive[OF that] length_owned[OF sel(1)[OF that]] by simp
  show ?thesis
  proof (cases rule: ping_cases[OF assms(1,2)])
    case (2 name p err p')
    then show ?thesis using upd[OF sel(2)[OF 2(2)]] by simp
  next
    case (3 name p i p' err e)
    then show ?thesis using upd owned_no_session[OF na 3(3) range[OF 3(2)]] sel(1)[OF 3(2)] by auto
  next
    case (4 name p i p' s e)
    let ?p = "ae_during env (update_ep i (\<lambda>_. e) (ae_selected env p'))"
    have "owned (update_ep i (releaseSession (Some s)) ?p) = owned p"
      using owned_borrow[OF na 4(4) range[OF 4(3)], of ?p] assms(3) sel(1)[OF 4(3)] by (simp add: neutral_def)
    then have "map_option owned (cl_pools c' n) = map_option owned (cl_pools c n)" for n using upd 4(2,6) by simp
    then show ?thesis using ping_verdict_cases[OF 4(5)] 4(1,2) getNext_alive[OF 4(3)] unfolding probe_request_def by blast
  qed auto
qed

section \<open>Runs on a pool of one endpoint\<close>

definition quiet_env :: "(session \<Rightarrow> outcome) \<Rightarrow> attempt_env" where
  "quiet_env fn = \<lparr> ae_before = (\<lambda>p. p), ae_obs = quiet 0, ae_rand = FNum 0, ae_selected = (\<lambda>p. p),
     ae_acquire = quiet_acquire, ae_fn = fn, ae_during = (\<lambda>p. p), ae_elapsed = 1000000, ae_latencies = [],
     ae_counted = (\<lambda>p. p), ae_now = 0 \<rparr>"

lemma quiet_env_neutral: "neutral (quiet_env fn)"
  by (simp add: neutral_def neutral_acquire_def quiet_env_def quiet_acquire_def)

definition solo :: Pool where
  "solo = blank_pool sample_config DefaultRetryConfig [sample_endpoint]"

definition solo_client :: Client where
  "solo_client = \<lparr> cl_pools = [''p'' \<mapsto> solo], cl_poolNames = [''p''], cl_detector = default_detector id,
     cl_retry = DefaultRetryConfig \<rparr>"

lemma solo_client_ok: "client_ok solo_client"
  by (simp add: client_ok_def solo_client_def default_retry_positive)

lemma solo_fields:
  "pool_endpoints solo = [sample_endpoint]" "pool_domains solo = NewTracker 0 (FNum 0)"
  by (simp_all add: solo_def blank_pool_def sample_config_def)

lemma solo_attempts: "unat (rc_MaxAttempts DefaultRetryConfig) = 3"
  by (simp add: DefaultRetryConfig_def)

lemma sample_endpoint_facts:
  "isAvailable sample_endpoint" "\<not> ep_closed sample_endpoint" "ep_limiter sample_endpoint = None"
  "ep_sessions sample_endpoint = [0, 1]"
  by (simp_all add: isAvailable_def sample_endpoint_eq blank_endpoint_def)

lemma solo_attempt:
  assumes "envs (cs_attempts st) = quiet_env fn" "pool_endpoints (cs_pool st) = [e]"
    "isAvailable e" "\<not> ep_closed e" "ep_limiter e = None" "ep_sessions e = s # ss"
  shows "attempt q rx uni det retry th d envs st =
    bind_run (settle q rx uni det retry th d (quiet_env fn) 0 (fn s)
        (update_ep 0 (\<lambda>_. e\<lparr>ep_sessions := ss\<rparr>) (cs_pool st)))
      (\<lambda>(res, p). Done (res, st\<lparr>cs_attempts := Suc (cs_attempts st), cs_pool := update_ep 0 (releaseSession (Some s)) p,
         cs_lastResp := fst (fn s), cs_lastErr := snd (fn s)\<rparr>))"
proof -
  have "acq_select CaseSession e = Done (Inr s, e\<lparr>ep_sessions := ss\<rparr>)" using assms(6) by (simp add: acq_select.simps)
  then have acq: "acquireSession quiet_acquire e = Done (Inr s, e\<lparr>ep_sessions := ss\<rparr>)"
    using assms(4,5) by (simp add: acquireSession_def quiet_acquire_def acq_enter_def acq_limited_def acq_recheck_def)
  have sel: "getNextEndpointForDomain d (quiet 0 (cs_pool st)) (FNum 0) (Some (cs_pool st)) = (Inr 0, Some (cs_pool st))"
    using assms(2,3) by (simp add: getNextEndpointForDomain_def quiet_def)
  have env: "ae_before (quiet_env fn) = (\<lambda>p. p)" "ae_obs (quiet_env fn) = quiet 0" "ae_rand (quiet_env fn) = FNum 0"
    "ae_selected (quiet_env fn) = (\<lambda>p. p)" "ae_acquire (quiet_env fn) = quiet_acquire" "ae_fn (quiet_env fn) = fn"
    "ae_during (quiet_env fn) = (\<lambda>p. p)"
    by (simp_all add: quiet_env_def)
  show ?thesis
    unfolding attempt_def Let_def assms(1) env
    using assms(2) by (simp add: sel acq)
qed

definition ok_response :: Response where
  "ok_response = \<lparr> resp_StatusCode = 200, resp_Status = ''200 OK'', resp_Body = ''hello'', resp_Header = [] \<rparr>"

lemma ok_not_blocked: "\<not> IsBlocked rx uni (Some (default_detector id)) (Some ok_response)"
  using default_codes[of id 200] by (simp add: IsBlocked_def ok_response_def)

lemma solo_success:
  "\<exists>c'. DoForDomain retry_loop id rx id (\<lambda>_. quiet_env (\<lambda>_. (Some ok_response, None))) ''p'' [] solo_client =
     Done ((Some ok_response, None), c')"
proof -
  let ?env = "quiet_env (\<lambda>_. (Some ok_response, None))"
  have "\<exists>p'. settle id rx id (default_detector id) DefaultRetryConfig th [] ?env 0 (Some ok_response, None) p = Done (None, p')"
    for th p
    by (simp add: settle_def Let_def ok_not_blocked)
  then have "\<exists>st. attempt id rx id (default_detector id) DefaultRetryConfig th [] (\<lambda>_. ?env) (start_call solo) = Done (None, st) \<and>
      cs_lastResp st = Some ok_response" for th
    using solo_attempt[of "\<lambda>_. ?env" "start_call solo" "\<lambda>_. (Some ok_response, None)" sample_endpoint 0 "[1]" id rx id
        "default_detector id" DefaultRetryConfig th "[]"] sample_endpoint_facts
    by (fastforce simp: start_call_def solo_fields)
  from this[of "failThreshold DefaultRetryConfig"] obtain st where
    "attempt id rx id (default_detector id) DefaultRetryConfig (failThreshold DefaultRetryConfig) [] (\<lambda>_. ?env) (start_call solo) =
       Done (None, st)" "cs_lastResp st = Some ok_response" by blast
  then show ?thesis
    by (simp add: DoForDomain_def resolvePool_def solo_client_def solo_attempts numeral_3_eq_3 result_of_def)
qed

theorem request_returns_sessions_witness:
  "\<exists>c'. DoForDomain retry_loop id no_rx id (\<lambda>_. quiet_env (\<lambda>_. (Some ok_response, None))) ''p'' [] solo_client =
     Done ((Some ok_response, None), c') \<and> map_option owned (cl_pools c' ''p'') = Some [{#0, 1#}]"
proof -
  obtain c' where c: "DoForDomain retry_loop id no_rx id (\<lambda>_. quiet_env (\<lambda>_. (Some ok_response, None))) ''p'' [] solo_client =
     Done ((Some ok_response, None), c')" using solo_success[of no_rx] by blast
  have "owned solo = [{#0, 1#}]" by (simp add: owned_def solo_fields ep_owned_def sample_endpoint_eq blank_endpoint_def)
  with request_returns_sessions[OF loop.retrier_axioms solo_client_ok quiet_env_neutral c, of "''p''"] c
  show ?thesis by (auto simp: solo_client_def)
qed

theorem penalise_effect_witness:
  "\<exists>p'. penalise 0 (\<lambda>p. p) DefaultRetryConfig 1 ''d'' 0 solo = Done p' \<and>
     ep_state (pool_endpoints p' ! 0) = StateCooldown \<and> sint (ep_cooldownTier (pool_endpoints p' ! 0)) = 1"
proof -
  have "\<not> ttl_outlived (pool_domains solo) (5 - 0)"
    by (simp add: solo_fields ttl_outlived_def effective_ttl_def NewTracker_def DefaultBlockTTL_def Minute_def)
  moreover have "ep_failCount sample_endpoint = 0" "ep_cooldownTier sample_endpoint = 0"
    by (simp_all add: sample_endpoint_eq blank_endpoint_def)
  ultimately show ?thesis
    using penalise_effect[of 0 solo "''d''" 5 0 DefaultRetryConfig 1] by (auto simp: solo_fields Let_def)
qed

lemma boom_not_blocked: "\<not> IsBlockedError id id (Some (default_detector id)) (Some (ErrText ''boom''))"
  by code_simp

theorem ping_is_honest_witness:
  "\<exists>c'. Ping id (\<lambda>s (r :: nat Request). (Some ok_response, None)) (quiet_env (\<lambda>_. (None, None))) [] ''http://up'' solo_client = Done (None, c') \<and>
     map_option owned (cl_pools c' ''p'') = Some [{#0, 1#}]"
proof -
  let ?do = "\<lambda>s (r :: nat Request). (Some ok_response, None)" and ?env = "quiet_env (\<lambda>_. (None, None))"
  have sel: "getNextEndpoint (quiet 0 solo) (FNum 0) (Some solo) = (Inr 0, Some solo)"
    using sample_endpoint_facts by (simp add: getNextEndpoint_def getNextEndpointForDomain_def quiet_def solo_fields)
  have acq: "acquireSession quiet_acquire sample_endpoint = Done (Inr 0, sample_endpoint\<lparr>ep_sessions := [1]\<rparr>)"
    using sample_endpoint_facts
    by (simp add: acquireSession_def quiet_acquire_def acq_enter_def acq_limited_def acq_recheck_def acq_select.simps)
  have env: "ae_obs ?env = quiet 0" "ae_rand ?env = FNum 0" "ae_selected ?env = (\<lambda>p. p)" "ae_acquire ?env = quiet_acquire"
    by (simp_all add: quiet_env_def)
  have "\<exists>c'. Ping id ?do ?env [] ''http://up'' solo_client = Done (None, c')"
    unfolding Ping_def env Let_def
    by (simp add: resolvePool_def solo_client_def sel acq solo_fields ping_verdict_def ok_response_def)
  then obtain c' where c': "Ping id ?do ?env [] ''http://up'' solo_client = Done (None, c')" by blast
  have "owned solo = [{#0, 1#}]" by (simp add: owned_def solo_fields ep_owned_def sample_endpoint_eq blank_endpoint_def)
  then have "map_option owned (cl_pools c' ''p'') = Some [{#0, 1#}]"
    using ping_is_honest[OF c' solo_client_ok quiet_env_neutral] by (simp add: solo_client_def)
  with c' show ?thesis by (intro exI[of _ c'] conjI)
qed


end
