(* ===== verification/Health.thy ===== *)
theory Health
  imports Requests
begin

text \<open>
  The background part of \<open>health.go\<close>: one probe of one endpoint, the round over the pool, the loop
  of the goroutine and its end (the struct, \<open>startHealthCheck\<close> and \<open>stop\<close> are in \<open>Pool_Model\<close>).
  As for a request, what the surroundings do between the steps of a probe is an argument.
\<close>

section \<open>A probe\<close>

record probe_env =
  pe_before :: "Pool \<Rightarrow> Pool"
  pe_selected :: "Pool \<Rightarrow> Pool"
  pe_acquire :: acq_env
  pe_during :: "Pool \<Rightarrow> Pool"
  pe_after :: "Pool \<Rightarrow> Pool"
  pe_counted :: "Pool \<Rightarrow> Pool"
  pe_now :: instant

text \<open>The end of \<open>pingEndpoint\<close>: a nil response with a nil error is dereferenced.\<close>

definition probe_verdict :: "outcome \<Rightarrow> gerr option run" where
  "probe_verdict out =
     (case out of
        (resp, Some err) \<Rightarrow> Done (Some err)
      | (None, None) \<Rightarrow> Panic
      | (Some resp, None) \<Rightarrow>
          Done (if sint (resp_StatusCode resp) < 200 \<or> 400 \<le> sint (resp_StatusCode resp)
                then Some (HealthCheckError (resp_StatusCode resp)) else None))"

definition pingEndpoint ::
  "(session \<Rightarrow> 'v Request \<Rightarrow> outcome) \<Rightarrow> string \<Rightarrow> probe_env \<Rightarrow> nat \<Rightarrow> Pool \<Rightarrow> (gerr option \<times> Pool) run" where
  "pingEndpoint session_do url env i p =
     bind_run (acquireSession (pe_acquire env) (pool_endpoints p ! i))
       (\<lambda>(r, e). let p = update_ep i (\<lambda>_. e) p in
          (case r of
             Inl err \<Rightarrow> Done (Some err, p)
           | Inr session \<Rightarrow>
               (let out = session_do session
                      \<lparr> rq_Method = ''GET'', rq_URL = url, rq_Body = NilBody, rq_Headers = [] \<rparr>;
                    p = pe_during env p
                in bind_run (probe_verdict out)
                     (\<lambda>v. Done (v, update_ep i (releaseSession (Some session)) p)))))"

text \<open>What a round does with the result of a probe, and its whole loop body for endpoint \<open>i\<close>.\<close>

definition probe_failed :: "probe_env \<Rightarrow> nat \<Rightarrow> Pool \<Rightarrow> Pool run" where
  "probe_failed env i p =
     (let retry = pool_retryConfig p;
          p = pe_counted env (update_ep i incrementFailCount p)
      in if sint (failThreshold retry) \<le> sint (ep_failCount (pool_endpoints p ! i))
         then run_ep i (markFailed (pe_now env) (rc_CooldownPeriod retry) (rc_MaxCooldown retry)) p
         else Done p)"

definition check_one ::
  "(session \<Rightarrow> 'v Request \<Rightarrow> outcome) \<Rightarrow> string \<Rightarrow> probe_env \<Rightarrow> nat \<Rightarrow> Pool \<Rightarrow> Pool run" where
  "check_one session_do url env i p =
     (let p = pe_before env p in
      if ep_state (pool_endpoints p ! i) \<noteq> StateAlive then Done p
      else bind_run (pingEndpoint session_do url env i (pe_selected env p))
        (\<lambda>(v, p). let p = pe_after env p in
           (case v of
              Some err \<Rightarrow> probe_failed env i p
            | None \<Rightarrow> Done (update_ep i resetFailCount p))))"

section \<open>A round and the loop\<close>

fun check_from ::
  "(session \<Rightarrow> 'v Request \<Rightarrow> outcome) \<Rightarrow> string \<Rightarrow> (nat \<Rightarrow> probe_env) \<Rightarrow> nat list \<Rightarrow> Pool \<Rightarrow> Pool run" where
  "check_from session_do url envs [] p = Done p"
| "check_from session_do url envs (i # is) p =
     bind_run (check_one session_do url (envs i) i p) (check_from session_do url envs is)"

definition checkAll ::
  "(session \<Rightarrow> 'v Request \<Rightarrow> outcome) \<Rightarrow> string \<Rightarrow> (nat \<Rightarrow> probe_env) \<Rightarrow> Pool \<Rightarrow> Pool run" where
  "checkAll session_do url envs p = check_from session_do url envs [0..<length (pool_endpoints p)] p"

text \<open>
  The loop of the goroutine along a schedule: other goroutines act while it waits, its \<open>select\<close>
  takes the ticker's case (with what the sessions answer during the round it starts and the
  surroundings of the round), or the \<open>ctx.Done\<close> case, which is ready only once the checker was stopped.  The result says whether the loop has returned
  by the end of the schedule.
\<close>

datatype 'v hc_event =
    Meanwhile "Pool \<Rightarrow> Pool"
  | Ticked "session \<Rightarrow> 'v Request \<Rightarrow> outcome" "nat \<Rightarrow> probe_env"
  | CtxDone

definition hc_stopped :: "Pool \<Rightarrow> bool" where
  "hc_stopped p = (case pool_health p of None \<Rightarrow> False | Some hc \<Rightarrow> hc_cancelled hc)"

fun hc_run :: "string \<Rightarrow> 'v hc_event list \<Rightarrow> Pool \<Rightarrow> (bool \<times> Pool) run" where
  "hc_run url [] p = Done (False, p)"
| "hc_run url (Meanwhile f # evs) p = hc_run url evs (f p)"
| "hc_run url (Ticked session_do envs # evs) p =
     bind_run (checkAll session_do url envs p) (hc_run url evs)"
| "hc_run url (CtxDone # evs) p = (if hc_stopped p then Done (True, p) else Blocked)"

section \<open>Sessions\<close>

definition neutral_probe :: "probe_env \<Rightarrow> bool" where
  "neutral_probe env \<longleftrightarrow> neutral_acquire (pe_acquire env) \<and>
     (\<forall>p. owned (pe_before env p) = owned p \<and> owned (pe_selected env p) = owned p \<and>
          owned (pe_during env p) = owned p \<and> owned (pe_after env p) = owned p \<and>
          owned (pe_counted env p) = owned p)"

lemma owned_run_ep:
  assumes "run_ep i f p = Done p'" "\<And>e e'. f e = Done e' \<Longrightarrow> ep_owned e' = ep_owned e" "i < length (pool_endpoints p)"
  shows "owned p' = owned p"
proof -
  obtain e where e: "f (pool_endpoints p ! i) = Done e" "p' = update_ep i (\<lambda>_. e) p"
    using assms(1) by (auto simp: run_ep_def)
  then have "ep_owned e = owned p ! i" using assms(2) owned_nth[OF assms(3)] by simp
  then show ?thesis using e(2) by (simp add: owned_update_ep)
qed

lemma owned_pingEndpoint:
  assumes "pingEndpoint session_do url env i p = Done (v, p')" "neutral_probe env" "i < length (pool_endpoints p)"
  shows "owned p' = owned p"
proof -
  have na: "neutral_acquire (pe_acquire env)" using assms(2) by (simp add: neutral_probe_def)
  obtain r e where acq: "acquireSession (pe_acquire env) (pool_endpoints p ! i) = Done (r, e)"
    using assms(1) by (auto simp: pingEndpoint_def)
  show ?thesis
  proof (cases r)
    case (Inl err)
    then have "p' = update_ep i (\<lambda>_. e) p" using assms(1) acq by (simp add: pingEndpoint_def Let_def)
    then show ?thesis using owned_no_session[OF na _ assms(3)] acq Inl by simp
  next
    case (Inr s)
    then have "p' = update_ep i (releaseSession (Some s)) (pe_during env (update_ep i (\<lambda>_. e) p))"
      using assms(1) acq by (auto simp: pingEndpoint_def Let_def)
    then show ?thesis using owned_borrow[OF na _ assms(3)] acq Inr assms(2) by (simp add: neutral_probe_def)
  qed
qed

lemma owned_probe_failed:
  assumes "probe_failed env i p = Done p'" "neutral_probe env" "i < length (pool_endpoints p)"
  shows "owned p' = owned p"
proof -
  let ?p = "pe_counted env (update_ep i incrementFailCount p)"
  have o: "owned ?p = owned p" using assms(2) by (simp add: neutral_probe_def owned_update_same)
  have "i < length (pool_endpoints ?p)" using length_owned[OF o] assms(3) by simp
  then show ?thesis
    using assms(1) o owned_run_ep[OF _ ep_owned_markFailed] by (auto simp: probe_failed_def Let_def split: if_splits)
qed

lemma owned_check_one:
  assumes "check_one session_do url env i p = Done p'" "neutral_probe env" "i < length (pool_endpoints p)"
  shows "owned p' = owned p"
proof (cases "ep_state (pool_endpoints (pe_before env p) ! i) = StateAlive")
  case True
  let ?p1 = "pe_selected env (pe_before env p)"
  have o1: "owned ?p1 = owned p" using assms(2) by (simp add: neutral_probe_def)
  obtain v p2 where ping: "pingEndpoint session_do url env i ?p1 = Done (v, p2)"
    and fin: "(case v of Some err \<Rightarrow> probe_failed env i (pe_after env p2)
               | None \<Rightarrow> Done (update_ep i resetFailCount (pe_after env p2))) = Done p'"
    using assms(1) True by (auto simp: check_one_def Let_def)
  have "i < length (pool_endpoints ?p1)" using length_owned[OF o1] assms(3) by simp
  then have "owned (pe_after env p2) = owned p"
    using owned_pingEndpoint[OF ping assms(2)] o1 assms(2) by (simp add: neutral_probe_def)
  moreover from this have "i < length (pool_endpoints (pe_after env p2))" using length_owned assms(3) by metis
  ultimately show ?thesis
    using fin owned_probe_failed[OF _ assms(2)] by (auto simp: owned_update_same split: option.splits)
next
  case False
  then have "p' = pe_before env p" using assms(1) by (simp add: check_one_def Let_def)
  then show ?thesis using assms(2) by (simp add: neutral_probe_def)
qed

lemma owned_check_from:
  "check_from session_do url envs is p = Done p' \<Longrightarrow> (\<And>i. neutral_probe (envs i)) \<Longrightarrow>
   \<forall>i \<in> set is. i < length (pool_endpoints p) \<Longrightarrow> owned p' = owned p"
proof (induction "is" arbitrary: p)
  case (Cons i "is")
  obtain p1 where one: "check_one session_do url (envs i) i p = Done p1"
    and rest: "check_from session_do url envs is p1 = Done p'" using Cons.prems(1) by auto
  have "owned p1 = owned p" using owned_check_one[OF one Cons.prems(2)] Cons.prems(3) by simp
  moreover from this have "\<forall>j \<in> set is. j < length (pool_endpoints p1)"
    using Cons.prems(3) length_owned by (metis list.set_intros(2))
  ultimately show ?case using Cons.IH[OF rest Cons.prems(2)] by simp
qed simp

lemma owned_checkAll:
  "checkAll session_do url envs p = Done p' \<Longrightarrow> (\<And>i. neutral_probe (envs i)) \<Longrightarrow> owned p' = owned p"
  unfolding checkAll_def by (rule owned_check_from) auto

section \<open>A round nothing interferes with\<close>

definition quiet_probe :: "instant \<Rightarrow> probe_env" where
  "quiet_probe now = \<lparr> pe_before = (\<lambda>p. p), pe_selected = (\<lambda>p. p), pe_acquire = quiet_acquire,
     pe_during = (\<lambda>p. p), pe_after = (\<lambda>p. p), pe_counted = (\<lambda>p. p), pe_now = now \<rparr>"

text \<open>An endpoint a probe gets a session of at once.\<close>

definition ready :: "endpoint \<Rightarrow> bool" where
  "ready e \<longleftrightarrow> \<not> ep_closed e \<and> ep_limiter e = None \<and> ep_sessions e \<noteq> [] \<and>
     int (length (ep_sessions e)) \<le> sint (ep_poolSize e)"

definition rotated :: "endpoint \<Rightarrow> endpoint" where
  "rotated e = e\<lparr>ep_sessions := tl (ep_sessions e) @ [hd (ep_sessions e)]\<rparr>"

text \<open>What a round has to make of an endpoint, given the verdict of its probe.\<close>

definition probed :: "instant \<Rightarrow> RetryConfig \<Rightarrow> gerr option \<Rightarrow> endpoint \<Rightarrow> endpoint run" where
  "probed now retry v e =
     (case v of
        None \<Rightarrow> Done (resetFailCount (rotated e))
      | Some _ \<Rightarrow>
          (let e = incrementFailCount (rotated e) in
           if sint (failThreshold retry) \<le> sint (ep_failCount e)
           then markFailed now (rc_CooldownPeriod retry) (rc_MaxCooldown retry) e else Done e))"

lemma update_ep_update_ep:
  "i < length (pool_endpoints p) \<Longrightarrow> update_ep i f (update_ep i g p) = update_ep i (\<lambda>e. f (g e)) p"
  by (simp add: update_ep_def)

lemma update_ep_cong:
  "f (pool_endpoints p ! i) = g (pool_endpoints p ! i) \<Longrightarrow> update_ep i f p = update_ep i g p"
  by (simp add: update_ep_def)

lemma update_ep_retry [simp]: "pool_retryConfig (update_ep i f p) = pool_retryConfig p"
  by (simp add: update_ep_def)

lemma acquire_ready:
  "ready e \<Longrightarrow> acquireSession quiet_acquire e = Done (Inr (hd (ep_sessions e)), e\<lparr>ep_sessions := tl (ep_sessions e)\<rparr>)"
  by (cases "ep_sessions e")
     (auto simp: ready_def acquireSession_def quiet_acquire_def acq_enter_def acq_limited_def acq_recheck_def
        acq_select.simps Let_def)

lemma release_ready:
  "ready e \<Longrightarrow> releaseSession (Some (hd (ep_sessions e))) (e\<lparr>ep_sessions := tl (ep_sessions e)\<rparr>) = rotated e"
  by (cases "ep_sessions e") (auto simp: ready_def releaseSession_def rotated_def)

abbreviation probe_request :: "string \<Rightarrow> 'v Request" where
  "probe_request url \<equiv> \<lparr> rq_Method = ''GET'', rq_URL = url, rq_Body = NilBody, rq_Headers = [] \<rparr>"

lemma ping_ready:
  assumes "ready (pool_endpoints p ! i)" "i < length (pool_endpoints p)"
  shows "pingEndpoint session_do url (quiet_probe now) i p =
    bind_run (probe_verdict (session_do (hd (ep_sessions (pool_endpoints p ! i))) (probe_request url)))
      (\<lambda>v. Done (v, update_ep i rotated p))"
proof -
  have "update_ep i (\<lambda>e. releaseSession (Some (hd (ep_sessions (pool_endpoints p ! i))))
     ((pool_endpoints p ! i)\<lparr>ep_sessions := tl (ep_sessions (pool_endpoints p ! i))\<rparr>)) p = update_ep i rotated p"
    by (rule update_ep_cong) (simp add: release_ready[OF assms(1)])
  then show ?thesis
    by (simp add: pingEndpoint_def quiet_probe_def acquire_ready[OF assms(1)] update_ep_update_ep[OF assms(2)])
qed

lemma check_one_quiet:
  assumes "i < length (pool_endpoints p)" "isAvailable (pool_endpoints p ! i) \<Longrightarrow> ready (pool_endpoints p ! i)"
  shows "check_one session_do url (quiet_probe now) i p =
    (if \<not> isAvailable (pool_endpoints p ! i) then Done p
     else bind_run (probe_verdict (session_do (hd (ep_sessions (pool_endpoints p ! i))) (probe_request url)))
       (\<lambda>v. run_ep i (probed now (pool_retryConfig p) v) p))"
proof (cases "isAvailable (pool_endpoints p ! i)")
  case True
  have fail: "probe_failed (quiet_probe now) i (update_ep i rotated p) = run_ep i (probed now (pool_retryConfig p) (Some err)) p" for err
    using assms(1)
    by (simp add: probe_failed_def probed_def run_ep_def quiet_probe_def update_ep_update_ep Let_def)
       (auto simp: update_ep_update_ep bind_run_assoc intro: update_ep_cong)
  have ok: "Done (update_ep i resetFailCount (update_ep i rotated p)) = run_ep i (probed now (pool_retryConfig p) None) p"
    using assms(1) by (auto simp: probed_def run_ep_def update_ep_update_ep intro: update_ep_cong)
  have f: "pe_before (quiet_probe now) = (\<lambda>p. p)" "pe_selected (quiet_probe now) = (\<lambda>p. p)" "pe_after (quiet_probe now) = (\<lambda>p. p)"
    by (simp_all add: quiet_probe_def)
  from True show ?thesis
    unfolding check_one_def Let_def f ping_ready[OF assms(2)[OF True] assms(1)]
    by (cases "probe_verdict (session_do (hd (ep_sessions (pool_endpoints p ! i))) (probe_request url))")
       (auto simp: isAvailable_def fail ok split: option.split)
next
  case False
  then show ?thesis by (simp add: check_one_def isAvailable_def quiet_probe_def)
qed

text \<open>The round as it treats one endpoint, and the loop as the same treatment of every endpoint.\<close>

definition round_one ::
  "(session \<Rightarrow> 'v Request \<Rightarrow> outcome) \<Rightarrow> string \<Rightarrow> instant \<Rightarrow> RetryConfig \<Rightarrow> endpoint \<Rightarrow> endpoint run" where
  "round_one session_do url now retry e =
     (if \<not> isAvailable e then Done e
      else bind_run (probe_verdict (session_do (hd (ep_sessions e)) (probe_request url))) (\<lambda>v. probed now retry v e))"

lemma check_one_round:
  assumes "i < length (pool_endpoints p)" "isAvailable (pool_endpoints p ! i) \<Longrightarrow> ready (pool_endpoints p ! i)"
  shows "check_one session_do url (quiet_probe now) i p = run_ep i (round_one session_do url now (pool_retryConfig p)) p"
proof -
  have "update_ep i (\<lambda>_. pool_endpoints p ! i) p = p" by (simp add: update_ep_def)
  then show ?thesis
    by (simp add: check_one_quiet[OF assms] run_ep_def round_one_def bind_run_assoc)
qed

lemma run_ep_Done: "run_ep i f p = Done p' \<longleftrightarrow> (\<exists>e. f (pool_endpoints p ! i) = Done e \<and> p' = update_ep i (\<lambda>_. e) p)"
  by (auto simp: run_ep_def)

text \<open>What the round finds at an endpoint it visits, and what it makes of the endpoints.\<close>

definition visitable :: "(session \<Rightarrow> 'v Request \<Rightarrow> outcome) \<Rightarrow> string \<Rightarrow> instant \<Rightarrow> nat list \<Rightarrow> Pool \<Rightarrow> bool" where
  "visitable session_do url now is p \<longleftrightarrow> (\<forall>i \<in> set is. i < length (pool_endpoints p) \<and>
      (isAvailable (pool_endpoints p ! i) \<longrightarrow> ready (pool_endpoints p ! i)) \<and>
      (\<exists>e. round_one session_do url now (pool_retryConfig p) (pool_endpoints p ! i) = Done e))"

definition visited :: "(session \<Rightarrow> 'v Request \<Rightarrow> outcome) \<Rightarrow> string \<Rightarrow> instant \<Rightarrow> nat list \<Rightarrow> Pool \<Rightarrow> Pool \<Rightarrow> bool" where
  "visited session_do url now is p p' \<longleftrightarrow> length (pool_endpoints p') = length (pool_endpoints p) \<and>
     (\<forall>i \<in> set is. round_one session_do url now (pool_retryConfig p) (pool_endpoints p ! i) = Done (pool_endpoints p' ! i)) \<and>
     (\<forall>i. i \<notin> set is \<longrightarrow> pool_endpoints p' ! i = pool_endpoints p ! i)"

lemma visitable_rest:
  "visitable session_do url now (i # is) p \<Longrightarrow> i \<notin> set is \<Longrightarrow> visitable session_do url now is (update_ep i f p)"
  by (auto simp: visitable_def nth_list_update update_ep_def)

lemma visited_first:
  assumes "visited session_do url now is (update_ep i (\<lambda>_. e) p) p'" "i \<notin> set is" "i < length (pool_endpoints p)"
    and "round_one session_do url now (pool_retryConfig p) (pool_endpoints p ! i) = Done e"
  shows "visited session_do url now (i # is) p p'"
proof -
  have "pool_endpoints p' ! i = e" using assms(1-3) by (simp add: visited_def)
  moreover have "pool_endpoints (update_ep i (\<lambda>_. e) p) ! j = pool_endpoints p ! j" if "j \<noteq> i" for j using that by simp
  ultimately show ?thesis using assms unfolding visited_def by (auto simp: update_ep_def) (metis assms(2) nth_list_update_neq)
qed

lemma check_from_round:
  assumes "distinct is" "visitable session_do url now is p"
  shows "\<exists>p'. check_from session_do url (\<lambda>_. quiet_probe now) is p = Done p' \<and> visited session_do url now is p p'"
  using assms
proof (induction "is" arbitrary: p)
  case (Cons i "is")
  obtain e where e: "round_one session_do url now (pool_retryConfig p) (pool_endpoints p ! i) = Done e" "i < length (pool_endpoints p)"
    using Cons.prems(2) by (auto simp: visitable_def)
  have one: "check_one session_do url (quiet_probe now) i p = Done (update_ep i (\<lambda>_. e) p)"
    using Cons.prems(2) e by (subst check_one_round) (auto simp: run_ep_def visitable_def)
  have i: "i \<notin> set is" "distinct is" using Cons.prems(1) by simp_all
  from Cons.IH[OF i(2) visitable_rest[OF Cons.prems(2) i(1)]] obtain p' where
    "check_from session_do url (\<lambda>_. quiet_probe now) is (update_ep i (\<lambda>_. e) p) = Done p'"
    "visited session_do url now is (update_ep i (\<lambda>_. e) p) p'" by blast
  then show ?case using one visited_first[OF _ i(1) e(2,1)] by (intro exI[of _ p']) simp
qed (simp add: visited_def)

lemma probe_verdict_Done: "out \<noteq> (None, None) \<Longrightarrow> \<exists>v. probe_verdict out = Done v"
  by (cases out) (auto simp: probe_verdict_def split: option.splits)

lemma probed_runs:
  assumes "0 \<le> sint (ep_cooldownTier e)" "sint (ep_cooldownTier e) < 2 ^ 31 - 1" "sint (ep_failCount e) < 2 ^ 31 - 1"
  shows "\<exists>e'. probed now retry (Some err) e = Done e' \<and> sint (ep_failCount e') = sint (ep_failCount e) + 1 \<and>
    (if sint (failThreshold retry) \<le> sint (ep_failCount e) + 1
     then ep_state e' = StateCooldown \<and> sint (ep_cooldownTier e') = sint (ep_cooldownTier e) + 1
     else e' = incrementFailCount (rotated e))"
proof -
  let ?e = "incrementFailCount (rotated e)"
  have f: "sint (ep_failCount ?e) = sint (ep_failCount e) + 1" "ep_cooldownTier ?e = ep_cooldownTier e"
    using sint_inc32[OF assms(3)] by (simp_all add: incrementFailCount_def rotated_def)
  then show ?thesis
    using markFailed_runs[of ?e now "rc_CooldownPeriod retry" "rc_MaxCooldown retry"] assms(1,2)
    by (auto simp: probed_def Let_def)
qed

lemma probe_verdict_None:
  "probe_verdict out = Done None \<longleftrightarrow>
   (\<exists>r. out = (Some r, None) \<and> 200 \<le> sint (resp_StatusCode r) \<and> sint (resp_StatusCode r) < 400)"
  by (cases out) (auto simp: probe_verdict_def not_less not_le split: option.splits)

definition tiers_ok :: "endpoint \<Rightarrow> bool" where
  "tiers_ok e \<longleftrightarrow> 0 \<le> sint (ep_cooldownTier e) \<and> sint (ep_cooldownTier e) < 2 ^ 31 - 1 \<and> sint (ep_failCount e) < 2 ^ 31 - 1"

lemma round_one_runs:
  assumes "\<And>s r. session_do s r \<noteq> (None, None)" "isAvailable e \<Longrightarrow> tiers_ok e"
  shows "\<exists>e'. round_one session_do url now retry e = Done e'"
proof -
  obtain v where "probe_verdict (session_do (hd (ep_sessions e)) (probe_request url)) = Done v"
    using probe_verdict_Done assms(1) by blast
  then show ?thesis using probed_runs[of e now retry] assms(2)
    by (cases v) (auto simp: round_one_def probed_def[of _ _ None] tiers_ok_def)
qed

lemma round_one_failed:
  assumes "round_one session_do url now retry e = Done e'" "isAvailable e" "tiers_ok e"
    and "\<nexists>r. session_do (hd (ep_sessions e)) (probe_request url) = (Some r, None) \<and>
           200 \<le> sint (resp_StatusCode r) \<and> sint (resp_StatusCode r) < 400"
  shows "sint (ep_failCount e') = sint (ep_failCount e) + 1 \<and>
    (if sint (failThreshold retry) \<le> sint (ep_failCount e) + 1
     then ep_state e' = StateCooldown \<and> sint (ep_cooldownTier e') = sint (ep_cooldownTier e) + 1
     else e' = incrementFailCount (rotated e))"
proof -
  obtain v where v: "probe_verdict (session_do (hd (ep_sessions e)) (probe_request url)) = Done v"
    "probed now retry v e = Done e'" using assms(1,2) by (auto simp: round_one_def)
  then obtain err where "v = Some err" using assms(4) by (cases v) (auto simp: probe_verdict_None)
  then show ?thesis using v(2) probed_runs[of e now retry err] assms(3) by (auto simp: tiers_ok_def)
qed

lemma round_one_passed:
  assumes "round_one session_do url now retry e = Done e'" "isAvailable e"
    and "\<exists>r. session_do (hd (ep_sessions e)) (probe_request url) = (Some r, None) \<and>
           200 \<le> sint (resp_StatusCode r) \<and> sint (resp_StatusCode r) < 400"
  shows "e' = resetFailCount (rotated e)"
proof -
  have "probe_verdict (session_do (hd (ep_sessions e)) (probe_request url)) = Done None"
    using assms(3) by (simp add: probe_verdict_None)
  then show ?thesis using assms(1,2) by (simp add: round_one_def probed_def)
qed

text \<open>A proxy that answers every request.\<close>

definition always_up :: "session \<Rightarrow> nat Request \<Rightarrow> outcome" where
  "always_up s r = (Some ok_response, None)"

text \<open>The contract of a round for one endpoint: what its new state is, by the outcome of the probe.\<close>

definition probe_passes :: "outcome \<Rightarrow> bool" where
  "probe_passes out \<longleftrightarrow>
     (case out of (Some r, None) \<Rightarrow> 200 \<le> sint (resp_StatusCode r) \<and> sint (resp_StatusCode r) < 400 | _ \<Rightarrow> False)"

definition round_spec :: "int \<Rightarrow> outcome \<Rightarrow> endpoint \<Rightarrow> endpoint \<Rightarrow> bool" where
  "round_spec threshold out e e' \<longleftrightarrow>
     (if \<not> isAvailable e then e' = e
      else if probe_passes out then e' = resetFailCount (rotated e)
      else sint (ep_failCount e') = sint (ep_failCount e) + 1 \<and>
        (if threshold \<le> sint (ep_failCount e) + 1
         then ep_state e' = StateCooldown \<and> sint (ep_cooldownTier e') = sint (ep_cooldownTier e) + 1
         else e' = incrementFailCount (rotated e)))"

lemma round_one_spec:
  assumes "round_one session_do url now retry e = Done e'" "isAvailable e \<longrightarrow> ready e \<and> tiers_ok e"
  shows "round_spec (sint (failThreshold retry)) (session_do (hd (ep_sessions e)) (probe_request url)) e e'"
proof (cases "isAvailable e")
  case True
  have pass: "probe_passes out \<longleftrightarrow>
     (\<exists>r. out = (Some r, None) \<and> 200 \<le> sint (resp_StatusCode r) \<and> sint (resp_StatusCode r) < 400)" for out
    by (auto simp: probe_passes_def split: prod.splits option.splits)
  from True show ?thesis
    using round_one_passed[OF assms(1) True] round_one_failed[OF assms(1) True] assms(2)
    unfolding round_spec_def pass by auto
next
  case False
  then show ?thesis using assms(1) by (simp add: round_one_def round_spec_def)
qed

section \<open>Properties\<close>



text \<open>A failed probe feeds the same path as a block of a real request: the code of the health
  checker does to the pool exactly what \<open>penalise\<close> does for a request without a target domain, under
  any interference between the count and its test.\<close>

theorem probe_failure_is_penalise:
  "probe_failed env i p =
     penalise (pe_now env) (pe_counted env) (pool_retryConfig p) (failThreshold (pool_retryConfig p)) [] i p"
  by (simp add: probe_failed_def penalise_def recordDomainBlock_def RecordBlock_no_domain Let_def)

definition neutral_event :: "'v hc_event \<Rightarrow> bool" where
  "neutral_event ev = (case ev of
     Meanwhile f \<Rightarrow> (\<forall>p. owned (f p) = owned p) | Ticked session_do envs \<Rightarrow> (\<forall>i. neutral_probe (envs i)) | CtxDone \<Rightarrow> True)"

text \<open>The loop of the health checker leaks no session and ends only when it was stopped: along
  every schedule of rounds and of other goroutines that return what they borrow, every endpoint
  answers for the sessions it had, and the loop returns only after \<open>stop\<close>.\<close>

theorem health_loop_returns_sessions:
  assumes "hc_run url evs p = Done (ended, p')" and "\<forall>ev \<in> set evs. neutral_event ev"
  shows "owned p' = owned p \<and> (ended \<longrightarrow> hc_stopped p')"
  using assms
proof (induction evs arbitrary: p)
  case (Cons ev evs)
  show ?case
  proof (cases ev)
    case (Ticked session_do envs)
    then obtain p1 where p1: "checkAll session_do url envs p = Done p1" "hc_run url evs p1 = Done (ended, p')"
      using Cons.prems(1) by auto
    have "owned p1 = owned p" using owned_checkAll[OF p1(1)] Cons.prems(2) Ticked by (simp add: neutral_event_def)
    with Cons.IH[OF p1(2)] Cons.prems(2) show ?thesis by simp
  qed (use Cons in \<open>auto simp: neutral_event_def split: if_splits\<close>)
qed simp

text \<open>The sample pool with a checker.\<close>

definition watched :: Pool where
  "watched = solo\<lparr>pool_health := Some \<lparr> hc_interval = 1, hc_url = ''http://up'', hc_timeout = 1, hc_cancelled = False \<rparr>\<rparr>"


end
