(* ===== verification/Sticky.thy ===== *)
theory Sticky
  imports Go_Errors
begin

text \<open>
  The sticky endpoint generator of \<open>config.go\<close>: \<open>StickyOptions\<close>, \<open>StickyEndpoints\<close> and the rendering
  of the usernames, with what it uses of the standard library: \<open>fmt.Sprintf\<close> on the arguments
  (string, int) for formats made of text and the plain verbs \<open>%s\<close>, \<open>%d\<close>, \<open>%v\<close> and \<open>%%\<close> (what other
  formats give is the argument \<open>fmt\<close>), and \<open>url.URL.String\<close> for a URL of scheme, user and host.
\<close>

section \<open>Sprintf\<close>

fun simple_format :: "string \<Rightarrow> bool" where
  "simple_format [] = True"
| "simple_format [c] = True"
| "simple_format (c # v # s) =
     (if c = CHR ''%'' then v \<in> set ''sdv%'' \<and> simple_format s else simple_format (v # s))"

text \<open>A verb applied to argument number \<open>n\<close>, with the error texts of \<open>fmt\<close>, and the text that reports
  arguments no verb consumed.\<close>

definition format_arg :: "string \<Rightarrow> int \<Rightarrow> nat \<Rightarrow> char \<Rightarrow> string" where
  "format_arg username index n v =
     (if n = 0 then
        (if v \<in> set ''sv'' then username else ''%!'' @ [v] @ ''(string='' @ username @ '')'')
      else if n = 1 then
        (if v \<in> set ''dv'' then itoa index else ''%!'' @ [v] @ ''(int='' @ itoa index @ '')'')
      else ''%!'' @ [v] @ ''(MISSING)'')"

definition format_extra :: "string \<Rightarrow> int \<Rightarrow> nat \<Rightarrow> string" where
  "format_extra username index n =
     (if n = 0 then ''%!(EXTRA string='' @ username @ '', int='' @ itoa index @ '')''
      else if n = 1 then ''%!(EXTRA int='' @ itoa index @ '')''
      else [])"

fun format_from :: "string \<Rightarrow> int \<Rightarrow> nat \<Rightarrow> string \<Rightarrow> string" where
  "format_from username index n [] = format_extra username index n"
| "format_from username index n [c] =
     (if c = CHR ''%'' then ''%!(NOVERB)'' else [c]) @ format_extra username index n"
| "format_from username index n (c # v # s) =
     (if c \<noteq> CHR ''%'' then c # format_from username index n (v # s)
      else if v = CHR ''%'' then CHR ''%'' # format_from username index n s
      else format_arg username index n v @ format_from username index (Suc n) s)"

definition Sprintf :: "(string \<Rightarrow> string \<Rightarrow> int \<Rightarrow> string) \<Rightarrow> string \<Rightarrow> string \<Rightarrow> int \<Rightarrow> string" where
  "Sprintf fmt format username index =
     (if simple_format format then format_from username index 0 format else fmt format username index)"

section \<open>URLs\<close>

definition alnum :: "char \<Rightarrow> bool" where
  "alnum c = (let n = (of_char c :: nat) in
     48 \<le> n \<and> n \<le> 57 \<or> 65 \<le> n \<and> n \<le> 90 \<or> 97 \<le> n \<and> n \<le> 122)"

definition keep_in_user :: "char \<Rightarrow> bool" where
  "keep_in_user c \<longleftrightarrow> alnum c \<or> c \<in> set ''-_.~$&+,;=''"

definition keep_in_host :: "char \<Rightarrow> bool" where
  "keep_in_host c \<longleftrightarrow> alnum c \<or> c \<in> set ''-_.~!$&()*+,;=:[]<>'' \<or> c = CHR 0x22 \<or> c = CHR 0x27"

definition upper_hex :: "nat \<Rightarrow> char" where
  "upper_hex d = (if d < 10 then char_of (48 + d) else char_of (55 + d))"

fun url_escape :: "(char \<Rightarrow> bool) \<Rightarrow> string \<Rightarrow> string" where
  "url_escape keep [] = []"
| "url_escape keep (c # s) =
     (if keep c then [c]
      else [CHR ''%'', upper_hex (of_char c div 16), upper_hex (of_char c mod 16)]) @ url_escape keep s"

datatype userinfo = User string | UserPassword string string

fun userinfo_String :: "userinfo \<Rightarrow> string" where
  "userinfo_String (User name) = url_escape keep_in_user name"
| "userinfo_String (UserPassword name password) =
     url_escape keep_in_user name @ '':'' @ url_escape keep_in_user password"

definition url_String :: "string \<Rightarrow> userinfo option \<Rightarrow> string \<Rightarrow> string" where
  "url_String scheme user host =
     scheme @ ''://'' @ (case user of None \<Rightarrow> [] | Some u \<Rightarrow> userinfo_String u @ ''@'') @
     url_escape keep_in_host host"

section \<open>The generator\<close>

record StickyOptions =
  sk_Scheme :: string
  sk_Username :: string
  sk_Password :: string
  sk_Host :: string
  sk_Port :: string
  sk_Count :: int64
  sk_UsernameFormat :: string

definition extra_marker :: string where
  "extra_marker = ''%!(EXTRA''"

text \<open>The loop of \<open>indexOfExtra\<close> at position \<open>i\<close>, where \<open>s\<close> is the rest of the string from there.\<close>

fun index_of_extra_from :: "nat \<Rightarrow> string \<Rightarrow> int" where
  "index_of_extra_from i [] = -1"
| "index_of_extra_from i (c # s) =
     (if length (c # s) < length extra_marker then -1
      else if take (length extra_marker) (c # s) = extra_marker then int i
      else index_of_extra_from (Suc i) s)"

definition indexOfExtra :: "string \<Rightarrow> int" where
  "indexOfExtra s = index_of_extra_from 0 s"

definition renderUsername :: "(string \<Rightarrow> string \<Rightarrow> int \<Rightarrow> string) \<Rightarrow> string \<Rightarrow> string \<Rightarrow> int \<Rightarrow> string" where
  "renderUsername fmt format username index =
     (let rendered = Sprintf fmt format username index; idx = indexOfExtra rendered
      in if 0 \<le> idx then take (nat idx) rendered else rendered)"

text \<open>The body of the loop: endpoint number \<open>i\<close>.\<close>

definition sticky_endpoint ::
  "(string \<Rightarrow> string \<Rightarrow> int \<Rightarrow> string) \<Rightarrow> StickyOptions \<Rightarrow> string \<Rightarrow> string \<Rightarrow> int \<Rightarrow> string" where
  "sticky_endpoint fmt opts scheme format i =
     url_String scheme
       (if sk_Username opts \<noteq> [] then
          (let name = renderUsername fmt format (sk_Username opts) i in
           Some (if sk_Password opts \<noteq> [] then UserPassword name (sk_Password opts) else User name))
        else None)
       (sk_Host opts @ '':'' @ sk_Port opts)"

definition StickyEndpoints ::
  "(string \<Rightarrow> string \<Rightarrow> int \<Rightarrow> string) \<Rightarrow> StickyOptions \<Rightarrow> gerr + string list" where
  "StickyEndpoints fmt opts =
     (if sk_Host opts = [] \<or> sk_Port opts = [] then
        Inl (ErrText ''proxator: sticky endpoints require Host and Port'')
      else if sint (sk_Count opts) \<le> 0 then
        Inl (ErrText ''proxator: sticky endpoints require a positive Count'')
      else
        (let scheme = (if sk_Scheme opts = [] then ''http'' else sk_Scheme opts);
             format = (if sk_UsernameFormat opts = [] then ''%s-%d'' else sk_UsernameFormat opts)
         in Inr (map (sticky_endpoint fmt opts scheme format) [1..sint (sk_Count opts)])))"

section \<open>Numbers\<close>

text \<open>Reading a numeral back.\<close>

definition digit_value :: "char \<Rightarrow> nat" where
  "digit_value c = of_char c - 48"

definition read_digits :: "string \<Rightarrow> nat" where
  "read_digits s = foldl (\<lambda>n c. 10 * n + digit_value c) 0 s"

lemma digit_value_char: "d < 10 \<Longrightarrow> digit_value (digit_char d) = d"
  by (simp add: digit_value_def digit_char_def of_char_of)

lemma read_digits_nat: "read_digits (nat_digits n) = n"
proof (induction n rule: nat_digits.induct)
  case (1 n)
  then show ?case
    by (subst nat_digits.simps) (auto simp: read_digits_def digit_value_char)
qed

lemma itoa_inj: "itoa (int m) = itoa (int n) \<Longrightarrow> m = n"
  unfolding itoa_def by simp (metis read_digits_nat)

lemma nat_digits_digits: "c \<in> set (nat_digits n) \<Longrightarrow> \<exists>d < 10. c = digit_char d"
proof (induction n rule: nat_digits.induct)
  case (1 n)
  have nd: "nat_digits n = (if n < 10 then [digit_char n] else nat_digits (n div 10) @ [digit_char (n mod 10)])"
    by (rule nat_digits.simps)
  have m: "n mod 10 < 10" by simp
  show ?case
  proof (cases "n < 10")
    case True
    then show ?thesis using 1(2) nd by auto
  next
    case False
    then have "c \<in> set (nat_digits (n div 10)) \<or> c = digit_char (n mod 10)" using 1(2) nd by auto
    then show ?thesis using 1(1)[OF False] m by blast
  qed
qed

lemma digit_plain: "d < 10 \<Longrightarrow> digit_char d \<notin> set extra_marker"
proof -
  assume "d < 10"
  then have "d \<in> set [0..<10]" by simp
  moreover have "list_all (\<lambda>d. digit_char d \<notin> set extra_marker) [0..<10]" by code_simp
  ultimately show ?thesis unfolding list_all_iff by blast
qed

section \<open>The marker\<close>

lemma index_of_extra_none:
  "\<not> contains s extra_marker \<Longrightarrow> index_of_extra_from i s = -1"
proof (induction s arbitrary: i)
  case (Cons c s)
  then have "take (length extra_marker) (c # s) \<noteq> extra_marker"
    by (metis append_take_drop_id contains_append append_Nil)
  moreover have "\<not> contains s extra_marker" using Cons.prems by (metis append_Cons append_Nil contains_prepend)
  ultimately show ?case using Cons.IH by simp
qed simp

lemma index_of_extra_found:
  "\<not> contains (s @ butlast extra_marker) extra_marker \<Longrightarrow> index_of_extra_from i (s @ extra_marker @ t) = int (i + length s)"
proof (induction s arbitrary: i)
  case Nil
  then show ?case by (simp add: extra_marker_def)
next
  case (Cons c s)
  let ?m = extra_marker
  have "take (length ?m) (c # s @ ?m @ t) = take (length ?m) (c # s @ butlast ?m)"
    by (simp add: extra_marker_def take_Cons')
  moreover have "take (length ?m) (c # s @ butlast ?m) \<noteq> ?m"
    using Cons.prems by (metis append_Cons append_Nil append_take_drop_id contains_append)
  moreover have "\<not> contains (s @ butlast ?m) ?m"
    using Cons.prems by (metis append_Cons append_Nil contains_prepend)
  ultimately show ?case using Cons.IH[of "Suc i"] by (simp add: extra_marker_def)
qed

text \<open>The marker does not overlap with a copy of itself, and no text free of its letters completes it.\<close>

lemma contains_marker_end: "contains (s @ butlast extra_marker) extra_marker \<Longrightarrow> contains s extra_marker"
proof -
  let ?m = extra_marker
  assume "contains (s @ butlast ?m) ?m"
  then consider "sublist ?m s" | "sublist ?m (butlast ?m)"
    | xs ys where "?m = xs @ ys" "suffix xs s" "prefix ys (butlast ?m)"
    unfolding contains_iff sublist_append by blast
  then show ?thesis
  proof cases
    case 1
    then show ?thesis by (simp add: contains_iff)
  next
    case 2
    then have "length ?m \<le> length (butlast ?m)" by (rule sublist_length_le)
    then show ?thesis by (simp add: extra_marker_def)
  next
    case (3 xs ys)
    show ?thesis
    proof (cases "xs = [] \<or> ys = []")
      case True
      then show ?thesis
      proof
        assume "xs = []"
        then have "prefix ?m (butlast ?m)" using 3(1,3) by simp
        then have "length ?m \<le> length (butlast ?m)" by (rule prefix_length_le)
        then show ?thesis by (simp add: extra_marker_def)
      next
        assume "ys = []"
        then show ?thesis using 3 by (simp add: contains_iff suffix_imp_sublist)
      qed
    next
      case False
      have "hd ys = CHR ''%''" using 3(3) False by (cases ys) (auto simp: extra_marker_def)
      moreover have "tl ?m = tl xs @ ys" using 3(1) False by (metis tl_append2)
      moreover have "hd ys \<in> set ys" using False by simp
      ultimately have "CHR ''%'' \<in> set (tl ?m)" by (metis UnI2 set_append)
      then show ?thesis by (simp add: extra_marker_def)
    qed
  qed
qed

lemma contains_marker_plain:
  assumes "\<forall>c \<in> set d. c \<notin> set extra_marker"
  shows "contains (s @ d) extra_marker \<Longrightarrow> contains s extra_marker"
proof -
  let ?m = extra_marker
  have m: "?m \<noteq> []" by (simp add: extra_marker_def)
  assume "contains (s @ d) ?m"
  then consider "sublist ?m s" | "sublist ?m d"
    | xs ys where "?m = xs @ ys" "suffix xs s" "prefix ys d"
    unfolding contains_iff sublist_append by blast
  then show ?thesis
  proof cases
    case 1
    then show ?thesis by (simp add: contains_iff)
  next
    case 2
    then have "set ?m \<subseteq> set d" by (rule set_mono_sublist)
    then have "hd ?m \<in> set d" using m by auto
    then show ?thesis using assms hd_in_set[OF m] by blast
  next
    case (3 xs ys)
    have "set ys \<subseteq> set d" using 3(3) by (rule set_mono_prefix)
    moreover have "set ys \<subseteq> set ?m" unfolding 3(1) by simp
    ultimately have "set ys \<subseteq> set d" "set ys \<subseteq> set ?m" .
    then have "ys = []" using assms by (cases ys) auto
    then show ?thesis using 3 by (simp add: contains_iff suffix_imp_sublist)
  qed
qed

section \<open>Rendering\<close>

lemma format_literal_verb:
  "CHR ''%'' \<notin> set pre \<Longrightarrow> format_from u i n (pre @ CHR ''%'' # v # s) = pre @ format_from u i n (CHR ''%'' # v # s)"
  "CHR ''%'' \<notin> set pre \<Longrightarrow> simple_format (pre @ CHR ''%'' # v # s) = simple_format (CHR ''%'' # v # s)"
proof (induction pre)
  case (Cons c pre)
  { case 1 with Cons.IH(1) show ?case by (cases pre) auto }
  { case 2 with Cons.IH(2) show ?case by (cases pre) auto }
qed simp_all

lemma format_literal:
  "CHR ''%'' \<notin> set t \<Longrightarrow> format_from u i n t = t @ format_extra u i n"
  "CHR ''%'' \<notin> set t \<Longrightarrow> simple_format t"
proof (induction t)
  case (Cons c t)
  { case 1 with Cons.IH(1) show ?case by (cases t) auto }
  { case 2 with Cons.IH(2) show ?case by (cases t) auto }
qed simp_all

lemma render_none: "\<not> contains (Sprintf fmt f u i) extra_marker \<Longrightarrow> renderUsername fmt f u i = Sprintf fmt f u i"
  by (simp add: renderUsername_def indexOfExtra_def index_of_extra_none)

lemma Sprintf_two:
  assumes "CHR ''%'' \<notin> set (pre @ mid @ post)"
  shows "Sprintf fmt (pre @ ''%s'' @ mid @ ''%d'' @ post) u i = pre @ u @ mid @ itoa i @ post"
  using assms by (simp add: Sprintf_def format_literal_verb format_literal format_arg_def format_extra_def)

lemma Sprintf_one:
  assumes "CHR ''%'' \<notin> set (pre @ mid)"
  shows "Sprintf fmt (pre @ ''%s'' @ mid) u i = (pre @ u @ mid) @ extra_marker @ '' int='' @ itoa i @ '')''"
  using assms by (simp add: Sprintf_def format_literal_verb format_literal format_arg_def format_extra_def extra_marker_def)

section \<open>Escaping\<close>

definition hex_value :: "char \<Rightarrow> nat" where
  "hex_value c = (let n = (of_char c :: nat) in if n < 65 then n - 48 else n - 55)"

fun url_unescape :: "string \<Rightarrow> string" where
  "url_unescape (c # h # l # s) =
     (if c = CHR ''%'' then char_of (16 * hex_value h + hex_value l) # url_unescape s
      else c # url_unescape (h # l # s))"
| "url_unescape s = s"

lemma url_unescape_plain: "c \<noteq> CHR ''%'' \<Longrightarrow> url_unescape (c # s) = c # url_unescape s"
  by (cases s rule: url_unescape.cases) auto

lemma upper_hex_facts:
  assumes "d < 16"
  shows "hex_value (upper_hex d) = d" "alnum (upper_hex d)"
  using assms by (simp_all add: hex_value_def upper_hex_def alnum_def of_char_of Let_def)

lemma byte_halves: "16 * ((of_char c :: nat) div 16) + of_char c mod 16 = of_char c" "(of_char c :: nat) div 16 < 16"
  using nat_of_char_less_256[of c] by (simp_all add: less_mult_imp_div_less)

lemma url_unescape_escape:
  "\<not> keep CHR ''%'' \<Longrightarrow> url_unescape (url_escape keep s) = s"
proof (induction s)
  case (Cons c s)
  show ?case
  proof (cases "keep c")
    case True
    then have "c \<noteq> CHR ''%''" using Cons.prems by blast
    then show ?thesis using True Cons by (simp add: url_unescape_plain)
  next
    case False
    then show ?thesis using Cons byte_halves[of c] by (simp add: upper_hex_facts)
  qed
qed simp

lemma set_url_escape: "c \<in> set (url_escape keep s) \<Longrightarrow> keep c \<or> c = CHR ''%'' \<or> alnum c"
  by (induction s) (auto simp: upper_hex_facts byte_halves split: if_splits)

lemma user_text_plain: "CHR ''@'' \<notin> set (url_escape keep_in_user s)" "CHR '':'' \<notin> set (url_escape keep_in_user s)"
  by (auto dest!: set_url_escape simp: keep_in_user_def alnum_def)

text \<open>What a reader of the URL finds as its user and password.\<close>

definition read_userinfo :: "string \<Rightarrow> string \<times> string option" where
  "read_userinfo u =
     (let rest = drop 3 (dropWhile (\<lambda>c. c \<noteq> CHR '':'') u); ui = takeWhile (\<lambda>c. c \<noteq> CHR ''@'') rest
      in (url_unescape (takeWhile (\<lambda>c. c \<noteq> CHR '':'') ui),
          if CHR '':'' \<in> set ui then Some (url_unescape (tl (dropWhile (\<lambda>c. c \<noteq> CHR '':'') ui))) else None))"

lemma takeWhile_until: "c \<notin> set xs \<Longrightarrow> takeWhile (\<lambda>x. x \<noteq> c) (xs @ c # ys) = xs"
  by (induction xs) auto

lemma dropWhile_until: "c \<notin> set xs \<Longrightarrow> dropWhile (\<lambda>x. x \<noteq> c) (xs @ c # ys) = c # ys"
  by (induction xs) auto

lemma takeWhile_all: "c \<notin> set xs \<Longrightarrow> takeWhile (\<lambda>x. x \<noteq> c) xs = xs"
  by (induction xs) auto

lemma read_userinfo_String:
  assumes "CHR '':'' \<notin> set scheme"
  shows "read_userinfo (url_String scheme (Some (User name)) host) = (name, None)"
    and "read_userinfo (url_String scheme (Some (UserPassword name pw)) host) = (name, Some pw)"
proof -
  have k: "\<not> keep_in_user CHR ''%''" by (simp add: keep_in_user_def alnum_def)
  have rest: "drop 3 (dropWhile (\<lambda>c. c \<noteq> CHR '':'') (scheme @ ''://'' @ t)) = t" for t
    using dropWhile_until[OF assms, of "''//'' @ t"] by simp
  note facts = rest user_text_plain url_unescape_escape[of keep_in_user, OF k]
  have "takeWhile (\<lambda>c. c \<noteq> CHR ''@'') (url_escape keep_in_user name @ ''@'' @ t) = url_escape keep_in_user name" for t
    by (simp add: takeWhile_until user_text_plain)
  then show "read_userinfo (url_String scheme (Some (User name)) host) = (name, None)"
    using facts by (simp add: read_userinfo_def url_String_def takeWhile_all)
  have "takeWhile (\<lambda>c. c \<noteq> CHR ''@'') ((url_escape keep_in_user name @ '':'' @ url_escape keep_in_user pw) @ ''@'' @ t) =
      url_escape keep_in_user name @ '':'' @ url_escape keep_in_user pw" for t
    using takeWhile_until[of "CHR ''@''" "url_escape keep_in_user name @ '':'' @ url_escape keep_in_user pw" t]
    by (simp add: user_text_plain)
  then show "read_userinfo (url_String scheme (Some (UserPassword name pw)) host) = (name, Some pw)"
    using facts by (simp add: read_userinfo_def url_String_def takeWhile_until dropWhile_until)
qed

section \<open>Properties\<close>

text \<open>\<open>renderUsername\<close> tolerates a format with a single verb: for a format of plain text with \<open>%s\<close>
  and \<open>%d\<close> it is the substitution, and for one with \<open>%s\<close> alone the report \<open>fmt\<close> appends about the
  unused index is cut off exactly, unless the text itself holds the marker of such a report.\<close>

lemma render_username:
  assumes "CHR ''%'' \<notin> set (pre @ mid @ post)"
    and "\<not> contains (pre @ u @ mid @ itoa i @ post) extra_marker" and "\<not> contains (pre @ u @ mid) extra_marker"
  shows "renderUsername fmt (pre @ ''%s'' @ mid @ ''%d'' @ post) u i = pre @ u @ mid @ itoa i @ post \<and>
    renderUsername fmt (pre @ ''%s'' @ mid) u i = pre @ u @ mid"
proof
  show "renderUsername fmt (pre @ ''%s'' @ mid @ ''%d'' @ post) u i = pre @ u @ mid @ itoa i @ post"
    using Sprintf_two[OF assms(1)] assms(2) render_none by metis
  have p: "CHR ''%'' \<notin> set (pre @ mid)" using assms(1) by simp
  have "indexOfExtra (Sprintf fmt (pre @ ''%s'' @ mid) u i) = int (length (pre @ u @ mid))"
    unfolding Sprintf_one[OF p] indexOfExtra_def
    using index_of_extra_found[of "pre @ u @ mid" 0] assms(3) contains_marker_end by fastforce
  then show "renderUsername fmt (pre @ ''%s'' @ mid) u i = pre @ u @ mid"
    unfolding renderUsername_def Let_def Sprintf_one[OF p] by simp
qed

lemma default_username:
  assumes "\<not> contains u extra_marker"
  shows "renderUsername fmt ''%s-%d'' u (int n) = u @ ''-'' @ itoa (int n)"
proof -
  have "\<forall>c \<in> set (''-'' @ itoa (int n)). c \<notin> set extra_marker"
    using nat_digits_digits[of _ n] digit_plain by (auto simp: itoa_def) (auto simp: extra_marker_def)
  from contains_marker_plain[OF this, of u] assms
  have "\<not> contains (u @ ''-'' @ itoa (int n)) extra_marker" by blast
  then show ?thesis using render_none[of fmt "''%s-%d''" u "int n"] Sprintf_two[of "[]" "''-''" "[]" fmt u "int n"] by simp
qed


definition sample_sticky :: StickyOptions where
  "sample_sticky = \<lparr> sk_Scheme = [], sk_Username = ''a:b'', sk_Password = ''p@s'', sk_Host = ''gate'', sk_Port = ''80'',
     sk_Count = 2, sk_UsernameFormat = [] \<rparr>"


end
