(* ===== verification/Goroutines.thy ===== *)
theory Goroutines
  imports Health
begin

text \<open>
  A pool with any number of goroutines at work on it: attempts of requests, pings, probes of the
  health checker, the recovery goroutines, administration and \<open>Close\<close>.  A goroutine is a program
  counter (\<open>pc\<close>) that stands before its next access to the shared state; \<open>advance\<close> is one such
  access with the straight-line code up to the next.  The code is that of the closure in
  \<open>DoForDomain\<close> (\<open>client.go\<close>), of \<open>Ping\<close>, and of the loop body of \<open>checkAll\<close> (\<open>health.go\<close>); the
  sequential definitions of \<open>Client\<close> and \<open>Health\<close> are what one of them does when it runs alone.
\<close>

section \<open>Program counters\<close>

datatype job = ServeRequest string | SendPing | SendProbe nat

text \<open>
  A session that is borrowed is in the program counter; a probe has released its session before its
  result is looked at, so that it is charged without one.
\<close>

datatype pc =
    Start job
  | Scanning job "nat list" "candidate list" f64
  | Entering job nat
  | Limiting job nat
  | Waiting job nat
  | Received job nat session
  | Using job nat session
  | Timing string nat session outcome
  | Counting job nat "session option" gerr
  | Marking string nat "session option" gerr
  | Testing job nat "session option" gerr
  | Cooling job nat "session option" gerr
  | Succeeding job nat session
  | Untiering job nat session
  | Clearing job nat "session option"
  | Releasing job nat session "gerr option"
  | Ended "gerr option"

text \<open>What the surroundings decide: the random number, the limiter, the ready case of the \<open>select\<close>, the
  answer of the session, and the elapsed time with the averages the compare-and-swap loop meets.\<close>

datatype decision = Plain | Random f64 | Limiter "gerr option" | Ready acq_case | Answer outcome | Elapsed "int64 list" duration

record settings =
  st_q :: "string \<Rightarrow> string"
  st_rx :: regexp_env
  st_uni :: "string \<Rightarrow> string"
  st_detector :: BlockDetector
  st_retry :: RetryConfig

section \<open>One step of a goroutine\<close>

fun job_domain :: "job \<Rightarrow> string" where
  "job_domain (ServeRequest d) = d"
| "job_domain _ = []"

fun no_endpoint :: "job \<Rightarrow> gerr" where
  "no_endpoint (ServeRequest d) = Unrecoverable ErrAllProxiesBlocked"
| "no_endpoint _ = ErrAllProxiesBlocked"

text \<open>The start of \<open>getNextEndpointForDomain\<close>, or the test of the state in \<open>checkAll\<close>.\<close>

fun begin_job :: "job \<Rightarrow> Pool \<Rightarrow> pc \<times> Pool" where
  "begin_job (SendProbe i) p =
     (if ep_state (pool_endpoints p ! i) \<noteq> StateAlive then Ended None else Entering (SendProbe i) i, p)"
| "begin_job job p =
     (let n = length (pool_endpoints p) in
      if n = 0 then (Ended (Some (no_endpoint job)), p)
      else if n = 1 then
        (if isAvailable (pool_endpoints p ! 0) then Entering job 0 else Ended (Some (no_endpoint job)), p)
      else let current = pool_currentIndex p + 1
        in (Scanning job (positions (start_index current n) n) [] (FNum 0), p\<lparr>pool_currentIndex := current\<rparr>))"

text \<open>The end of the selection.\<close>

definition end_scan :: "job \<Rightarrow> candidate list \<Rightarrow> f64 \<Rightarrow> f64 \<Rightarrow> pc" where
  "end_scan job candidates totalWeight u =
     (case candidates of
        [] \<Rightarrow> Ended (Some (no_endpoint job))
      | [(i, w)] \<Rightarrow> Entering job i
      | _ \<Rightarrow> Entering job (draw u candidates totalWeight))"

text \<open>An error of \<open>acquireSession\<close>: it ends a request or a ping, a probe is charged for it.\<close>

fun refused :: "job \<Rightarrow> nat \<Rightarrow> gerr \<Rightarrow> pc" where
  "refused (SendProbe j) i err = Counting (SendProbe j) i None err"
| "refused _ i err = Ended (Some (ErrWrap ''acquiring session: '' err []))"

definition acquired :: "job \<Rightarrow> nat \<Rightarrow> (session \<Rightarrow> pc) \<Rightarrow> gerr + session \<Rightarrow> pc" where
  "acquired job i next r = (case r of Inl err \<Rightarrow> refused job i err | Inr s \<Rightarrow> next s)"

text \<open>What follows the answer of the session, and the judgement of a request's outcome.\<close>

fun answered :: "job \<Rightarrow> nat \<Rightarrow> session \<Rightarrow> outcome \<Rightarrow> pc run" where
  "answered (ServeRequest d) i s out = Done (Timing d i s out)"
| "answered SendPing i s out = bind_run (ping_verdict out) (\<lambda>v. Done (Releasing SendPing i s v))"
| "answered (SendProbe j) i s out = bind_run (probe_verdict out) (\<lambda>v. Done (Releasing (SendProbe j) i s v))"

definition judged :: "settings \<Rightarrow> string \<Rightarrow> nat \<Rightarrow> session \<Rightarrow> int64 \<Rightarrow> outcome \<Rightarrow> pc" where
  "judged S d i s index out =
     (case out of
        (resp, Some err) \<Rightarrow>
          if IsBlockedError (st_q S) (st_uni S) (Some (st_detector S)) (Some err)
          then Counting (ServeRequest d) i (Some s) (ErrWrap (''proxy '' @ itoa (sint index) @ '' blocked: '') err [])
          else Releasing (ServeRequest d) i s (Some err)
      | (resp, None) \<Rightarrow>
          if IsBlocked (st_rx S) (st_uni S) (Some (st_detector S)) resp
          then Counting (ServeRequest d) i (Some s)
            (ErrText (''proxy '' @ itoa (sint index) @ '' received blocking response (status '' @
               itoa (sint (resp_StatusCode (the resp))) @ '')''))
          else Succeeding (ServeRequest d) i s)"

fun counted :: "job \<Rightarrow> nat \<Rightarrow> session option \<Rightarrow> gerr \<Rightarrow> pc" where
  "counted (ServeRequest d) i so err = Marking d i so err"
| "counted job i so err = Testing job i so err"

text \<open>After the failure is charged or the success counted: the deferred release, if a session is held.\<close>

definition leave :: "job \<Rightarrow> nat \<Rightarrow> session option \<Rightarrow> gerr option \<Rightarrow> pc" where
  "leave job i so res = (case so of Some s \<Rightarrow> Releasing job i s res | None \<Rightarrow> Ended res)"

fun released :: "job \<Rightarrow> nat \<Rightarrow> gerr option \<Rightarrow> pc" where
  "released (SendProbe j) i None = Clearing (SendProbe j) i None"
| "released (SendProbe j) i (Some err) = Counting (SendProbe j) i None err"
| "released job i res = Ended res"

text \<open>The retry configuration a job reads: the client's, or for a probe the pool's.\<close>

fun job_retry :: "settings \<Rightarrow> Pool \<Rightarrow> job \<Rightarrow> RetryConfig" where
  "job_retry S p (SendProbe i) = pool_retryConfig p"
| "job_retry S p job = st_retry S"

text \<open>A step that is not possible under the decision is \<open>Blocked\<close>.\<close>

fun advance :: "settings \<Rightarrow> decision \<Rightarrow> instant \<Rightarrow> pc \<Rightarrow> Pool \<Rightarrow> (pc \<times> Pool) run" where
  "advance S ch now (Start job) p = Done (begin_job job p)"
| "advance S ch now (Scanning job (i # is) cs tot) p =
     (case scan (job_domain job) (quiet now p) [i] cs tot (pool_domains p) of
        (cs', tot', t) \<Rightarrow> Done (Scanning job is cs' tot', p\<lparr>pool_domains := t\<rparr>))"
| "advance S ch now (Scanning job [] cs tot) p =
     (case ch of Random u \<Rightarrow> Done (end_scan job cs tot u, p) | _ \<Rightarrow> Blocked)"
| "advance S ch now (Entering job i) p =
     (case acq_enter (pool_endpoints p ! i) of
        Some err \<Rightarrow> Done (refused job i err, p)
      | None \<Rightarrow> Done (if ep_limiter (pool_endpoints p ! i) = None then Waiting job i else Limiting job i, p))"
| "advance S ch now (Limiting job i) p =
     (case ch of
        Limiter werr \<Rightarrow>
          (case acq_limited werr (pool_endpoints p ! i) of
             Some err \<Rightarrow> Done (refused job i err, p)
           | None \<Rightarrow> Done (Waiting job i, p))
      | _ \<Rightarrow> Blocked)"
| "advance S ch now (Waiting job i) p =
     (case ch of
        Ready c \<Rightarrow> bind_run (acq_select c (pool_endpoints p ! i))
          (\<lambda>(r, e). Done (acquired job i (Received job i) r, update_ep i (\<lambda>_. e) p))
      | _ \<Rightarrow> Blocked)"
| "advance S ch now (Received job i s) p =
     (case acq_recheck s (pool_endpoints p ! i) of
        (r, e) \<Rightarrow> Done (acquired job i (Using job i) r, update_ep i (\<lambda>_. e) p))"
| "advance S ch now (Using job i s) p =
     (case ch of
        Answer out \<Rightarrow> bind_run (answered job i s out) (\<lambda>c. Done (c, p))
      | _ \<Rightarrow> Blocked)"
| "advance S ch now (Timing d i s out) p =
     (case ch of
        Elapsed ws t \<Rightarrow> Done (judged S d i s (ep_index (pool_endpoints p ! i)) out, update_ep i (recordLatency_among ws t) p)
      | _ \<Rightarrow> Blocked)"
| "advance S ch now (Counting job i so err) p = Done (counted job i so err, update_ep i incrementFailCount p)"
| "advance S ch now (Marking d i so err) p =
     Done (Testing (ServeRequest d) i so err,
       the (recordDomainBlock now (ep_index (pool_endpoints p ! i)) d (Some p)))"
| "advance S ch now (Testing job i so err) p =
     Done (if sint (failThreshold (job_retry S p job)) \<le> sint (ep_failCount (pool_endpoints p ! i))
           then Cooling job i so err else leave job i so (Some err), p)"
| "advance S ch now (Cooling job i so err) p =
     (if mu_held (pool_endpoints p ! i) then Blocked
      else bind_run (run_ep i (markFailed now (rc_CooldownPeriod (job_retry S p job)) (rc_MaxCooldown (job_retry S p job))) p)
        (\<lambda>p. Done (leave job i so (Some err), p)))"
| "advance S ch now (Succeeding job i s) p = Done (Untiering job i s, update_ep i countSuccess p)"
| "advance S ch now (Untiering job i s) p = Done (Clearing job i (Some s), update_ep i resetTier p)"
| "advance S ch now (Clearing job i so) p = Done (leave job i so None, update_ep i resetFailCount p)"
| "advance S ch now (Releasing job i s res) p = Done (released job i res, update_ep i (releaseSession (Some s)) p)"
| "advance S ch now (Ended res) p = Blocked"

section \<open>The whole pool\<close>

record sys =
  sy_now :: instant
  sy_pool :: Pool
  sy_gos :: "pc list"
  sy_closing :: "nat \<Rightarrow> bool"

text \<open>The endpoint at position \<open>i\<close> as a machine of \<open>Cooldown\<close>, and what a step of that machine does to the pool.\<close>

definition view :: "sys \<Rightarrow> nat \<Rightarrow> ep_sys" where
  "view s i = \<lparr> es_now = sy_now s, es_ep = pool_endpoints (sy_pool s) ! i, es_received = [], es_borrowed = [],
     es_closing = sy_closing s i \<rparr>"

definition put_view :: "nat \<Rightarrow> ep_sys \<Rightarrow> sys \<Rightarrow> sys" where
  "put_view i v s = s\<lparr>sy_now := es_now v, sy_pool := update_ep i (\<lambda>_. es_ep v) (sy_pool s),
     sy_closing := (sy_closing s)(i := es_closing v)\<rparr>"

text \<open>
  The steps of others: the clock, the recovery goroutines, the two critical sections of \<open>Close\<close>, and
  the stores of \<open>MarkEndpointDead\<close> and \<open>ResetEndpoint\<close>.
\<close>

fun outside :: "ep_label \<Rightarrow> bool" where
  "outside (LTick n) = True"
| "outside LCloseFirst = True" | "outside LCloseSecond = True"
| "outside LResetFail = True" | "outside LResetTier = True" | "outside LResetState = True" | "outside LMarkDead = True"
| "outside (LWake i) = True" | "outside (LAbandon i) = True" | "outside (LCheck i) = True" | "outside (LFinish i) = True"
| "outside _ = False"

datatype event = Spawn job | Go nat decision | Outside nat ep_label

text \<open>A probe is of an endpoint of the pool.\<close>

fun job_ok :: "nat \<Rightarrow> job \<Rightarrow> bool" where
  "job_ok n (SendProbe i) = (i < n)"
| "job_ok n _ = True"

fun sys_exec :: "settings \<Rightarrow> event \<Rightarrow> sys \<Rightarrow> sys option" where
  "sys_exec S (Spawn job) s =
     guarded (job_ok (length (pool_endpoints (sy_pool s))) job) (s\<lparr>sy_gos := sy_gos s @ [Start job]\<rparr>)"
| "sys_exec S (Go k ch) s =
     (if k < length (sy_gos s) then
        (case advance S ch (sy_now s) (sy_gos s ! k) (sy_pool s) of
           Done (c, p) \<Rightarrow> Some (s\<lparr>sy_gos := (sy_gos s)[k := c], sy_pool := p\<rparr>)
         | _ \<Rightarrow> None)
      else None)"
| "sys_exec S (Outside i l) s =
     (if i < length (pool_endpoints (sy_pool s)) \<and> outside l then
        (case ep_exec (rc_CooldownPeriod (st_retry S)) (rc_MaxCooldown (st_retry S)) l (view s i) of
           Some v \<Rightarrow> Some (put_view i v s)
         | None \<Rightarrow> None)
      else None)"

inductive sys_reach :: "settings \<Rightarrow> sys \<Rightarrow> sys \<Rightarrow> bool" for S s0 where
  here: "sys_reach S s0 s0"
| next_event: "sys_reach S s0 s \<Longrightarrow> sys_exec S ev s = Some t \<Longrightarrow> sys_reach S s0 t"

fun sys_run :: "settings \<Rightarrow> event list \<Rightarrow> sys \<Rightarrow> sys option" where
  "sys_run S [] s = Some s"
| "sys_run S (ev # evs) s = Option.bind (sys_exec S ev s) (sys_run S evs)"

definition sys_start :: "instant \<Rightarrow> Pool \<Rightarrow> sys" where
  "sys_start now p = \<lparr> sy_now = now, sy_pool = p, sy_gos = [], sy_closing = (\<lambda>_. False) \<rparr>"

lemma sys_reach_trans: "sys_reach S s t \<Longrightarrow> sys_reach S r s \<Longrightarrow> sys_reach S r t"
  by (induction rule: sys_reach.induct) (auto intro: sys_reach.intros)

lemma sys_run_reach: "sys_run S evs s = Some t \<Longrightarrow> sys_reach S s t"
proof (induction evs arbitrary: s)
  case (Cons ev evs)
  then obtain y where "sys_exec S ev s = Some y" "sys_run S evs y = Some t" by (auto simp: bind_eq_Some_conv)
  then show ?case using Cons.IH sys_reach_trans[OF _ next_event[OF here]] by blast
qed (simp add: here)

end
