(* ===== verification/Administration.thy ===== *)
theory Administration
  imports Requests
begin

text \<open>
  Properties of construction, closing and the administrative calls of the client.
\<close>

section \<open>Construction\<close>

text \<open>An endpoint whose sessions are all closed, and one that is in service.\<close>

definition shut :: "endpoint \<Rightarrow> bool" where
  "shut e \<longleftrightarrow> ep_closed e \<and> ep_sessions e = []"

definition fresh :: "endpoint \<Rightarrow> bool" where
  "fresh e \<longleftrightarrow> (\<exists>u i n r ss. e = (blank_endpoint u i n r)\<lparr>ep_sessions := ss\<rparr> \<and> int (length ss) = sint (ep_poolSize e))"

lemma fresh_shut: "fresh e \<Longrightarrow> shut (Close e) \<and> int (length (ep_closedSessions (Close e))) = sint (ep_poolSize (Close e))"
  unfolding fresh_def shut_def
  by (elim exE conjE) (simp add: fresh_Close, simp add: Close_def close_drain_def close_cancel_def blank_endpoint_def Let_def)

lemma new_endpoints_fresh:
  "new_endpoints psize rps factory i urls k = (res, eps, failed, k') \<Longrightarrow> \<forall>e \<in> set eps. fresh e"
proof (induction urls arbitrary: i k res eps failed k')
  case (Cons url urls)
  show ?case
  proof (cases "newEndpointWithFactory url (word_of_int i) psize rps factory k")
    case (fields a e k1)
    show ?thesis
    proof (cases a)
      case None
      obtain r2 eps2 f2 k2 where rest: "new_endpoints psize rps factory (i + 1) urls k1 = (r2, eps2, f2, k2)"
        by (metis prod_cases4)
      have e: "newEndpointWithFactory url (word_of_int i) psize rps factory k = (None, e, k1)" using fields None by simp
      have "fresh e"
        using newEndpoint_Done[OF e] unfolding fresh_def by (metis endpoint.select_convs(6) endpoint.surjective endpoint.update_convs(6))
      then show ?thesis using Cons.IH[OF rest] Cons.prems fields None rest by auto
    next
      case (Some err)
      then show ?thesis using Cons.prems fields by auto
    qed
  qed
qed simp

lemma newPool_outcome:
  assumes "newPoolWithFactory q parse cfg retry factory k = (r, dropped, k')"
  shows "(\<forall>e \<in> set dropped. shut e) \<and>
    (\<forall>p. r = Inr p \<longrightarrow> dropped = [] \<and> pool_name p = pc_Name cfg \<and> pool_endpoints p \<noteq> [] \<and>
       pool_retryConfig p = retry \<and> (\<forall>e \<in> set (pool_endpoints p). fresh e))"
proof (cases "validate q parse cfg")
  case (Some e)
  then show ?thesis using assms by (auto simp: newPoolWithFactory_def)
next
  case None
  obtain res eps failed k1 where ne: "new_endpoints (sessionPoolSize cfg) (pc_RequestsPerSecond cfg) factory 1
      (pc_Endpoints cfg) k = (res, eps, failed, k1)" by (metis prod_cases4)
  note fr = new_endpoints_fresh[OF ne]
  note own = new_endpoints_owned[OF ne sessionPoolSize_positive]
  have "res = None \<Longrightarrow> eps \<noteq> []"
    using new_endpoints_index[OF ne] None by (auto simp: validate_None_iff)
  then show ?thesis
    using assms None ne fr own fresh_shut
    by (cases res) (auto simp: newPoolWithFactory_def blank_pool_def Pool_Close_def shut_def)
qed

text \<open>What the loop over the pools maintains.\<close>

definition pools_ok :: "Client \<Rightarrow> bool" where
  "pools_ok c \<longleftrightarrow> set (cl_poolNames c) = dom (cl_pools c) \<and> distinct (cl_poolNames c) \<and>
     (\<forall>name p. cl_pools c name = Some p \<longrightarrow> pool_name p = name \<and> pool_endpoints p \<noteq> [] \<and>
        pool_retryConfig p = cl_retry c \<and> (\<forall>e \<in> set (pool_endpoints p). fresh e))"

lemma new_pools_outcome:
  assumes "new_pools q parse retry factory pcs c k = ((r, dropped), c', k')" "pools_ok c" "cl_retry c = retry"
  shows "(\<forall>e \<in> set dropped. shut e) \<and> cl_retry c' = retry \<and> cl_detector c' = cl_detector c \<and>
    (case r of
       None \<Rightarrow> pools_ok c' \<and> cl_poolNames c' = cl_poolNames c @ map pc_Name pcs
     | Some _ \<Rightarrow> \<forall>name p. cl_pools c' name = Some p \<longrightarrow>
         (\<forall>e \<in> set (pool_endpoints p). shut e \<and> int (length (ep_closedSessions e)) = sint (ep_poolSize e)))"
  using assms
proof (induction pcs arbitrary: c k)
  case Nil
  then show ?case by auto
next
  case (Cons pc pcs)
  have closed: "\<forall>name p. cl_pools (Client_Close c) name = Some p \<longrightarrow>
         (\<forall>e \<in> set (pool_endpoints p). shut e \<and> int (length (ep_closedSessions e)) = sint (ep_poolSize e))"
    using Cons.prems(2) fresh_shut by (auto simp: Client_Close_def Pool_Close_def pools_ok_def split: option.splits)
  show ?case
  proof (cases "cl_pools c (pc_Name pc)")
    case (Some p)
    then show ?thesis using Cons.prems closed by (auto simp: Client_Close_def)
  next
    case None
    obtain res dr k1 where np: "newPoolWithFactory q parse pc retry factory k = (res, dr, k1)" by (metis prod_cases3)
    show ?thesis
    proof (cases res)
      case (Inl err)
      then show ?thesis using Cons.prems None np closed newPool_outcome[OF np] by (auto simp: Client_Close_def)
    next
      case (Inr p)
      let ?c = "c\<lparr>cl_pools := (cl_pools c)(pc_Name pc \<mapsto> p), cl_poolNames := cl_poolNames c @ [pc_Name pc]\<rparr>"
      have "new_pools q parse retry factory pcs ?c k1 = ((r, dropped), c', k')"
        using Cons.prems(1) None np Inr by simp
      moreover have "pc_Name pc \<notin> set (cl_poolNames c)" using None Cons.prems(2) by (auto simp: pools_ok_def)
      then have "pools_ok ?c"
        using Cons.prems(2,3) newPool_outcome[OF np] Inr unfolding pools_ok_def by auto
      ultimately show ?thesis using Cons.IH[of ?c k1] Cons.prems(3) by (auto split: option.splits)
    qed
  qed
qed

lemma built_pools:
  assumes "New q rx uni parse set_proxy cfg k = (Inr c, rest, k')"
  shows "pools_ok c" and "client_ok c" and "mset (PoolNames c) = mset (map pc_Name (cfg_Pools cfg))" and "sorted (PoolNames c)"
proof -
  let ?retry = "withDefaults (cfg_Retry cfg)"
  obtain det c1 dropped where np: "new_pools q parse ?retry (session_factory set_proxy cfg) (cfg_Pools cfg)
        \<lparr> cl_pools = (\<lambda>_. None), cl_poolNames = [], cl_detector = det, cl_retry = ?retry \<rparr> k = ((None, dropped), c1, k')"
      and c: "c = c1\<lparr>cl_poolNames := sort_Strings (cl_poolNames c1)\<rparr>"
    using assms by (auto simp: New_def split: if_splits sum.splits prod.splits option.splits)
  have out: "cl_retry c1 = ?retry" "pools_ok c1" "cl_poolNames c1 = map pc_Name (cfg_Pools cfg)"
    using new_pools_outcome[OF np] by (auto simp: pools_ok_def)
  show "pools_ok c" using out(2) by (simp add: c pools_ok_def sort_Strings_def)
  with out(1) show "client_ok c" by (simp add: client_ok_def pools_ok_def retry_positive_withDefaults c)
  show "mset (PoolNames c) = mset (map pc_Name (cfg_Pools cfg))" "sorted (PoolNames c)"
    by (simp_all add: PoolNames_def c sort_Strings_def out(3))
qed

section \<open>Properties\<close>


text \<open>C25. A client that is built has exactly the configured pools under distinct names, listed in
  sorted order, each with endpoints, and a complete retry configuration; every name resolves, and
  the empty name does exactly when there is one pool.\<close>

theorem built_client:
  assumes "New q rx uni parse set_proxy cfg k = (Inr c, rest, k')"
  shows "client_ok c \<and> set (PoolNames c) = set (map pc_Name (cfg_Pools cfg)) \<and>
    length (PoolNames c) = length (cfg_Pools cfg) \<and> distinct (PoolNames c) \<and>
    sorted (PoolNames c) \<and>
    (\<forall>name. HasPool name c = (name \<in> set (PoolNames c))) \<and>
    (\<forall>name. name \<noteq> [] \<longrightarrow> (resolvePool q name c = Inr name) = (name \<in> set (PoolNames c))) \<and>
    isl (resolvePool q [] c) = (length (cfg_Pools cfg) \<noteq> 1)"
proof -
  note b = built_pools[OF assms]
  have s: "set (PoolNames c) = set (map pc_Name (cfg_Pools cfg))" and len: "length (PoolNames c) = length (cfg_Pools cfg)"
    using mset_eq_setD[OF b(3)] mset_eq_length[OF b(3)] by simp_all
  have d: "distinct (PoolNames c)" and dom: "set (PoolNames c) = dom (cl_pools c)"
    using b(1) by (simp_all add: pools_ok_def PoolNames_def)
  have has: "HasPool name c = (name \<in> set (PoolNames c))" for name
    using b(1) unfolding dom by (auto simp: HasPool_def pools_ok_def split: option.splits)
  have res: "name \<noteq> [] \<longrightarrow> (resolvePool q name c = Inr name) = (name \<in> set (PoolNames c))" for name
    unfolding dom by (auto simp: resolvePool_def split: option.splits)
  have "isl (resolvePool q [] c) = (length (cfg_Pools cfg) \<noteq> 1)" using len by (simp add: resolvePool_def PoolNames_def)
  then show ?thesis using b(2,4) s len d has res by blast
qed

section \<open>After Close\<close>

definition closed_pool :: "Pool \<Rightarrow> bool" where
  "closed_pool p \<longleftrightarrow> (\<forall>e \<in> set (pool_endpoints p). ep_closed e)"

definition keeps_closed :: "attempt_env \<Rightarrow> bool" where
  "keeps_closed env \<longleftrightarrow>
     (\<forall>p. closed_pool p \<longrightarrow> closed_pool (ae_before env p) \<and> closed_pool (ae_selected env p) \<and> closed_pool (ae_during env p)) \<and>
     (\<forall>p. length (pool_endpoints (ae_selected env p)) = length (pool_endpoints p))"

lemma closed_acquire: "ep_closed e \<Longrightarrow> acquireSession a e = Done (Inl ErrClientClosed, e)"
  by (simp add: acquireSession_def acq_enter_def)

lemma closed_attempt:
  assumes "attempt q rx uni det retry th d envs st = Done (res, st')" "keeps_closed (envs (cs_attempts st))"
    "closed_pool (cs_pool st)"
  shows "res \<noteq> None \<and> closed_pool (cs_pool st') \<and> cs_lastResp st' = cs_lastResp st \<and> cs_lastErr st' = cs_lastErr st"
proof -
  have before: "closed_pool (ae_before (envs (cs_attempts st)) (cs_pool st))"
    using assms(2,3) by (simp add: keeps_closed_def)
  show ?thesis
  proof (cases rule: attempt_cases[OF assms(1)])
    case (1 p')
    obtain p2 where "p' = Some p2" "pool_endpoints p2 = pool_endpoints (ae_before (envs (cs_attempts st)) (cs_pool st))"
    using getNext_none[OF 1(1)] by blast
  then have "closed_pool (the p')" using before by (simp add: closed_pool_def)
  then show ?thesis using 1(2,3) by simp
next
  case (2 i p' err e)
  let ?env = "envs (cs_attempts st)"
  obtain p2 where p2: "p' = Some p2" "pool_endpoints p2 = pool_endpoints (ae_before ?env (cs_pool st))"
    "i < length (pool_endpoints p2)" using getNext_alive[OF 2(1)] by auto
  have "closed_pool p2" using before p2(2) by (simp add: closed_pool_def)
  then have cl: "closed_pool (ae_selected ?env p2)" using assms(2) by (simp add: keeps_closed_def)
  moreover have i: "i < length (pool_endpoints (ae_selected ?env p2))" using p2(3) assms(2) by (simp add: keeps_closed_def)
  ultimately have ec: "ep_closed (pool_endpoints (ae_selected ?env p2) ! i)" by (simp add: closed_pool_def)
  then have "e = pool_endpoints (ae_selected ?env p2) ! i" using 2(2) p2(1) closed_acquire by simp
  then have "closed_pool (update_ep i (\<lambda>_. e) (ae_selected ?env p2))"
    using cl ec i by (simp add: closed_pool_def update_ep_def)
  then show ?thesis using 2 p2 by simp
next
  case (3 i p' s e p4)
  let ?env = "envs (cs_attempts st)"
  obtain p2 where p2: "p' = Some p2" "pool_endpoints p2 = pool_endpoints (ae_before ?env (cs_pool st))"
    "i < length (pool_endpoints p2)" using getNext_alive[OF 3(1)] by auto
  have "closed_pool p2" using before p2(2) by (simp add: closed_pool_def)
  then have cl: "closed_pool (ae_selected ?env p2)" using assms(2) by (simp add: keeps_closed_def)
  moreover have "i < length (pool_endpoints (ae_selected ?env p2))" using p2(3) assms(2) by (simp add: keeps_closed_def)
  ultimately have "ep_closed (pool_endpoints (ae_selected ?env p2) ! i)" by (simp add: closed_pool_def)
  then show ?thesis using 3(2) p2(1) closed_acquire by simp
  qed
qed

lemma closed_client_pool: "cl_pools (Client_Close c) name = Some p \<Longrightarrow> (\<forall>e \<in> set (pool_endpoints p). ep_closeOnce e)"
  by (auto simp: Client_Close_def Pool_Close_def Close_sessions split: option.splits)

text \<open>C24. A closed client serves nothing: after \<open>Close\<close>, a request returns no response and always an
  error, whatever its request function would answer and whatever the surroundings do short of
  reopening an endpoint (which no operation does).\<close>

theorem closed_client_serves_nothing:
  assumes "retrier retry_do" and "client_ok c" and "\<And>k. keeps_closed (envs k)"
    and "\<And>n p e. cl_pools c n = Some p \<Longrightarrow> e \<in> set (pool_endpoints p) \<Longrightarrow> ep_closeOnce e \<Longrightarrow> ep_closed e"
    and "DoForDomain retry_do q rx uni envs poolName d (Client_Close c) = Done ((resp, err), c')"
  shows "resp = None \<and> err \<noteq> None"
proof -
  have ok: "client_ok (Client_Close c)"
    using assms(2) by (auto simp: client_ok_def Client_Close_def Pool_Close_def dom_def split: option.splits)
  have closed: "closed_pool p" if "cl_pools (Client_Close c) n = Some p" for n p
    using that assms(4)
    by (auto simp: Client_Close_def Pool_Close_def closed_pool_def Close_sessions split: option.splits)
  show ?thesis
  proof (cases rule: DoForDomain_cases[OF assms(5) ok])
    case (2 n p e st)
    let ?P = "\<lambda>s. closed_pool (cs_pool s) \<and> cs_lastResp s = None \<and> cs_lastErr s = None"
    have start: "?P (start_call p)" using closed[OF 2(2)] by (simp add: start_call_def)
    have keep: "?P s'" if "?P s" "attempt q rx uni (cl_detector (Client_Close c)) (cl_retry (Client_Close c))
        (failThreshold (cl_retry (Client_Close c))) d envs s = Done (r, s')" for s r s'
      using closed_attempt[OF that(2) assms(3)] that(1) by simp
    have P: "?P st"
      by (rule retrier.keeps[where P = ?P, OF assms(1) attempts_positive[OF ok] 2(3) start]) (rule keep)
    have "e \<noteq> None"
    proof
      assume "e = None"
      then have "\<exists>s1. ?P s1 \<and> attempt q rx uni (cl_detector (Client_Close c)) (cl_retry (Client_Close c))
        (failThreshold (cl_retry (Client_Close c))) d envs s1 = Done (None, st)"
        using 2(3) by (intro retrier.succeeds[where P = ?P and retry_if = retry_if, OF assms(1) attempts_positive[OF ok] _ start])
             (assumption | rule keep | simp)+
      then obtain s1 where "?P s1" "attempt q rx uni (cl_detector (Client_Close c)) (cl_retry (Client_Close c))
        (failThreshold (cl_retry (Client_Close c))) d envs s1 = Done (None, st)" by blast
      then show False using closed_attempt[of q rx uni "cl_detector (Client_Close c)" "cl_retry (Client_Close c)"
          "failThreshold (cl_retry (Client_Close c))" d envs s1 None st] assms(3) by blast
    qed
    then show ?thesis using P 2(4) by (auto simp: result_of_def)
  qed auto
qed

section \<open>Retiring and resetting an endpoint\<close>

lemma findEndpoint_found:
  assumes "findEndpoint q idx (Some p) = Inr i"
  shows "i < length (pool_endpoints p) \<and> ep_index (pool_endpoints p ! i) = idx"
proof -
  have "find_index idx 0 (pool_endpoints p) = Some i"
    using assms by (auto simp: findEndpoint_def split: option.splits)
  from find_index_nth[OF this] show ?thesis by simp
qed

lemma on_endpoint_cases:
  assumes "on_endpoint q f pool idx c = (None, c')" "client_ok c"
  obtains name p i where "resolvePool q pool c = Inr name" "cl_pools c name = Some p" "i < length (pool_endpoints p)"
    "ep_index (pool_endpoints p ! i) = idx" "c' = c\<lparr>cl_pools := (cl_pools c)(name \<mapsto> update_ep i f p)\<rparr>"
proof -
  obtain name where n: "resolvePool q pool c = Inr name"
    using assms(1) by (auto simp: on_endpoint_def split: sum.splits)
  then obtain p where p: "cl_pools c name = Some p" using resolvePool_found assms(2) by blast
  obtain i where i: "findEndpoint q idx (Some p) = Inr i"
    using assms(1) n p by (auto simp: on_endpoint_def split: sum.splits)
  have "c' = c\<lparr>cl_pools := (cl_pools c)(name \<mapsto> update_ep i f p)\<rparr>"
    using assms(1) n p i by (simp add: on_endpoint_def)
  with n p findEndpoint_found[OF i] that show thesis by blast
qed

text \<open>\<open>MarkEndpointDead\<close> takes the endpoint out of rotation: it changes that endpoint of that pool
  only, and no later selection on the pool returns it, for any domain and any random number.\<close>

lemma marked_dead_is_not_selected:
  assumes "MarkEndpointDead q pool idx c = (None, c')" and "client_ok c"
  shows "\<exists>name p p' i. resolvePool q pool c = Inr name \<and> cl_pools c name = Some p \<and>
    i < length (pool_endpoints p) \<and> ep_index (pool_endpoints p ! i) = idx \<and>
    c' = c\<lparr>cl_pools := (cl_pools c)(name \<mapsto> p')\<rparr> \<and>
    (\<forall>j. j \<noteq> i \<longrightarrow> pool_endpoints p' ! j = pool_endpoints p ! j) \<and>
    fst (getNextEndpointForDomain dm (quiet now p') u (Some p')) \<noteq> Inr i"
proof (rule on_endpoint_cases[OF assms(1)[unfolded MarkEndpointDead_def] assms(2)])
  fix name p i
  assume a: "resolvePool q pool c = Inr name" "cl_pools c name = Some p" "i < length (pool_endpoints p)"
    "ep_index (pool_endpoints p ! i) = idx" "c' = c\<lparr>cl_pools := (cl_pools c)(name \<mapsto> update_ep i markDead p)\<rparr>"
  let ?p' = "update_ep i markDead p"
  have "\<not> isAvailable (so_avail (quiet now ?p' i))"
    using a(3) by (simp add: quiet_def isAvailable_def markDead_def setState_def)
  then have "fst (getNextEndpointForDomain dm (quiet now ?p') u (Some ?p')) \<noteq> Inr i"
    using getNext_alive[of dm "quiet now ?p'" u ?p' i] by (metis prod.collapse)
  with a show ?thesis by (intro exI[of _ name] exI[of _ p] exI[of _ ?p'] exI[of _ i]) simp
qed

text \<open>\<open>ResetEndpoint\<close> brings the endpoint back from any state: alive, with no failures and no
  escalation counted, everything else about it and every other endpoint as before.\<close>

lemma reset_restores_endpoint:
  assumes "ResetEndpoint q pool idx c = (None, c')" and "client_ok c"
  shows "\<exists>name p p' i. resolvePool q pool c = Inr name \<and> cl_pools c name = Some p \<and>
    i < length (pool_endpoints p) \<and> ep_index (pool_endpoints p ! i) = idx \<and>
    c' = c\<lparr>cl_pools := (cl_pools c)(name \<mapsto> p')\<rparr> \<and>
    pool_endpoints p' ! i = (pool_endpoints p ! i)\<lparr>ep_state := StateAlive, ep_failCount := 0, ep_cooldownTier := 0\<rparr> \<and>
    (\<forall>j. j \<noteq> i \<longrightarrow> pool_endpoints p' ! j = pool_endpoints p ! j)"
proof (rule on_endpoint_cases[OF assms(1)[unfolded ResetEndpoint_def] assms(2)])
  fix name p i
  let ?f = "\<lambda>e. resetTier (resetFailCount (setState StateAlive e))"
  assume a: "resolvePool q pool c = Inr name" "cl_pools c name = Some p" "i < length (pool_endpoints p)"
    "ep_index (pool_endpoints p ! i) = idx" "c' = c\<lparr>cl_pools := (cl_pools c)(name \<mapsto> update_ep i ?f p)\<rparr>"
  then show ?thesis
    by (intro exI[of _ name] exI[of _ p] exI[of _ "update_ep i ?f p"] exI[of _ i])
       (simp add: resetTier_def resetFailCount_def setState_def)
qed

section \<open>Witnesses\<close>

lemma accepting_factory: "session_factory (\<lambda>_ _. None) cfg = (\<lambda>j _. Inr j)" if "cfg_SessionFactory cfg = None"
  using that by (intro ext) (simp add: session_factory_def defaultSessionFactory_def azure_New_def)

definition twin_config :: Config where
  "twin_config = \<lparr> cfg_Pools = [sample_config, sample_config], cfg_Retry = DefaultRetryConfig,
     cfg_Detector = Some (default_detector id), cfg_SessionFactory = None \<rparr>"


theorem built_client_witness:
  "\<exists>c. New id no_rx id sample_parse (\<lambda>_ _. None) (twin_config\<lparr>cfg_Pools := [sample_config]\<rparr>) 0 = (Inr c, (None, []), 4) \<and>
     client_ok c \<and> PoolNames c = [''p'']"
proof -
  obtain p where p: "newPoolWithFactory id sample_parse sample_config DefaultRetryConfig (\<lambda>j _. Inr j) 0 = (Inr p, [], 4)"
    using sample_pool_built[of id] by blast
  have w: "withDefaults DefaultRetryConfig = DefaultRetryConfig" by (rule withDefaults_id) (rule default_retry_positive)
  have n: "pc_Name sample_config = ''p''" by (simp add: sample_config_def)
  obtain c where r: "New id no_rx id sample_parse (\<lambda>_ _. None) (twin_config\<lparr>cfg_Pools := [sample_config]\<rparr>) 0 = (Inr c, (None, []), 4)"
    by (simp add: New_def twin_config_def accepting_factory w p n)
  note b = built_client[OF r]
  have "client_ok c" by (rule b[THEN conjunct1])
  moreover have l: "length (PoolNames c) = 1"
    using b[THEN conjunct2, THEN conjunct2, THEN conjunct1] by (simp add: twin_config_def)
  moreover have s: "set (PoolNames c) = {''p''}"
    using b[THEN conjunct2, THEN conjunct1] by (simp add: twin_config_def n)
  have "PoolNames c = [''p'']"
  proof (cases "PoolNames c")
    case (Cons x xs)
    with l have "xs = []" by simp
    with s Cons show ?thesis by simp
  qed (use l in simp)
  ultimately show ?thesis using r by (intro exI[of _ c] conjI)
qed

lemma quiet_keeps_closed: "keeps_closed (quiet_env fn)"
  by (simp add: keeps_closed_def quiet_env_def)

lemma closed_solo_attempt:
  assumes "pool_endpoints (cs_pool st) = [e]" "isAvailable e" "ep_closed e"
  shows "attempt q rx uni det retry th d (\<lambda>_. quiet_env fn) st =
    Done (Some (ErrWrap ''acquiring session: '' ErrClientClosed []), st\<lparr>cs_attempts := Suc (cs_attempts st)\<rparr>)"
proof -
  have sel: "getNextEndpointForDomain d (quiet 0 (cs_pool st)) (FNum 0) (Some (cs_pool st)) = (Inr 0, Some (cs_pool st))"
    using assms(1,2) by (simp add: getNextEndpointForDomain_def quiet_def)
  have env: "ae_before (quiet_env fn) = (\<lambda>p. p)" "ae_obs (quiet_env fn) = quiet 0" "ae_rand (quiet_env fn) = FNum 0"
    "ae_selected (quiet_env fn) = (\<lambda>p. p)"
    by (simp_all add: quiet_env_def)
  have "update_ep 0 (\<lambda>_. e) (cs_pool st) = cs_pool st" using assms(1) by (simp add: update_ep_def)
  then show ?thesis
    unfolding attempt_def Let_def env using assms by (simp add: sel closed_acquire)
qed

theorem closed_client_serves_nothing_witness:
  "\<exists>err c'. DoForDomain retry_loop id no_rx id (\<lambda>_. quiet_env (\<lambda>_. (Some ok_response, None))) ''p'' [] (Client_Close solo_client) =
     Done ((None, Some err), c') \<and> errors_is err ErrClientClosed"
proof -
  let ?p = "the (Pool_Close (Some solo))" and ?r = "ErrWrap ''acquiring session: '' ErrClientClosed []"
  let ?f = "attempt id no_rx id (default_detector id) DefaultRetryConfig (failThreshold DefaultRetryConfig) []
    (\<lambda>_. quiet_env (\<lambda>_. (Some ok_response, None)))"
  have c: "isAvailable (Close sample_endpoint)" "ep_closed (Close sample_endpoint)"
    by (simp_all add: Close_def close_drain_def close_cancel_def isAvailable_def sample_endpoint_eq blank_endpoint_def)
  have p: "pool_endpoints ?p = [Close sample_endpoint]" by (simp add: Pool_Close_def solo_fields)
  have step: "?f st = Done (Some ?r, st\<lparr>cs_attempts := Suc (cs_attempts st)\<rparr>)" if "cs_pool st = ?p" for st
    by (rule closed_solo_attempt[of _ "Close sample_endpoint"]) (use that p c in simp_all)
  have pools: "cl_pools (Client_Close solo_client) ''p'' = Some ?p"
    by (simp add: Client_Close_def solo_client_def Pool_Close_def)
  have run: "\<exists>c'. DoForDomain retry_loop id no_rx id (\<lambda>_. quiet_env (\<lambda>_. (Some ok_response, None))) ''p'' [] (Client_Close solo_client) =
     Done ((None, Some ?r), c')"
    using pools by (simp add: DoForDomain_def resolvePool_def) (simp add: Client_Close_def solo_client_def solo_attempts
      numeral_3_eq_3 result_of_def retry_if_def start_call_def step)
  then obtain c' where r: "DoForDomain retry_loop id no_rx id (\<lambda>_. quiet_env (\<lambda>_. (Some ok_response, None))) ''p'' [] (Client_Close solo_client) =
     Done ((None, Some ?r), c')" by blast
  have "\<not> ep_closeOnce sample_endpoint" by (simp add: sample_endpoint_eq blank_endpoint_def)
  then have once: "\<And>n p e. cl_pools solo_client n = Some p \<Longrightarrow> e \<in> set (pool_endpoints p) \<Longrightarrow> ep_closeOnce e \<Longrightarrow> ep_closed e"
    by (auto simp: solo_client_def solo_fields split: if_splits)
  from closed_client_serves_nothing[OF loop.retrier_axioms solo_client_ok quiet_keeps_closed once r] r
  show ?thesis by auto
qed

end
