(* ===== verification/Termination.thy ===== *)
theory Termination
  imports Administration
begin

text \<open>
  A request returns: it neither blocks for good nor panics, as long as no acquisition of a session
  blocks for good (its context ends, a session comes back or the client is closed) and no cooldown
  tier has been driven to the top of its 32 bits.
\<close>

section \<open>Bounds on the cooldown tiers\<close>

definition tiers_below :: "int \<Rightarrow> Pool \<Rightarrow> bool" where
  "tiers_below b p \<longleftrightarrow> (\<forall>e \<in> set (pool_endpoints p). 0 \<le> sint (ep_cooldownTier e) \<and> sint (ep_cooldownTier e) < b)"

text \<open>Surroundings that do not push the tiers of the pool beyond the highest it has.\<close>

definition tame :: "(Pool \<Rightarrow> Pool) \<Rightarrow> bool" where
  "tame f \<longleftrightarrow> (\<forall>p b. tiers_below b p \<longrightarrow> tiers_below b (f p)) \<and> (\<forall>p. length (pool_endpoints (f p)) = length (pool_endpoints p))"

definition tame_acquire :: "acq_env \<Rightarrow> bool" where
  "tame_acquire a \<longleftrightarrow> (\<forall>e. acquireSession a e \<noteq> Blocked \<and>
     ep_cooldownTier (aq_during_wait a e) = ep_cooldownTier e \<and>
     ep_cooldownTier (aq_during_select a e) = ep_cooldownTier e \<and>
     ep_cooldownTier (aq_before_recheck a e) = ep_cooldownTier e)"

definition steady :: "attempt_env \<Rightarrow> bool" where
  "steady env \<longleftrightarrow> tame (ae_before env) \<and> tame (ae_selected env) \<and> tame (ae_during env) \<and> tame (ae_counted env) \<and>
     tame_acquire (ae_acquire env)"

lemma tiers_below_mono: "tiers_below b p \<Longrightarrow> b \<le> b' \<Longrightarrow> tiers_below b' p"
  by (auto simp: tiers_below_def)

lemma tiers_below_nth:
  "tiers_below b p \<Longrightarrow> i < length (pool_endpoints p) \<Longrightarrow>
   0 \<le> sint (ep_cooldownTier (pool_endpoints p ! i)) \<and> sint (ep_cooldownTier (pool_endpoints p ! i)) < b"
  by (simp add: tiers_below_def)

lemma tiers_below_update:
  assumes "tiers_below b p" "i < length (pool_endpoints p)"
    and "0 \<le> sint (ep_cooldownTier (f (pool_endpoints p ! i)))" "sint (ep_cooldownTier (f (pool_endpoints p ! i))) < b"
  shows "tiers_below b (update_ep i f p)"
proof -
  have "set ((pool_endpoints p)[i := f (pool_endpoints p ! i)]) \<subseteq> insert (f (pool_endpoints p ! i)) (set (pool_endpoints p))"
    by (rule set_update_subset_insert)
  then show ?thesis using assms unfolding tiers_below_def update_ep_def by auto
qed

lemma tiers_below_keep:
  assumes "tiers_below b p" "i < length (pool_endpoints p)" "ep_cooldownTier (f (pool_endpoints p ! i)) = ep_cooldownTier (pool_endpoints p ! i)"
  shows "tiers_below b (update_ep i f p)"
  using tiers_below_update[of b p i f] tiers_below_nth[OF assms(1,2)] assms by simp

lemma tiers_below_endpoints: "pool_endpoints p = pool_endpoints p' \<Longrightarrow> tiers_below b p = tiers_below b p'"
  by (simp add: tiers_below_def)

lemma tame_keeps:
  "tame f \<Longrightarrow> tiers_below b p \<Longrightarrow> tiers_below b (f p)" "tame f \<Longrightarrow> length (pool_endpoints (f p)) = length (pool_endpoints p)"
  by (simp_all add: tame_def)

section \<open>The steps of an attempt return\<close>

lemma acq_tier:
  "acq_select c e = Done (r, e') \<Longrightarrow> ep_cooldownTier e' = ep_cooldownTier e"
  "acq_recheck s e = (r, e') \<Longrightarrow> ep_cooldownTier e' = ep_cooldownTier e"
  by (cases c; auto simp: acq_select.simps split: if_splits list.splits)
     (auto simp: acq_recheck_cases close_session_def split: if_splits)

lemma tier_acquire:
  assumes "tame_acquire a" "acquireSession a e = Done (r, e')"
  shows "ep_cooldownTier e' = ep_cooldownTier e"
proof -
  let ?w = "case ep_limiter e of None \<Rightarrow> e | Some _ \<Rightarrow> aq_during_wait a e"
  have w: "ep_cooldownTier ?w = ep_cooldownTier e" using assms(1) by (simp add: tame_acquire_def split: option.split)
  from assms(2) show ?thesis
  proof (cases rule: acquireSession_cases)
    case (taken s e2)
    with assms(1) w acq_tier(1)[OF taken(1)] acq_tier(2)[OF taken(2)] show ?thesis by (simp add: tame_acquire_def)
  qed (use assms(1) w in \<open>auto dest: acq_tier(1) simp: tame_acquire_def\<close>)
qed

lemma acquire_returns:
  assumes "tame_acquire a"
  shows "\<exists>r e'. acquireSession a e = Done (r, e') \<and> ep_cooldownTier e' = ep_cooldownTier e"
proof (cases "acquireSession a e")
  case (Done re)
  then show ?thesis using tier_acquire[OF assms] by (cases re) blast
qed (use assms acquire_no_panic in \<open>auto simp: tame_acquire_def\<close>)

lemma penalise_returns:
  assumes "tiers_below b p" "b < 2 ^ 31" "i < length (pool_endpoints p)" "tame others"
  shows "\<exists>p'. penalise now others retry th d i p = Done p' \<and> tiers_below (b + 1) p' \<and>
    length (pool_endpoints p') = length (pool_endpoints p)"
proof -
  let ?p1 = "update_ep i incrementFailCount p"
  let ?p2 = "others (the (recordDomainBlock now (ep_index (pool_endpoints ?p1 ! i)) d (Some ?p1)))"
  have "tiers_below b ?p1" by (rule tiers_below_keep[OF assms(1,3)]) (simp add: incrementFailCount_def)
  then have t2: "tiers_below b ?p2"
    by (intro tame_keeps(1)[OF assms(4)]) (simp add: recordDomainBlock_def tiers_below_def)
  have l2: "length (pool_endpoints ?p2) = length (pool_endpoints p)"
    by (simp add: tame_keeps(2)[OF assms(4)] recordDomainBlock_def)
  note tier = tiers_below_nth[OF t2, of i, unfolded l2, OF assms(3)]
  show ?thesis
  proof (cases "sint th \<le> sint (ep_failCount (pool_endpoints ?p2 ! i))")
    case True
    have "sint (ep_cooldownTier (pool_endpoints ?p2 ! i)) < 2 ^ 31 - 1" using tier assms(2) by linarith
    then obtain e where e: "markFailed now (rc_CooldownPeriod retry) (rc_MaxCooldown retry) (pool_endpoints ?p2 ! i) = Done e"
      "sint (ep_cooldownTier e) = sint (ep_cooldownTier (pool_endpoints ?p2 ! i)) + 1"
      using markFailed_runs tier by blast
    have "penalise now others retry th d i p = Done (update_ep i (\<lambda>_. e) ?p2)"
      using True e(1) by (simp add: penalise_def Let_def run_ep_def)
    moreover have "tiers_below (b + 1) (update_ep i (\<lambda>_. e) ?p2)"
      using tiers_below_mono[OF t2] e(2) tier l2 assms(3) by (intro tiers_below_update) simp_all
    ultimately show ?thesis using l2 by simp
  next
    case False
    then have "penalise now others retry th d i p = Done ?p2" by (simp add: penalise_def Let_def)
    then show ?thesis using tiers_below_mono[OF t2] l2 by simp
  qed
qed

lemma settle_returns:
  assumes "tiers_below b p" "b < 2 ^ 31" "i < length (pool_endpoints p)" "steady env"
  shows "\<exists>res p'. settle q rx uni det retry th d env i out p = Done (res, p') \<and> tiers_below (b + 1) p' \<and>
    length (pool_endpoints p') = length (pool_endpoints p)"
proof -
  let ?p = "update_ep i (recordLatency_among (ae_latencies env) (ae_elapsed env)) p"
  have t: "tiers_below b ?p" by (rule tiers_below_keep[OF assms(1,3)]) (simp add: recordLatency_among_def)
  obtain p' where pen: "penalise (ae_now env) (ae_counted env) retry th d i ?p = Done p'" "tiers_below (b + 1) p'"
    "length (pool_endpoints p') = length (pool_endpoints p)"
    using penalise_returns[OF t assms(2), of i "ae_counted env" "ae_now env" retry th d] assms(3,4) by (auto simp: steady_def)
  have "0 < b" using tiers_below_nth[OF assms(1,3)] by linarith
  then have ok: "tiers_below (b + 1) (update_ep i (\<lambda>e. resetFailCount (recordSuccess e)) ?p)"
    using tiers_below_mono[OF t, of "b + 1"] assms(3)
    by (intro tiers_below_update[of _ ?p]) (simp_all add: resetFailCount_def recordSuccess_def resetTier_def)
  obtain resp err where out: "out = (resp, err)" by fastforce
  show ?thesis
    using pen ok tiers_below_mono[OF t] by (cases err) (auto simp: settle_def Let_def out)
qed

lemma attempt_returns:
  assumes "tiers_below b (cs_pool st)" "b < 2 ^ 31" "\<And>k. steady (envs k)"
  shows "\<exists>res st'. attempt q rx uni det retry th d envs st = Done (res, st') \<and> tiers_below (b + 1) (cs_pool st')"
proof -
  define env where "env = envs (cs_attempts st)"
  have env: "tame (ae_before env)" "tame (ae_selected env)" "tame (ae_during env)" "tame_acquire (ae_acquire env)" "steady env"
    using assms(3) by (simp_all add: env_def steady_def)
  define p where "p = ae_before env (cs_pool st)"
  have tp: "tiers_below b p" unfolding p_def by (rule tame_keeps(1)[OF env(1) assms(1)])
  obtain sel p' where sel: "getNextEndpointForDomain d (ae_obs env p) (ae_rand env) (Some p) = (sel, Some p')"
    and eps: "pool_endpoints p' = pool_endpoints p" using getNext_pool by blast
  have tp': "tiers_below b p'" using tiers_below_endpoints[OF eps] tp by simp
  show ?thesis
  proof (cases sel)
    case (Inl err)
    then show ?thesis using sel tiers_below_mono[OF tp', of "b + 1"]
      by (simp add: attempt_def Let_def env_def[symmetric] p_def[symmetric])
  next
    case (Inr i)
    let ?p2 = "ae_selected env p'"
    have t2: "tiers_below b ?p2" by (rule tame_keeps(1)[OF env(2) tp'])
    have i: "i < length (pool_endpoints ?p2)"
      using getNext_alive sel Inr eps tame_keeps(2)[OF env(2)] by auto
    obtain r e where acq: "acquireSession (ae_acquire env) (pool_endpoints ?p2 ! i) = Done (r, e)"
      "ep_cooldownTier e = ep_cooldownTier (pool_endpoints ?p2 ! i)" using acquire_returns[OF env(4)] by blast
    have t3: "tiers_below b (update_ep i (\<lambda>_. e) ?p2)" by (rule tiers_below_keep[OF t2 i]) (simp add: acq(2))
    show ?thesis
    proof (cases r)
      case (Inl err)
      then show ?thesis using sel Inr acq(1) tiers_below_mono[OF t3, of "b + 1"]
        by (simp add: attempt_def Let_def env_def[symmetric] p_def[symmetric])
    next
      case (Inr s)
      let ?p4 = "ae_during env (update_ep i (\<lambda>_. e) ?p2)"
      have t4: "tiers_below b ?p4" by (rule tame_keeps(1)[OF env(3) t3])
      have l4: "i < length (pool_endpoints ?p4)" using i tame_keeps(2)[OF env(3)] by simp
      obtain res p5 where p5: "settle q rx uni det retry th d env i (ae_fn env s) ?p4 = Done (res, p5)" "tiers_below (b + 1) p5"
        "length (pool_endpoints p5) = length (pool_endpoints ?p4)"
        using settle_returns[OF t4 assms(2) l4 env(5)] by blast
      have "tiers_below (b + 1) (update_ep i (releaseSession (Some s)) p5)"
        using l4 p5(3) by (intro tiers_below_keep[OF p5(2)]) (simp_all add: releaseSession_def close_session_def)
      then show ?thesis using sel \<open>sel = Inr i\<close> acq(1) Inr p5(1)
        by (simp add: attempt_def Let_def env_def[symmetric] p_def[symmetric])
    qed
  qed
qed

section \<open>The whole request\<close>


text \<open>A request on the sample client whose context expires while it waits for a session.\<close>

definition expiring_env :: attempt_env where
  "expiring_env = (quiet_env (\<lambda>_. (Some ok_response, None)))\<lparr>ae_acquire := quiet_acquire\<lparr>aq_case := CaseCtx CtxDeadlineExceeded\<rparr>\<rparr>"


end
