(* ===== verification/Interleaving.thy ===== *)
theory Interleaving
  imports Goroutines Termination
begin

text \<open>
  Properties of a pool under any interleaving of any number of goroutines (\<open>Goroutines\<close>): each of its
  endpoints is a machine of \<open>Cooldown\<close>, so that what holds of every run of that machine holds in the
  pool; sessions are used by one goroutine at a time, are never closed under its feet, and are all
  closed once in the end; and in every state some goroutine can take a step.
\<close>

section \<open>What a goroutine holds\<close>

fun received_by :: "nat \<Rightarrow> pc \<Rightarrow> session list" where
  "received_by i (Received job j s) = (if j = i then [s] else [])"
| "received_by i _ = []"

fun lease :: "pc \<Rightarrow> (nat \<times> session) option" where
  "lease (Using job i s) = Some (i, s)"
| "lease (Timing d i s out) = Some (i, s)"
| "lease (Counting job i so err) = map_option (Pair i) so"
| "lease (Marking d i so err) = map_option (Pair i) so"
| "lease (Testing job i so err) = map_option (Pair i) so"
| "lease (Cooling job i so err) = map_option (Pair i) so"
| "lease (Succeeding job i s) = Some (i, s)"
| "lease (Untiering job i s) = Some (i, s)"
| "lease (Clearing job i so) = map_option (Pair i) so"
| "lease (Releasing job i s res) = Some (i, s)"
| "lease _ = None"

definition borrowed_by :: "nat \<Rightarrow> pc \<Rightarrow> session list" where
  "borrowed_by i c = (case lease c of None \<Rightarrow> [] | Some (j, s) \<Rightarrow> if j = i then [s] else [])"

text \<open>The endpoints a goroutine refers to are endpoints of the pool.\<close>

fun pc_ok :: "nat \<Rightarrow> pc \<Rightarrow> bool" where
  "pc_ok n (Start job) = job_ok n job"
| "pc_ok n (Scanning job is cs tot) = (set is \<union> fst ` set cs \<subseteq> {..<n})"
| "pc_ok n (Entering job i) = (i < n)" | "pc_ok n (Limiting job i) = (i < n)" | "pc_ok n (Waiting job i) = (i < n)"
| "pc_ok n (Received job i s) = (i < n)" | "pc_ok n (Using job i s) = (i < n)" | "pc_ok n (Timing d i s out) = (i < n)"
| "pc_ok n (Counting job i so err) = (i < n)" | "pc_ok n (Marking d i so err) = (i < n)"
| "pc_ok n (Testing job i so err) = (i < n)" | "pc_ok n (Cooling job i so err) = (i < n)"
| "pc_ok n (Succeeding job i s) = (i < n)" | "pc_ok n (Untiering job i s) = (i < n)"
| "pc_ok n (Clearing job i so) = (i < n)" | "pc_ok n (Releasing job i s res) = (i < n)"
| "pc_ok n (Ended res) = True"

text \<open>How a step of the control flow moves a session.\<close>

named_theorems leases \<open>what the program counters hold\<close>

lemma borrowed_by_lease [leases]:
  "lease c = None \<Longrightarrow> borrowed_by i c = []" "lease c = Some (j, s) \<Longrightarrow> borrowed_by i c = (if j = i then [s] else [])"
  by (simp_all add: borrowed_by_def)

lemma leave_holds [leases]: "received_by i (leave job j so res) = []" "lease (leave job j so res) = map_option (Pair j) so"
  by (simp_all add: leave_def split: option.split)

lemma refused_holds [leases]: "received_by i (refused job j err) = []" "lease (refused job j err) = None"
  by (cases job; simp)+

lemma counted_holds [leases]: "received_by i (counted job j so err) = []" "lease (counted job j so err) = map_option (Pair j) so"
  by (cases job; simp)+

lemma released_holds [leases]: "received_by i (released job j res) = []" "lease (released job j res) = None"
  by (cases job; cases res; simp)+

lemma judged_holds [leases]: "received_by i (judged S d j s idx out) = []" "lease (judged S d j s idx out) = Some (j, s)"
  by (simp_all add: judged_def split: prod.split option.split)

lemma answered_holds [leases]:
  "answered job j s out = Done c \<Longrightarrow> received_by i c = []" "answered job j s out = Done c \<Longrightarrow> lease c = Some (j, s)"
  by (cases job; auto)+

lemma end_scan_holds [leases]: "received_by i (end_scan job cs tot u) = []" "lease (end_scan job cs tot u) = None"
  by (simp_all add: end_scan_def split: list.split prod.split)

lemma begin_job_holds [leases]:
  "begin_job job p = (c, p') \<Longrightarrow> received_by i c = []" "begin_job job p = (c, p') \<Longrightarrow> lease c = None"
  "begin_job job p = (c, p') \<Longrightarrow> pool_endpoints p' = pool_endpoints p \<and> pool_retryConfig p' = pool_retryConfig p"
  by (cases job; auto simp: Let_def split: if_splits)+

text \<open>A step leaves the number of endpoints and the configuration alone, and its goroutine inside the pool.\<close>

lemma single_scan:
  assumes "scan d obs [i] cs tot t = (cs', tot', t')"
  shows "fst ` set cs' \<subseteq> insert i (fst ` set cs)"
  using assms by (auto split: if_splits prod.splits)

lemma end_scan_ok: "fst ` set cs \<subseteq> {..<n} \<Longrightarrow> pc_ok n (end_scan job cs tot u)"
  using draw_mem[of cs u tot] by (auto simp: end_scan_def split: list.split)

lemma control_ok:
  "i < n \<Longrightarrow> pc_ok n (leave job i so res)" "i < n \<Longrightarrow> pc_ok n (refused job i err)"
  "i < n \<Longrightarrow> pc_ok n (counted job i so err)" "i < n \<Longrightarrow> pc_ok n (released job i res)"
  "i < n \<Longrightarrow> pc_ok n (judged S d i s idx out)" "i < n \<Longrightarrow> answered job i s out = Done c \<Longrightarrow> pc_ok n c"
proof -
  assume i: "i < n"
  show "pc_ok n (leave job i so res)" using i by (simp add: leave_def split: option.split)
  show "pc_ok n (refused job i err)" using i by (cases job) simp_all
  show "pc_ok n (counted job i so err)" using i by (cases job) simp_all
  show "pc_ok n (released job i res)" using i by (cases job; cases res) simp_all
  show "pc_ok n (judged S d i s idx out)" using i by (simp add: judged_def split: prod.split option.split)
  show "answered job i s out = Done c \<Longrightarrow> pc_ok n c" using i by (cases job) auto
qed

lemma acquired_ok: "i < n \<Longrightarrow> (\<And>s. pc_ok n (next s)) \<Longrightarrow> pc_ok n (acquired job i next r)"
  by (simp add: acquired_def control_ok split: sum.split)

lemma begin_job_ok: "begin_job job p = (c, p') \<Longrightarrow> job_ok (length (pool_endpoints p)) job \<Longrightarrow> pc_ok (length (pool_endpoints p)) c"
  by (cases job) (auto simp: Let_def split: if_splits)

lemma advance_ok:
  assumes "advance S ch now c p = Done (c', p')" "pc_ok (length (pool_endpoints p)) c"
  shows "length (pool_endpoints p') = length (pool_endpoints p) \<and> pool_retryConfig p' = pool_retryConfig p \<and>
    pc_ok (length (pool_endpoints p)) c'"
  using assms
proof (cases "(S, ch, now, c, p)" rule: advance.cases)
  case (1 S ch now job p)
  with assms show ?thesis using begin_job_holds(3)[of job p c' p'] begin_job_ok[of job p c' p'] by simp
next
  case (2 S ch now job i "is" cs tot p)
  obtain cs' tot' t where sc: "scan (job_domain job) (quiet now p) [i] cs tot (pool_domains p) = (cs', tot', t)"
    by (metis prod_cases3)
  with 2 assms have "c' = Scanning job is cs' tot'" "p' = p\<lparr>pool_domains := t\<rparr>" by (simp_all del: scan.simps)
  then show ?thesis using single_scan[OF sc] assms(2) 2 by auto
next
  case (6 S ch now job i p)
  then obtain r e where "c' = acquired job i (Received job i) r" "p' = update_ep i (\<lambda>_. e) p"
    using assms(1) by (auto split: decision.splits)
  then show ?thesis using 6 assms(2) by (simp add: acquired_ok)
next
  case (7 S ch now job i s p)
  then show ?thesis using assms by (auto simp: acquired_ok split: prod.splits)
qed (auto simp: control_ok end_scan_ok acquired_def run_ep_def recordDomainBlock_def split: decision.splits option.splits sum.splits if_splits)


section \<open>Every endpoint is a machine of its own\<close>

text \<open>
  The machine \<open>t\<close> of the endpoint at position \<open>i\<close> keeps track of the pool: the clock, the endpoint, and the
  sessions the goroutine \<open>c\<close> holds of it besides those (\<open>R\<close>, \<open>B\<close>) that the others hold.
\<close>

definition tracks ::
  "nat \<Rightarrow> session multiset \<Rightarrow> session multiset \<Rightarrow> instant \<Rightarrow> Pool \<Rightarrow> pc \<Rightarrow> ep_sys \<Rightarrow> bool" where
  "tracks i R B now p c t \<longleftrightarrow> es_now t = now \<and> es_ep t = pool_endpoints p ! i \<and>
     mset (es_received t) = R + mset (received_by i c) \<and> mset (es_borrowed t) = B + mset (borrowed_by i c)"

definition follows ::
  "RetryConfig \<Rightarrow> nat \<Rightarrow> session multiset \<Rightarrow> session multiset \<Rightarrow> instant \<Rightarrow> Pool \<Rightarrow> pc \<Rightarrow> ep_sys \<Rightarrow> bool" where
  "follows retry i R B now p c t \<longleftrightarrow> (\<exists>t'. ep_steps (rc_CooldownPeriod retry) (rc_MaxCooldown retry) t t' \<and>
     tracks i R B now p c t' \<and> es_closing t' = es_closing t)"

lemma follows_same:
  assumes "tracks i R B now p c t" "pool_endpoints p' ! i = pool_endpoints p ! i"
    "received_by i c' = received_by i c" "borrowed_by i c' = borrowed_by i c"
  shows "follows retry i R B now p' c' t"
  using assms unfolding follows_def tracks_def by (intro exI[of _ t]) simp

lemma follows_op:
  assumes "tracks i R B now p c t" "i < length (pool_endpoints p)"
    and step: "ep_step (rc_CooldownPeriod retry) (rc_MaxCooldown retry) t (t\<lparr>es_ep := f (es_ep t)\<rparr>) \<or> j \<noteq> i"
    and "received_by i c' = received_by i c" "borrowed_by i c' = borrowed_by i c"
  shows "follows retry i R B now (update_ep j f p) c' t"
proof (cases "j = i")
  case True
  have "tracks i R B now (update_ep i f p) c' (t\<lparr>es_ep := f (es_ep t)\<rparr>)"
    using assms(1,2,4,5) by (simp add: tracks_def)
  then show ?thesis using step True unfolding follows_def
    by (intro exI[of _ "t\<lparr>es_ep := f (es_ep t)\<rparr>"]) (simp add: r_into_rtranclp)
next
  case False
  then show ?thesis by (intro follows_same[OF assms(1)]) (simp_all add: assms(4,5))
qed

lemma update_ep_const: "update_ep i (\<lambda>_. f (pool_endpoints p ! i)) p = update_ep i f p"
  by (simp add: update_ep_def)


lemma follows_wait:
  assumes tr: "tracks i R B now p (Waiting job j) t" and i: "i < length (pool_endpoints p)"
    and sel: "acq_select c (pool_endpoints p ! j) = Done (r, e)"
  shows "follows retry i R B now (update_ep j (\<lambda>_. e) p) (acquired job j (Received job j) r) t"
proof (cases r)
  case (Inl err)
  then have "e = pool_endpoints p ! j" using sel by (cases c) (auto simp: acq_select.simps split: if_splits list.splits)
  then have "pool_endpoints (update_ep j (\<lambda>_. e) p) ! i = pool_endpoints p ! i" by (simp add: update_ep_def)
  then show ?thesis using Inl by (intro follows_same[OF tr]) (simp_all add: acquired_def leases)
next
  case (Inr x)
  then have c: "acq_select CaseSession (pool_endpoints p ! j) = Done (Inr x, e)" using sel by (cases c) (auto split: if_splits)
  show ?thesis
  proof (cases "j = i")
    case True
    let ?t = "t\<lparr>es_ep := e, es_received := x # es_received t\<rparr>"
    have "ep_step (rc_CooldownPeriod retry) (rc_MaxCooldown retry) t ?t"
      by (rule receive) (use c tr True in \<open>simp add: tracks_def\<close>)
    moreover have "tracks i R B now (update_ep j (\<lambda>_. e) p) (acquired job j (Received job j) r) ?t"
      using tr True Inr i by (simp add: tracks_def acquired_def leases)
    ultimately show ?thesis unfolding follows_def by (intro exI[of _ ?t]) (simp add: r_into_rtranclp)
  next
    case False
    then show ?thesis using Inr by (intro follows_same[OF tr]) (simp_all add: acquired_def leases)
  qed
qed

lemma follows_recheck:
  assumes tr: "tracks i R B now p (Received job j x) t" and i: "i < length (pool_endpoints p)"
    and chk: "acq_recheck x (pool_endpoints p ! j) = (r, e)"
  shows "follows retry i R B now (update_ep j (\<lambda>_. e) p) (acquired job j (Using job j) r) t"
proof (cases "j = i")
  case True
  let ?t = "t\<lparr>es_ep := e, es_received := remove1 x (es_received t),
      es_borrowed := (case r of Inl _ \<Rightarrow> es_borrowed t | Inr y \<Rightarrow> y # es_borrowed t)\<rparr>"
  have "x \<in># mset (es_received t)" using tr True unfolding tracks_def by simp
  then have "ep_step (rc_CooldownPeriod retry) (rc_MaxCooldown retry) t ?t"
    by (intro recheck) (use chk tr True in \<open>simp_all add: tracks_def\<close>)
  moreover have "r = Inr y \<Longrightarrow> y = x" for y using chk by (auto simp: acq_recheck_cases split: if_splits)
  then have "tracks i R B now (update_ep j (\<lambda>_. e) p) (acquired job j (Using job j) r) ?t"
    using tr True i by (auto simp: tracks_def acquired_def leases split: sum.split)
  ultimately show ?thesis unfolding follows_def by (intro exI[of _ ?t]) (simp add: r_into_rtranclp)
next
  case False
  then show ?thesis by (intro follows_same[OF tr]) (simp_all add: acquired_def leases split: sum.split)
qed

lemma follows_release:
  assumes tr: "tracks i R B now p (Releasing job j x res) t" and i: "i < length (pool_endpoints p)"
  shows "follows retry i R B now (update_ep j (releaseSession (Some x)) p) (released job j res) t"
proof (cases "j = i")
  case True
  let ?t = "t\<lparr>es_ep := releaseSession (Some x) (es_ep t), es_borrowed := remove1 x (es_borrowed t)\<rparr>"
  have "x \<in># mset (es_borrowed t)" using tr True unfolding tracks_def by (simp add: leases)
  then have "ep_step (rc_CooldownPeriod retry) (rc_MaxCooldown retry) t ?t" by (intro release) simp
  moreover have "tracks i R B now (update_ep j (releaseSession (Some x)) p) (released job j res) ?t"
    using tr True i by (simp add: tracks_def leases)
  ultimately show ?thesis unfolding follows_def by (intro exI[of _ ?t]) (simp add: r_into_rtranclp)
next
  case False
  then show ?thesis by (intro follows_same[OF tr]) (simp_all add: leases)
qed

lemma follows_cool:
  assumes tr: "tracks i R B now p c t" and i: "i < length (pool_endpoints p)" and mu: "\<not> mu_held (pool_endpoints p ! j)"
    and run: "run_ep j (markFailed now (rc_CooldownPeriod retry) (rc_MaxCooldown retry)) p = Done p'"
    and same: "received_by i c' = received_by i c" "borrowed_by i c' = borrowed_by i c"
  shows "follows retry i R B now p' c' t"
proof -
  obtain e where e: "markFailed now (rc_CooldownPeriod retry) (rc_MaxCooldown retry) (pool_endpoints p ! j) = Done e"
    "p' = update_ep j (\<lambda>_. e) p" using run by (auto simp: run_ep_def)
  have "ep_step (rc_CooldownPeriod retry) (rc_MaxCooldown retry) t (t\<lparr>es_ep := e\<rparr>) \<or> j \<noteq> i"
    using e(1) mu tr by (auto simp: tracks_def intro: mark_failed)
  then show ?thesis unfolding e(2) by (intro follows_op[OF tr i _ same])
qed

text \<open>A step of a goroutine is, for every endpoint, a run of its machine (of one step or none).\<close>

lemma advance_follows:
  assumes adv: "advance S ch now c p = Done (c', p')" and "i < length (pool_endpoints p)"
    and "pool_retryConfig p = st_retry S" and tr: "tracks i R B now p c t"
  shows "follows (st_retry S) i R B now p' c' t"
  using assms
proof (cases "(S, ch, now, c, p)" rule: advance.cases)
  case (1 S' ch now job p)
  with assms show ?thesis using begin_job_holds[of job p c' p'] by (intro follows_same[OF tr]) (auto simp: leases)
next
  case (2 S' ch now job j "is" cs tot p)
  obtain cs' tot' d where sc: "scan (job_domain job) (quiet now p) [j] cs tot (pool_domains p) = (cs', tot', d)"
    by (metis prod_cases3)
  with 2 assms have "c' = Scanning job is cs' tot'" "p' = p\<lparr>pool_domains := d\<rparr>" by (simp_all del: scan.simps)
  then show ?thesis using 2 by (intro follows_same[OF tr]) (simp_all add: leases)
next
  case (6 S' ch now job j p)
  with assms show ?thesis by (auto intro: follows_wait split: decision.splits)
next
  case (7 S' ch now job j x p)
  with assms show ?thesis by (auto intro: follows_recheck split: prod.splits)
next
  case (9 S' ch' now' d j x out p2)
  with adv obtain ws dt where c': "c' = judged S d j x (ep_index (pool_endpoints p ! j)) out"
    "p' = update_ep j (recordLatency_among ws dt) p" by (auto split: decision.splits)
  show ?thesis unfolding c' using 9 assms(2) by (intro follows_op[OF tr] disjI1 latency) (simp_all add: leases)
next
  case (13 S' ch' now' job j so err p2)
  have "job_retry S p job = st_retry S" using assms(3) by (cases job) simp_all
  with 13 adv have run: "\<not> mu_held (pool_endpoints p ! j)" "c' = leave job j so (Some err)"
    "run_ep j (markFailed now (rc_CooldownPeriod (st_retry S)) (rc_MaxCooldown (st_retry S))) p = Done p'"
    by (auto split: if_splits)
  have "borrowed_by i c' = borrowed_by i c" using 13 by (simp add: run(2) borrowed_by_def leases)
  then show ?thesis using 13 run(2) by (intro follows_cool[OF tr assms(2) run(1,3)]) (simp_all add: leases)
next
  case (17 S' ch now job j x res p)
  with assms show ?thesis by (auto intro: follows_release)
next
  case (10 S' ch' now' job j so err p2)
  with assms show ?thesis by (auto simp: leases borrowed_by_def intro!: follows_op disjI1 inc_fail)
next
  case (14 S' ch' now' job j x p2)
  with assms show ?thesis by (auto simp: leases borrowed_by_def intro!: follows_op disjI1 ep_step.success)
next
  case (15 S' ch' now' job j x p2)
  with assms show ?thesis by (auto simp: leases borrowed_by_def intro!: follows_op disjI1 reset_tier)
next
  case (16 S' ch' now' job j so p2)
  with assms show ?thesis by (auto simp: leases borrowed_by_def intro!: follows_op disjI1 reset_fail)
qed (auto simp: leases borrowed_by_def recordDomainBlock_def intro!: follows_same[OF tr]
       split: decision.splits option.splits if_splits)


section \<open>The pool refines its endpoints\<close>

definition held_in :: "(pc \<Rightarrow> session list) \<Rightarrow> sys \<Rightarrow> session multiset" where
  "held_in f s = mset (concat (map f (sy_gos s)))"

text \<open>Well-formed states, and the relation between the pool and the machine of one endpoint.\<close>

definition sys_ok :: "settings \<Rightarrow> sys \<Rightarrow> bool" where
  "sys_ok S s \<longleftrightarrow> pool_retryConfig (sy_pool s) = st_retry S \<and> (\<forall>c \<in> set (sy_gos s). pc_ok (length (pool_endpoints (sy_pool s))) c)"

definition simulates :: "sys \<Rightarrow> nat \<Rightarrow> ep_sys \<Rightarrow> bool" where
  "simulates s i t \<longleftrightarrow> es_now t = sy_now s \<and> es_ep t = pool_endpoints (sy_pool s) ! i \<and> es_closing t = sy_closing s i \<and>
     mset (es_received t) = held_in (received_by i) s \<and> mset (es_borrowed t) = held_in (borrowed_by i) s"

definition by_others :: "(pc \<Rightarrow> session list) \<Rightarrow> nat \<Rightarrow> sys \<Rightarrow> session multiset" where
  "by_others f k s = mset (concat (map f (take k (sy_gos s) @ drop (Suc k) (sy_gos s))))"

lemma held_in_one: "k < length (sy_gos s) \<Longrightarrow> held_in f s = by_others f k s + mset (f (sy_gos s ! k))"
  unfolding held_in_def by_others_def by (subst id_take_nth_drop[of k "sy_gos s"]) simp_all

lemma held_in_update:
  "k < length (sy_gos s) \<Longrightarrow> held_in f (s\<lparr>sy_gos := (sy_gos s)[k := c], sy_pool := p\<rparr>) = by_others f k s + mset (f c)"
  unfolding held_in_def by_others_def by (simp add: upd_conv_take_nth_drop)

lemma outside_held:
  assumes "outside l" "ep_exec base maxc l v = Some v'"
  shows "ep_exec base maxc l (v\<lparr>es_received := R, es_borrowed := B\<rparr>) = Some (v'\<lparr>es_received := R, es_borrowed := B\<rparr>)"
  using assms by (cases l) (auto simp: guarded_def split: if_splits)

lemma outside_clock:
  assumes "outside l" "ep_exec base maxc l v = Some v'"
  shows "es_now v \<le> es_now v'"
  using assms by (cases l) (auto simp: guarded_def split: if_splits)

lemma sys_exec_ok:
  assumes "sys_exec S ev s = Some s'" "sys_ok S s"
  shows "sys_ok S s' \<and> length (pool_endpoints (sy_pool s')) = length (pool_endpoints (sy_pool s))"
proof (cases ev)
  case (Spawn job)
  with assms show ?thesis by (auto simp: sys_ok_def)
next
  case (Go k ch)
  with assms obtain c p where adv: "k < length (sy_gos s)" "advance S ch (sy_now s) (sy_gos s ! k) (sy_pool s) = Done (c, p)"
    "s' = s\<lparr>sy_gos := (sy_gos s)[k := c], sy_pool := p\<rparr>"
    by (auto split: if_splits run.splits)
  have "pc_ok (length (pool_endpoints (sy_pool s))) (sy_gos s ! k)" using assms(2) adv(1) by (simp add: sys_ok_def)
  note ok = advance_ok[OF adv(2) this]
  have "c' = c \<or> c' \<in> set (sy_gos s)" if "c' \<in> set ((sy_gos s)[k := c])" for c'
    using that set_update_subset_insert by fastforce
  then show ?thesis using ok assms(2) by (auto simp: sys_ok_def adv(3))
next
  case (Outside i l)
  with assms show ?thesis by (auto simp: sys_ok_def put_view_def update_ep_def split: if_splits option.splits)
qed

lemma exec_simulated:
  assumes "sys_exec S ev s = Some s'" "sys_ok S s" "i < length (pool_endpoints (sy_pool s))" "simulates s i t"
  shows "\<exists>t'. ep_steps (rc_CooldownPeriod (st_retry S)) (rc_MaxCooldown (st_retry S)) t t' \<and> simulates s' i t'"
proof (cases ev)
  case (Spawn job)
  with assms have "simulates s' i t" by (auto simp: simulates_def held_in_def borrowed_by_def)
  then show ?thesis by blast
next
  case (Go k ch)
  with assms obtain c p where adv: "k < length (sy_gos s)" "advance S ch (sy_now s) (sy_gos s ! k) (sy_pool s) = Done (c, p)"
    "s' = s\<lparr>sy_gos := (sy_gos s)[k := c], sy_pool := p\<rparr>"
    by (auto split: if_splits run.splits)
  let ?R = "by_others (received_by i) k s" and ?B = "by_others (borrowed_by i) k s"
  have "tracks i ?R ?B (sy_now s) (sy_pool s) (sy_gos s ! k) t"
    using assms(4) held_in_one[OF adv(1)] by (simp add: simulates_def tracks_def)
  moreover have "pool_retryConfig (sy_pool s) = st_retry S" using assms(2) by (simp add: sys_ok_def)
  ultimately have "follows (st_retry S) i ?R ?B (sy_now s) p c t" using advance_follows[OF adv(2) assms(3)] by blast
  then obtain t' where t': "ep_steps (rc_CooldownPeriod (st_retry S)) (rc_MaxCooldown (st_retry S)) t t'"
    "tracks i ?R ?B (sy_now s) p c t'" "es_closing t' = es_closing t" unfolding follows_def by blast
  then have "simulates s' i t'" using assms(4) held_in_update[OF adv(1)] by (simp add: simulates_def tracks_def adv(3))
  then show ?thesis using t'(1) by blast
next
  case (Outside j l)
  let ?b = "rc_CooldownPeriod (st_retry S)" and ?m = "rc_MaxCooldown (st_retry S)"
  obtain v where v: "outside l" "ep_exec ?b ?m l (view s j) = Some v" "s' = put_view j v s"
    using assms(1) Outside by (auto split: if_splits option.splits)
  show ?thesis
  proof (cases "j = i")
    case True
    let ?t = "v\<lparr>es_received := es_received t, es_borrowed := es_borrowed t\<rparr>"
    have "t = (view s i)\<lparr>es_received := es_received t, es_borrowed := es_borrowed t\<rparr>"
      using assms(4) by (cases t) (simp add: simulates_def view_def)
    then have "ep_exec ?b ?m l t = Some ?t" using outside_held[OF v(1,2)] True by metis
    moreover have "simulates s' i ?t"
      using assms(3,4) True by (simp add: v(3) simulates_def put_view_def held_in_def)
    ultimately show ?thesis using ep_exec_step by blast
  next
    case False
    have "ep_step ?b ?m t (t\<lparr>es_now := es_now v\<rparr>)"
      using outside_clock[OF v(1,2)] assms(4) by (intro tick) (simp add: simulates_def view_def)
    moreover have "simulates s' i (t\<lparr>es_now := es_now v\<rparr>)"
      using assms(4) False by (simp add: v(3) simulates_def put_view_def held_in_def)
    ultimately show ?thesis by blast
  qed
qed

lemma reach_ok:
  assumes "sys_reach S (sys_start now p) s" "pool_retryConfig p = st_retry S"
  shows "sys_ok S s" "length (pool_endpoints (sy_pool s)) = length (pool_endpoints p)"
  using assms by (induction rule: sys_reach.induct) (auto simp: sys_ok_def sys_start_def dest: sys_exec_ok)

lemma reach_simulated:
  assumes "sys_reach S (sys_start now p) s" "pool_retryConfig p = st_retry S" "i < length (pool_endpoints p)"
  shows "\<exists>t. ep_steps (rc_CooldownPeriod (st_retry S)) (rc_MaxCooldown (st_retry S)) (ep_start now (pool_endpoints p ! i)) t \<and>
    simulates s i t"
  using assms(1)
proof (induction rule: sys_reach.induct)
  case here
  have "simulates (sys_start now p) i (ep_start now (pool_endpoints p ! i))"
    by (simp add: simulates_def sys_start_def ep_start_def held_in_def)
  then show ?case by blast
next
  case (next_event s ev s')
  then show ?case using exec_simulated[OF next_event(2)] reach_ok[OF next_event(1) assms(2)] assms(3)
    by (metis rtranclp_trans)
qed


section \<open>Where the sessions are\<close>

definition session_of :: "pc \<Rightarrow> session list" where
  "session_of c = (case c of Received job i s \<Rightarrow> [s] | _ \<Rightarrow> (case lease c of None \<Rightarrow> [] | Some (i, s) \<Rightarrow> [s]))"

definition whereabouts :: "sys \<Rightarrow> session list" where
  "whereabouts s = concat (map ep_sessions (pool_endpoints (sy_pool s))) @
     concat (map ep_closedSessions (pool_endpoints (sy_pool s))) @ concat (map session_of (sy_gos s))"

lemma lease_inside: "lease c = Some (j, s) \<Longrightarrow> pc_ok n c \<Longrightarrow> j < n \<and> received_by i c = [] \<and> session_of c = [s]"
  by (cases c) (auto simp: session_of_def)

lemma no_lease: "lease c = None \<Longrightarrow> (\<exists>job j s. c = Received job j s) \<or> (\<forall>i. received_by i c = []) \<and> session_of c = []"
  by (cases c) (auto simp: session_of_def)

lemma session_of_parts:
  assumes "pc_ok n c"
  shows "(\<Sum>i<n. mset (received_by i c) + mset (borrowed_by i c)) = mset (session_of c)"
proof -
  have pick: "(\<Sum>i<n. mset (if j = i then [x] else [])) = {#x#}" if "j < n" for j and x :: session
    using that sum.delta'[of "{..<n}" j "\<lambda>_. {#x#}"] by (simp add: if_distrib[of mset] cong: if_cong)
  show ?thesis
  proof (cases "lease c")
    case None
    from no_lease[OF this] show ?thesis
      using None assms pick by (auto simp: borrowed_by_def) (simp add: session_of_def)
  next
    case (Some js)
    then obtain j x where js: "lease c = Some (j, x)" by (cases js) simp
    show ?thesis using lease_inside[OF js assms] pick js by (simp add: borrowed_by_def)
  qed
qed

lemma held_in_sum: "held_in f s = (\<Sum>c \<leftarrow> sy_gos s. mset (f c))"
  by (simp add: held_in_def mset_concat comp_def)

lemma held_sum:
  assumes "\<forall>c \<in> set cs. pc_ok n c"
  shows "(\<Sum>i<n. (\<Sum>c \<leftarrow> cs. mset (received_by i c)) + (\<Sum>c \<leftarrow> cs. mset (borrowed_by i c))) = mset (concat (map session_of cs))"
  using assms
proof (induction cs)
  case (Cons c cs)
  have "(\<Sum>i<n. mset (received_by i c) + mset (borrowed_by i c)) = mset (session_of c)" using Cons.prems session_of_parts by simp
  then show ?case using Cons by (simp add: sum.distrib ac_simps)
qed simp

lemma reach_owned:
  assumes "sys_reach S (sys_start now p) s" "pool_retryConfig p = st_retry S" "i < length (pool_endpoints p)"
  shows "ep_owned (pool_endpoints (sy_pool s) ! i) + held_in (received_by i) s + held_in (borrowed_by i) s =
    ep_owned (pool_endpoints p ! i)"
proof -
  obtain t where "ep_steps (rc_CooldownPeriod (st_retry S)) (rc_MaxCooldown (st_retry S)) (ep_start now (pool_endpoints p ! i)) t"
    "simulates s i t" using reach_simulated[OF assms] by blast
  then show ?thesis using ep_steps_owned[of _ _ now "pool_endpoints p ! i" t] by (simp add: simulates_def)
qed

lemma owned_whereabouts:
  "sum_list (map ep_owned (pool_endpoints (sy_pool s))) + mset (concat (map session_of (sy_gos s))) = mset (whereabouts s)"
proof -
  have "sum_list (map ep_owned es) = mset (concat (map ep_sessions es) @ concat (map ep_closedSessions es))" for es
    by (induction es) (simp_all add: ep_owned_def)
  then show ?thesis by (simp add: whereabouts_def)
qed

lemma reach_whereabouts:
  assumes r: "sys_reach S (sys_start now p) s" and cfg: "pool_retryConfig p = st_retry S"
  shows "mset (whereabouts s) = sum_list (map ep_owned (pool_endpoints p))"
proof -
  note ok = reach_ok[OF r cfg]
  let ?n = "length (pool_endpoints p)"
  have "sum_list (map ep_owned (pool_endpoints p)) = (\<Sum>i<?n. ep_owned (pool_endpoints p ! i))"
    by (simp add: sum_list_sum_nth atLeast0LessThan)
  also have "\<dots> = (\<Sum>i<?n. ep_owned (pool_endpoints (sy_pool s) ! i) + (held_in (received_by i) s + held_in (borrowed_by i) s))"
    using reach_owned[OF r cfg] by (intro sum.cong) (simp_all add: ac_simps)
  also have "\<dots> = sum_list (map ep_owned (pool_endpoints (sy_pool s))) + mset (concat (map session_of (sy_gos s)))"
    using held_sum[of "sy_gos s" ?n] ok
    by (simp add: sum.distrib held_in_sum sum_list_sum_nth atLeast0LessThan sys_ok_def)
  finally show ?thesis by (simp add: owned_whereabouts)
qed


section \<open>An open endpoint keeps its sessions\<close>

text \<open>As long as an endpoint is not closed none of its sessions is, so that the \<open>default\<close> branch of
  \<open>releaseSession\<close> ("should not happen") is never taken.\<close>

definition open_full :: "int64 \<Rightarrow> ep_sys \<Rightarrow> bool" where
  "open_full n t \<longleftrightarrow> ep_poolSize (es_ep t) = n \<and> int (size (ep_total t)) = sint n \<and>
     (\<not> ep_closed (es_ep t) \<longrightarrow> ep_closedSessions (es_ep t) = [])"

lemma open_fields [frame]:
  "ep_poolSize (close_cancel e) = ep_poolSize e" "ep_poolSize (close_drain e) = ep_poolSize e"
  "ep_poolSize (incrementFailCount e) = ep_poolSize e" "ep_poolSize (resetFailCount e) = ep_poolSize e"
  "ep_poolSize (recordLatency_among ws d e) = ep_poolSize e" "ep_poolSize (countSuccess e) = ep_poolSize e"
  "ep_poolSize (resetTier e) = ep_poolSize e" "ep_poolSize (setState st e) = ep_poolSize e"
  "ep_poolSize (markDead e) = ep_poolSize e" "ep_poolSize (cooled now d e) = ep_poolSize e"
  "ep_poolSize (set_phase i ph e) = ep_poolSize e" "ep_poolSize (drop_timer i e) = ep_poolSize e"
  "ep_poolSize (timer_check i e) = ep_poolSize e" "ep_poolSize (timer_finish i e) = ep_poolSize e"
  "ep_poolSize (close_session x e) = ep_poolSize e" "ep_poolSize (releaseSession (Some x) e) = ep_poolSize e"
  by (simp_all add: counter_ops cooled_def set_phase_def drop_timer_def timer_check_def timer_finish_def
      close_cancel_def close_drain_def cancel_timer_def close_session_def releaseSession_cases split: option.split)

lemma closed_fields [frame]:
  "ep_closed (close_cancel e) = ep_closed e" "ep_closed (close_drain e)"
  "ep_closed (incrementFailCount e) = ep_closed e" "ep_closed (resetFailCount e) = ep_closed e"
  "ep_closed (recordLatency_among ws d e) = ep_closed e" "ep_closed (countSuccess e) = ep_closed e"
  "ep_closed (resetTier e) = ep_closed e" "ep_closed (setState st e) = ep_closed e"
  "ep_closed (markDead e) = ep_closed e" "ep_closed (cooled now d e) = ep_closed e"
  "ep_closed (set_phase i ph e) = ep_closed e" "ep_closed (drop_timer i e) = ep_closed e"
  "ep_closed (timer_check i e) = ep_closed e" "ep_closed (timer_finish i e) = ep_closed e"
  "ep_closed (close_session x e) = ep_closed e"
  by (simp_all add: close_session_def counter_ops cooled_def set_phase_def drop_timer_def timer_check_def timer_finish_def
      close_cancel_def close_drain_def cancel_timer_def split: option.split)

lemma closed_sessions_fields [frame]:
  "ep_closedSessions (close_cancel e) = ep_closedSessions e"
  "ep_closedSessions (incrementFailCount e) = ep_closedSessions e" "ep_closedSessions (resetFailCount e) = ep_closedSessions e"
  "ep_closedSessions (recordLatency_among ws d e) = ep_closedSessions e" "ep_closedSessions (countSuccess e) = ep_closedSessions e"
  "ep_closedSessions (resetTier e) = ep_closedSessions e" "ep_closedSessions (setState st e) = ep_closedSessions e"
  "ep_closedSessions (markDead e) = ep_closedSessions e" "ep_closedSessions (cooled now d e) = ep_closedSessions e"
  "ep_closedSessions (set_phase i ph e) = ep_closedSessions e" "ep_closedSessions (drop_timer i e) = ep_closedSessions e"
  "ep_closedSessions (timer_check i e) = ep_closedSessions e" "ep_closedSessions (timer_finish i e) = ep_closedSessions e"
  by (simp_all add: counter_ops cooled_def set_phase_def drop_timer_def timer_check_def timer_finish_def
      close_cancel_def cancel_timer_def split: option.split)

lemma release_room:
  assumes "open_full n t" "x \<in> set (es_borrowed t)" "\<not> ep_closed (es_ep t)"
  shows "releaseSession (Some x) (es_ep t) = (es_ep t)\<lparr>ep_sessions := ep_sessions (es_ep t) @ [x]\<rparr>"
proof -
  have "0 < int (length (es_borrowed t))" using assms(2) by (cases "es_borrowed t") auto
  then have "int (length (ep_sessions (es_ep t))) < sint (ep_poolSize (es_ep t))"
    using assms(1) unfolding open_full_def ep_total_def ep_owned_def by (simp del: of_nat_0_less_iff)
  with assms(3) show ?thesis by (simp add: releaseSession_cases)
qed

lemma open_full_step:
  assumes "ep_step base maxc s t" "open_full n s"
  shows "open_full n t"
proof -
  have tot: "ep_total t = ep_total s" by (rule ep_step_total[OF assms(1)])
  have "ep_poolSize (es_ep t) = ep_poolSize (es_ep s) \<and> (\<not> ep_closed (es_ep t) \<longrightarrow> \<not> ep_closed (es_ep s) \<and> ep_closedSessions (es_ep t) = [])"
    if "open_full n s" using assms(1) that
  proof (induction rule: ep_step.induct)
    case (release x s)
    then show ?case using release_room[of n s x] by (cases "ep_closed (es_ep s)") (auto simp: open_full_def frame releaseSession_cases)
  qed (auto simp: open_full_def frame acq_select_session acq_recheck_cases markFailed_Done split: if_splits)
  with tot assms(2) show ?thesis by (simp add: open_full_def)
qed

lemma open_full_steps: "ep_steps base maxc s t \<Longrightarrow> open_full n s \<Longrightarrow> open_full n t"
  by (induction rule: rtranclp_induct) (auto intro: open_full_step)

lemma fresh_open:
  assumes "fresh e"
  shows "open_full (ep_poolSize e) (ep_start now e)" "0 < sint (ep_poolSize e)" "ep_inv (ep_start now e)"
proof -
  from assms obtain u i n r ss where e: "e = (blank_endpoint u i n r)\<lparr>ep_sessions := ss\<rparr>" "int (length ss) = sint (ep_poolSize e)"
    unfolding fresh_def by blast
  show "0 < sint (ep_poolSize e)" using blank_poolSize_positive[of u i n r] by (simp add: e(1))
  have c: "ep_closedSessions e = []" "\<not> ep_closed e" by (simp_all add: e(1) blank_endpoint_def Let_def)
  then show "open_full (ep_poolSize e) (ep_start now e)"
    using e(2) by (simp add: open_full_def ep_start_def ep_total_def ep_owned_def) (simp add: e(1))
  have "channel_ok e" using e(2) c(2) by (simp add: channel_ok_def) (simp add: e(1))
  then show "ep_inv (ep_start now e)"
    using blank_endpoint_inv[of u i n r] by (simp add: ep_inv_def ep_start_def) (simp add: e(1) keeps)
qed


section \<open>The pool as built\<close>

lemma built_pool:
  assumes "newPoolWithFactory q parse cfg retry factory k = (Inr p, dropped, k')"
  shows "pool_retryConfig p = retry" and "\<forall>e \<in> set (pool_endpoints p). fresh e"
    and "sum_list (map ep_owned (pool_endpoints p)) =
      mset (pool_created factory (pc_Endpoints cfg) (nat (sint (sessionPoolSize cfg))) k k')"
proof -
  show "pool_retryConfig p = retry" "\<forall>e \<in> set (pool_endpoints p). fresh e" using newPool_outcome[OF assms] by simp_all
  obtain res eps failed k1 where ne: "new_endpoints (sessionPoolSize cfg) (pc_RequestsPerSecond cfg) factory 1
      (pc_Endpoints cfg) k = (res, eps, failed, k1)" by (metis prod_cases4)
  then have "res = None" "pool_endpoints p = eps" "k' = k1"
    using assms by (auto simp: newPoolWithFactory_def blank_pool_def split: option.splits)
  then show "sum_list (map ep_owned (pool_endpoints p)) =
      mset (pool_created factory (pc_Endpoints cfg) (nat (sint (sessionPoolSize cfg))) k k')"
    using new_endpoints_owned[OF ne sessionPoolSize_positive] by auto
qed

section \<open>Properties\<close>

text \<open>C3. The concurrent pool refines its endpoints: whatever goroutines are started and however their
  steps, the recovery goroutines, administration and closing interleave, what happens to an endpoint
  is a run of the machine of that endpoint, with the sessions the goroutines hold as its borrowed
  ones.  Every theorem on all runs of the machine holds of every endpoint of the pool.\<close>

theorem pool_refines_endpoints:
  assumes "newPoolWithFactory q parse cfg (st_retry S) factory k = (Inr p, dropped, k')"
    and "sys_reach S (sys_start now p) s" and "i < length (pool_endpoints p)"
  shows "\<exists>t. ep_steps (rc_CooldownPeriod (st_retry S)) (rc_MaxCooldown (st_retry S)) (ep_start now (pool_endpoints p ! i)) t \<and>
    es_ep t = pool_endpoints (sy_pool s) ! i \<and> es_now t = sy_now s \<and>
    mset (es_received t) = mset (concat (map (received_by i) (sy_gos s))) \<and>
    mset (es_borrowed t) = mset (concat (map (borrowed_by i) (sy_gos s))) \<and>
    ep_inv t"
proof -
  obtain t where t: "ep_steps (rc_CooldownPeriod (st_retry S)) (rc_MaxCooldown (st_retry S)) (ep_start now (pool_endpoints p ! i)) t"
    "simulates s i t" using reach_simulated[OF assms(2) built_pool(1)[OF assms(1)] assms(3)] by blast
  have "fresh (pool_endpoints p ! i)" using built_pool(2)[OF assms(1)] assms(3) by simp
  then have "ep_inv t" using ep_steps_inv[OF t(1)] fresh_open(3) by blast
  with t show ?thesis by (auto simp: simulates_def held_in_def)
qed

text \<open>C2. A session is in one place: in the channel of an endpoint, closed, or in the hands of one
  goroutine.  In particular no two goroutines ever use the same session, and no session is closed
  while a goroutine uses it.\<close>

theorem session_exclusive:
  assumes "newPoolWithFactory q parse cfg (st_retry S) factory k = (Inr p, dropped, k')"
    and "distinct (pool_created factory (pc_Endpoints cfg) (nat (sint (sessionPoolSize cfg))) k k')"
    and "sys_reach S (sys_start now p) s"
  shows "distinct (concat (map ep_sessions (pool_endpoints (sy_pool s))) @
      concat (map ep_closedSessions (pool_endpoints (sy_pool s))) @ concat (map session_of (sy_gos s))) \<and>
    set (concat (map ep_sessions (pool_endpoints (sy_pool s))) @
      concat (map ep_closedSessions (pool_endpoints (sy_pool s))) @ concat (map session_of (sy_gos s))) =
    set (pool_created factory (pc_Endpoints cfg) (nat (sint (sessionPoolSize cfg))) k k')"
proof -
  have m: "mset (whereabouts s) = mset (pool_created factory (pc_Endpoints cfg) (nat (sint (sessionPoolSize cfg))) k k')"
    using reach_whereabouts[OF assms(3) built_pool(1)[OF assms(1)]] built_pool(3)[OF assms(1)] by simp
  from mset_eq_imp_distinct_iff[OF m] mset_eq_setD[OF m] assms(2) show ?thesis by (simp add: whereabouts_def)
qed

text \<open>In the end every session is closed exactly once: when all endpoints have been closed and no
  goroutine uses a session any more, the sessions closed are those the factory created for the pool,
  each once, whatever was interleaved with the closing.\<close>

lemma all_closed_in_the_end:
  assumes "newPoolWithFactory q parse cfg (st_retry S) factory k = (Inr p, dropped, k')"
    and "sys_reach S (sys_start now p) s"
    and "\<forall>e \<in> set (pool_endpoints (sy_pool s)). ep_closed e" and "\<forall>c \<in> set (sy_gos s). session_of c = []"
  shows "mset (concat (map ep_closedSessions (pool_endpoints (sy_pool s)))) =
    mset (pool_created factory (pc_Endpoints cfg) (nat (sint (sessionPoolSize cfg))) k k')"
proof -
  have "ep_sessions e = []" if "e \<in> set (pool_endpoints (sy_pool s))" for e
  proof -
    obtain i where i: "i < length (pool_endpoints p)" "e = pool_endpoints (sy_pool s) ! i"
      using \<open>e \<in> _\<close> reach_ok(2)[OF assms(2) built_pool(1)[OF assms(1)]] by (metis in_set_conv_nth)
    obtain t where t: "ep_steps (rc_CooldownPeriod (st_retry S)) (rc_MaxCooldown (st_retry S)) (ep_start now (pool_endpoints p ! i)) t"
      "simulates s i t" using reach_simulated[OF assms(2) built_pool(1)[OF assms(1)] i(1)] by blast
    have "fresh (pool_endpoints p ! i)" using built_pool(2)[OF assms(1)] i(1) by simp
    then have "ep_inv t" using ep_steps_inv[OF t(1)] fresh_open(3) by blast
    then show ?thesis using t(2) assms(3) that i(2) by (simp add: ep_inv_def channel_ok_def simulates_def)
  qed
  then have "mset (whereabouts s) = mset (concat (map ep_closedSessions (pool_endpoints (sy_pool s))))"
    using assms(4) by (simp add: whereabouts_def)
  then show ?thesis
    using reach_whereabouts[OF assms(2) built_pool(1)[OF assms(1)]] built_pool(3)[OF assms(1)] by simp
qed

text \<open>The goroutines that have a session of an endpoint.\<close>

definition uses :: "nat \<Rightarrow> pc \<Rightarrow> bool" where
  "uses i c \<longleftrightarrow> received_by i c @ borrowed_by i c \<noteq> []"

lemma uses_length: "length (received_by i c) + length (borrowed_by i c) = (if uses i c then 1 else 0)"
  by (cases c) (auto simp: uses_def borrowed_by_def split: option.split)

lemma held_in_uses: "size (held_in (received_by i) s) + size (held_in (borrowed_by i) s) = length (filter (uses i) (sy_gos s))"
proof -
  have "size (mset (concat (map (received_by i) cs))) + size (mset (concat (map (borrowed_by i) cs))) = length (filter (uses i) cs)" for cs
  proof (induction cs)
    case (Cons c cs)
    then show ?case using uses_length[of i c] by (auto split: if_splits)
  qed simp
  then show ?thesis by (simp add: held_in_def)
qed

lemma open_endpoint_full:
  assumes "newPoolWithFactory q parse cfg (st_retry S) factory k = (Inr p, dropped, k')"
    and "sys_reach S (sys_start now p) s" and "i < length (pool_endpoints p)"
  shows "0 < sint (ep_poolSize (pool_endpoints (sy_pool s) ! i))"
    and "\<not> ep_closed (pool_endpoints (sy_pool s) ! i) \<Longrightarrow> ep_closedSessions (pool_endpoints (sy_pool s) ! i) = [] \<and>
      int (length (ep_sessions (pool_endpoints (sy_pool s) ! i)) + length (filter (uses i) (sy_gos s))) =
        sint (ep_poolSize (pool_endpoints (sy_pool s) ! i))"
proof -
  let ?e = "pool_endpoints p ! i"
  obtain t where t: "ep_steps (rc_CooldownPeriod (st_retry S)) (rc_MaxCooldown (st_retry S)) (ep_start now ?e) t"
    "simulates s i t" using reach_simulated[OF assms(2) built_pool(1)[OF assms(1)] assms(3)] by blast
  have f: "fresh ?e" using built_pool(2)[OF assms(1)] assms(3) by simp
  have "open_full (ep_poolSize ?e) t" by (rule open_full_steps[OF t(1) fresh_open(1)[OF f]])
  moreover have "length (es_received t) = size (held_in (received_by i) s)" "length (es_borrowed t) = size (held_in (borrowed_by i) s)"
    using t(2) by (simp_all add: simulates_def flip: size_mset)
  ultimately show "0 < sint (ep_poolSize (pool_endpoints (sy_pool s) ! i))"
    and "\<not> ep_closed (pool_endpoints (sy_pool s) ! i) \<Longrightarrow> ep_closedSessions (pool_endpoints (sy_pool s) ! i) = [] \<and>
      int (length (ep_sessions (pool_endpoints (sy_pool s) ! i)) + length (filter (uses i) (sy_gos s))) =
        sint (ep_poolSize (pool_endpoints (sy_pool s) ! i))"
    using t(2) fresh_open(2)[OF f] by (auto simp: open_full_def simulates_def ep_total_def ep_owned_def held_in_uses[symmetric])
qed



text \<open>What a goroutine may wait for: a session of an open endpoint whose channel is empty, or the lock a
  recovery goroutine holds.\<close>

definition stuck_at :: "Pool \<Rightarrow> pc \<Rightarrow> bool" where
  "stuck_at p c \<longleftrightarrow>
     (\<exists>job i. c = Waiting job i \<and> \<not> ep_closed (pool_endpoints p ! i) \<and> ep_sessions (pool_endpoints p ! i) = []) \<or>
     (\<exists>job i so err. c = Cooling job i so err \<and> mu_held (pool_endpoints p ! i))"

text \<open>Events that are the program's own doing: no context ends, no new work arrives.\<close>

fun productive :: "event \<Rightarrow> bool" where
  "productive (Go k ch) = (\<forall>err. ch \<noteq> Ready (CaseCtx err))"
| "productive (Outside i (LFinish j)) = True"
| "productive _ = False"

lemma advance_progress:
  assumes "pc_ok (length (pool_endpoints p)) c" "tiers_below (2 ^ 31 - 1) p" "\<forall>res. c \<noteq> Ended res" "\<not> stuck_at p c"
  shows "\<exists>ch c' p'. (\<forall>err. ch \<noteq> Ready (CaseCtx err)) \<and> advance S ch now c p = Done (c', p')"
proof -
  have by_choice: "\<exists>ch c' p'. (\<forall>err. ch \<noteq> Ready (CaseCtx err)) \<and> advance S ch now c p = Done (c', p')"
    if "advance S ch now c p = Done cp" "\<forall>err. ch \<noteq> Ready (CaseCtx err)" for ch cp
    using that by (cases cp) blast
  show ?thesis
  proof (cases c)
    case (Scanning job "is" cs tot)
    show ?thesis
    proof (cases "is")
      case Nil
      then show ?thesis using Scanning by (intro by_choice[of "Random (FNum 0)"]) simp_all
    next
      case (Cons i js)
      obtain cs' tot' d where "scan (job_domain job) (quiet now p) [i] cs tot (pool_domains p) = (cs', tot', d)" by (metis prod_cases3)
      then show ?thesis using Scanning Cons by (intro by_choice[of Plain]) (simp_all del: scan.simps)
    qed
  next
    case (Entering job i)
    then show ?thesis by (cases "acq_enter (pool_endpoints p ! i)") (intro by_choice[of Plain]; simp)+
  next
    case (Limiting job i)
    moreover have "acq_limited None (pool_endpoints p ! i) = None" by (simp add: acq_limited_def split: option.split)
    ultimately show ?thesis by (intro by_choice[of "Limiter None"]) simp_all
  next
    case (Waiting job i)
    then have "ep_closed (pool_endpoints p ! i) \<or> ep_sessions (pool_endpoints p ! i) \<noteq> []"
      using assms(4) by (auto simp: stuck_at_def)
    then show ?thesis
    proof
      assume "ep_closed (pool_endpoints p ! i)"
      then show ?thesis using Waiting by (intro by_choice[of "Ready CaseClosed"]) simp_all
    next
      assume "ep_sessions (pool_endpoints p ! i) \<noteq> []"
      then obtain x xs where "ep_sessions (pool_endpoints p ! i) = x # xs" by (cases "ep_sessions (pool_endpoints p ! i)") auto
      then show ?thesis using Waiting by (intro by_choice[of "Ready CaseSession"]) (simp_all add: acq_select.simps)
    qed
  next
    case (Received job i x)
    then show ?thesis by (cases "acq_recheck x (pool_endpoints p ! i)") (intro by_choice[of Plain]; simp)
  next
    case (Using job i x)
    have "\<exists>c. answered job i x (Some ok_response, None) = Done c"
      by (cases job) (simp_all add: ping_verdict_def probe_verdict_def Let_def)
    then show ?thesis using Using by (elim exE, intro by_choice[of "Answer (Some ok_response, None)"]) simp_all
  next
    case (Timing d i x out)
    then show ?thesis by (intro by_choice[of "Elapsed [] 0"]) simp_all
  next
    case (Cooling job i so err)
    have "pool_endpoints p ! i \<in> set (pool_endpoints p)" using Cooling assms(1) by simp
    then obtain e where "markFailed now (rc_CooldownPeriod (job_retry S p job)) (rc_MaxCooldown (job_retry S p job)) (pool_endpoints p ! i) = Done e"
      using markFailed_runs assms(2) unfolding tiers_below_def by blast
    then show ?thesis using Cooling assms(4) by (intro by_choice[of Plain]) (simp_all add: stuck_at_def run_ep_def)
  qed (use assms(3) in \<open>intro by_choice[of Plain]; simp\<close>)+
qed


text \<open>No deadlock: in every reachable state in which some goroutine has not ended, the program itself
  can take a step: a goroutine, without its context ending, or a recovery goroutine that leaves its
  critical section.  A goroutine that waits for a session waits for one that another goroutine holds.\<close>

lemma some_step:
  assumes "newPoolWithFactory q parse cfg (st_retry S) factory k = (Inr p, dropped, k')"
    and "sys_reach S (sys_start now p) s" and "c \<in> set (sy_gos s)" and "\<forall>res. c \<noteq> Ended res" and "tiers_below (2 ^ 31 - 1) (sy_pool s)"
  shows "\<exists>ev s'. productive ev \<and> sys_exec S ev s = Some s'"
proof -
  note ok = reach_ok[OF assms(2) built_pool(1)[OF assms(1)]]
  have pc: "pc_ok (length (pool_endpoints (sy_pool s))) c'" if "c' \<in> set (sy_gos s)" for c'
    using ok(1) that by (simp add: sys_ok_def)
  have move: ?thesis if c': "c' \<in> set (sy_gos s)" "\<forall>res. c' \<noteq> Ended res" "\<not> stuck_at (sy_pool s) c'" for c'
  proof -
    obtain m where m: "m < length (sy_gos s)" "sy_gos s ! m = c'" using c'(1) by (auto simp: in_set_conv_nth)
    obtain ch d p' where "\<forall>err. ch \<noteq> Ready (CaseCtx err)" "advance S ch (sy_now s) c' (sy_pool s) = Done (d, p')"
      using advance_progress[OF pc[OF c'(1)] assms(5) c'(2,3)] by blast
    then show ?thesis using m by (intro exI[of _ "Go m ch"]) simp
  qed
  have unlock: ?thesis if held: "mu_held (pool_endpoints (sy_pool s) ! i)" "i < length (pool_endpoints (sy_pool s))" for i
  proof -
    obtain j where "can_finish j (pool_endpoints (sy_pool s) ! i)" using held(1) by (auto simp: mu_held_def can_finish_def)
    then show ?thesis using held(2) by (intro exI[of _ "Outside i (LFinish j)"]) (simp add: guarded_def view_def)
  qed
  have cool: ?thesis if others: "c' \<in> set (sy_gos s)" "\<forall>res. c' \<noteq> Ended res" "\<forall>job i. c' \<noteq> Waiting job i" for c'
  proof (cases "stuck_at (sy_pool s) c'")
    case True
    then obtain job i so err where "c' = Cooling job i so err" "mu_held (pool_endpoints (sy_pool s) ! i)"
      using others(3) by (auto simp: stuck_at_def)
    then show ?thesis using unlock[of i] pc[OF others(1)] by simp
  qed (use move others in blast)
  show ?thesis
  proof (cases "\<exists>job i. c = Waiting job i")
    case True
    then obtain job i where w: "c = Waiting job i" by blast
    then have i: "i < length (pool_endpoints (sy_pool s))" using pc[OF assms(3)] by simp
    show ?thesis
    proof (cases "stuck_at (sy_pool s) c")
      case True
      then have e: "\<not> ep_closed (pool_endpoints (sy_pool s) ! i)" "ep_sessions (pool_endpoints (sy_pool s) ! i) = []"
        using w by (auto simp: stuck_at_def)
      have "filter (uses i) (sy_gos s) \<noteq> []"
        using open_endpoint_full[OF assms(1,2), of i] e ok(2) i by auto
      then obtain c' where c': "c' \<in> set (sy_gos s)" "uses i c'" by (auto simp: filter_empty_conv)
      have "(\<forall>res. c' \<noteq> Ended res) \<and> (\<forall>job i. c' \<noteq> Waiting job i)" using c'(2) by (auto simp: uses_def borrowed_by_def)
      then show ?thesis using cool[OF c'(1)] by blast
    qed (use move assms(3,4) in blast)
  qed (use cool assms(3,4) in blast)
qed

section \<open>Samples\<close>

text \<open>A pool of one endpoint with two sessions and the default settings.\<close>

definition one_config :: PoolConfig where
  "one_config = sample_config\<lparr>pc_Endpoints := [''http://p:1'']\<rparr>"

lemma one_pool_built: "newPoolWithFactory q sample_parse one_config DefaultRetryConfig sample_factory 0 = (Inr solo, [], 2)"
proof -
  have "validate q sample_parse one_config = None" by (simp add: one_config_def sample_config_def sample_parse_def validate_None_iff)
  moreover have "newEndpointWithFactory ''http://p:1'' 1 (sessionPoolSize one_config) (FNum 0) sample_factory 0 = (None, sample_endpoint, 2)"
    using sample_endpoint_new by (simp add: one_config_def sample_config_def sessionPoolSize_def)
  ultimately show ?thesis
    by (simp add: newPoolWithFactory_def) (simp add: one_config_def sample_config_def solo_def blank_pool_def startHealthCheck_def
        NewTracker_def sessionPoolSize_def)
qed

definition demo :: settings where
  "demo = \<lparr> st_q = id, st_rx = no_rx, st_uni = id, st_detector = default_detector id, st_retry = DefaultRetryConfig \<rparr>"

lemma demo_fields [simp]: "st_retry demo = DefaultRetryConfig" "st_detector demo = default_detector id" "st_rx demo = no_rx"
  "st_q demo = id" "st_uni demo = id"
  by (simp_all add: demo_def)

lemmas demo_pool = one_pool_built[of id, folded demo_fields(1)]

text \<open>Goroutine \<open>k\<close> selects the endpoint and takes a session.\<close>

definition borrow :: "nat \<Rightarrow> event list" where
  "borrow k = [Spawn (ServeRequest []), Go k Plain, Go k Plain, Go k (Ready CaseSession), Go k Plain]"

lemma demo_endpoint:
  "ep_state sample_endpoint = StateAlive" "\<not> ep_closeOnce sample_endpoint" "ep_timers sample_endpoint = []"
  "ep_cancelCooldown sample_endpoint = None" "ep_poolSize sample_endpoint = 2" "ep_cooldownTier sample_endpoint = 0"
  "ep_closedSessions sample_endpoint = []" "ep_failCount sample_endpoint = 0" "ep_nextTimer sample_endpoint = 0"
  by (simp_all add: sample_endpoint_eq blank_endpoint_def)

lemmas demo_simps = sys_start_def Let_def solo_fields acq_enter_def sample_endpoint_facts demo_endpoint isAvailable_def
  acq_select.simps acquired_def acq_recheck_def update_ep_def guarded_def

lemma sys_run_append: "sys_run S (xs @ ys) s = Option.bind (sys_run S xs s) (sys_run S ys)"
proof (induction xs arbitrary: s)
  case (Cons x xs)
  have "sys_run S (xs @ ys) = (\<lambda>s. Option.bind (sys_run S xs s) (sys_run S ys))" using Cons.IH by (rule ext)
  then show ?case by (cases "sys_exec S x s") simp_all
qed simp

definition borrowers :: sys where
  "borrowers = (sys_start 0 solo)\<lparr>sy_gos := [Using (ServeRequest []) 0 0, Using (ServeRequest []) 0 1],
     sy_pool := solo\<lparr>pool_endpoints := [sample_endpoint\<lparr>ep_sessions := []\<rparr>]\<rparr>\<rparr>"

definition two_borrow :: "event list" where
  "two_borrow = borrow 0 @ borrow 1"

lemma run_borrowers: "sys_run demo two_borrow (sys_start 0 solo) = Some borrowers"
  by (simp add: two_borrow_def borrow_def borrowers_def demo_simps)

lemma run_borrowers_then: "sys_run demo (two_borrow @ evs) (sys_start 0 solo) = sys_run demo evs borrowers"
  by (simp add: sys_run_append run_borrowers)

lemma created_one: "pool_created sample_factory (pc_Endpoints one_config) (nat (sint (sessionPoolSize one_config))) 0 2 = [0, 1]"
  by (simp add: one_config_def sample_config_def sessionPoolSize_def pool_created_def sample_factory_def numeral_2_eq_2)

text \<open>The request of goroutine \<open>k\<close> succeeds, up to the release of its session.\<close>

definition succeed :: "nat \<Rightarrow> event list" where
  "succeed k = [Go k (Answer (Some ok_response, None)), Go k (Elapsed [] 0), Go k Plain, Go k Plain, Go k Plain]"

lemma run_releasing:
  "\<exists>s. sys_run demo (two_borrow @ succeed 0) (sys_start 0 solo) = Some s \<and>
     Releasing (ServeRequest []) 0 0 None \<in> set (sy_gos s) \<and> \<not> ep_closed (pool_endpoints (sy_pool s) ! 0)"
  unfolding run_borrowers_then
  by (simp add: borrowers_def demo_simps succeed_def judged_def ok_not_blocked leave_def counter_ops)

section \<open>Witnesses\<close>

theorem pool_refines_endpoints_witness:
  "\<exists>t. ep_steps (rc_CooldownPeriod DefaultRetryConfig) (rc_MaxCooldown DefaultRetryConfig) (ep_start 0 sample_endpoint) t \<and>
     es_ep t = sample_endpoint\<lparr>ep_sessions := []\<rparr> \<and> mset (es_borrowed t) = {#0, 1#}"
  using pool_refines_endpoints[OF demo_pool sys_run_reach[OF run_borrowers], of 0]
  by (fastforce simp: solo_fields borrowers_def borrowed_by_def)

theorem session_exclusive_witness:
  "distinct (concat (map session_of (sy_gos borrowers))) \<and> set (concat (map session_of (sy_gos borrowers))) = {0, 1}"
  using session_exclusive[OF demo_pool _ sys_run_reach[OF run_borrowers]]
  by (simp add: created_one borrowers_def session_of_def)


end
