(* ===== verification/Alone.thy ===== *)
theory Alone
  imports Interleaving
begin

text \<open>
  A goroutine that nothing interferes with: run alone from start to end, the program counters of
  \<open>Goroutines\<close> do what the sequential definitions of \<open>Client\<close> and \<open>Health\<close> say, and nothing else.
\<close>

section \<open>Runs of one goroutine\<close>

inductive alone_ends :: "settings \<Rightarrow> instant \<Rightarrow> pc \<Rightarrow> Pool \<Rightarrow> gerr option \<Rightarrow> Pool \<Rightarrow> bool" for S now where
  at_end: "alone_ends S now (Ended res) p res p"
| one_step: "advance S ch now c p = Done (c', p') \<Longrightarrow> alone_ends S now c' p' res r \<Longrightarrow> alone_ends S now c p res r"

inductive_cases alone_ends_cases: "alone_ends S now c p res r"

named_theorems alone \<open>where a goroutine that runs alone ends\<close>

lemma alone_Ended [alone]: "alone_ends S now (Ended a) p res r \<longleftrightarrow> res = a \<and> r = p"
  by (auto elim: alone_ends_cases intro: at_end)

lemma alone_next:
  "\<forall>a. c \<noteq> Ended a \<Longrightarrow> alone_ends S now c p res r \<longleftrightarrow>
     (\<exists>ch c' p'. advance S ch now c p = Done (c', p') \<and> alone_ends S now c' p' res r)"
  by (subst alone_ends.simps) auto

lemma alone_step:
  "\<forall>a. c \<noteq> Ended a \<Longrightarrow> \<forall>ch. advance S ch now c p = Done (c', p') \<Longrightarrow>
   alone_ends S now c p res r \<longleftrightarrow> alone_ends S now c' p' res r"
  by (auto simp: alone_next)

lemma alone_stuck: "\<forall>a. c \<noteq> Ended a \<Longrightarrow> \<forall>ch c' p'. advance S ch now c p \<noteq> Done (c', p') \<Longrightarrow> \<not> alone_ends S now c p res r"
  by (auto simp: alone_next)

lemma ex_decision:
  "(\<exists>ch. P ch) \<longleftrightarrow> P Plain \<or> (\<exists>u. P (Random u)) \<or> (\<exists>w. P (Limiter w)) \<or> (\<exists>c. P (Ready c)) \<or> (\<exists>out. P (Answer out)) \<or>
     (\<exists>ws t. P (Elapsed ws t))"
  by (metis decision.exhaust)

section \<open>From the end to the start\<close>

lemma alone_Releasing [alone]:
  "alone_ends S now (Releasing job i s a) p res r \<longleftrightarrow> alone_ends S now (released job i a) (update_ep i (releaseSession (Some s)) p) res r"
  by (rule alone_step) simp_all

lemma alone_Succeeding [alone]:
  "alone_ends S now (Succeeding job i s) p res r \<longleftrightarrow> alone_ends S now (Untiering job i s) (update_ep i countSuccess p) res r"
  by (rule alone_step) simp_all

lemma alone_Untiering [alone]:
  "alone_ends S now (Untiering job i s) p res r \<longleftrightarrow> alone_ends S now (Clearing job i (Some s)) (update_ep i resetTier p) res r"
  by (rule alone_step) simp_all

lemma alone_Clearing [alone]:
  "alone_ends S now (Clearing job i so) p res r \<longleftrightarrow> alone_ends S now (leave job i so None) (update_ep i resetFailCount p) res r"
  by (rule alone_step) simp_all

lemma alone_Counting:
  "alone_ends S now (Counting job i so err) p res r \<longleftrightarrow> alone_ends S now (counted job i so err) (update_ep i incrementFailCount p) res r"
  by (rule alone_step) simp_all

lemma alone_Marking:
  "alone_ends S now (Marking d i so err) p res r \<longleftrightarrow> alone_ends S now (Testing (ServeRequest d) i so err)
     (the (recordDomainBlock now (ep_index (pool_endpoints p ! i)) d (Some p))) res r"
  by (rule alone_step) simp_all

lemma alone_Cooling:
  assumes "\<not> mu_held (pool_endpoints p ! i)"
  shows "alone_ends S now (Cooling job i so err) p res r \<longleftrightarrow>
    (\<exists>p'. run_ep i (markFailed now (rc_CooldownPeriod (job_retry S p job)) (rc_MaxCooldown (job_retry S p job))) p = Done p' \<and>
       alone_ends S now (leave job i so (Some err)) p' res r)"
  using assms by (auto simp: alone_next)

lemma alone_Testing:
  assumes "\<not> mu_held (pool_endpoints p ! i)"
  shows "alone_ends S now (Testing job i so err) p res r \<longleftrightarrow>
    (\<exists>p'. (if sint (failThreshold (job_retry S p job)) \<le> sint (ep_failCount (pool_endpoints p ! i))
           then run_ep i (markFailed now (rc_CooldownPeriod (job_retry S p job)) (rc_MaxCooldown (job_retry S p job))) p
           else Done p) = Done p' \<and> alone_ends S now (leave job i so (Some err)) p' res r)"
proof -
  have "alone_ends S now (Testing job i so err) p res r \<longleftrightarrow> alone_ends S now
     (if sint (failThreshold (job_retry S p job)) \<le> sint (ep_failCount (pool_endpoints p ! i))
      then Cooling job i so err else leave job i so (Some err)) p res r" by (rule alone_step) simp_all
  then show ?thesis using alone_Cooling[OF assms] by auto
qed

lemma mu_held_fields [simp]:
  "mu_held (incrementFailCount e) = mu_held e" "mu_held (recordLatency_among ws d e) = mu_held e"
  "mu_held (e\<lparr>ep_sessions := xs\<rparr>) = mu_held e" "mu_held (close_session s e) = mu_held e"
  "mu_held (releaseSession so e) = mu_held e"
  by (simp_all add: mu_held_def incrementFailCount_def recordLatency_among_def close_session_def releaseSession_def split: option.split)

lemma mu_held_update: "\<not> mu_held (f (pool_endpoints p ! i)) \<Longrightarrow> \<not> mu_held (pool_endpoints p ! i) \<Longrightarrow>
   \<not> mu_held (pool_endpoints (update_ep i f p) ! i)"
  by (cases "i < length (pool_endpoints p)") (simp_all add: update_ep_def list_update_beyond)

text \<open>Charging a block is \<open>penalise\<close>, charging a failed probe is \<open>probe_failed\<close>.\<close>

lemma alone_penalise:
  assumes "\<not> mu_held (pool_endpoints p ! i)"
  shows "alone_ends S now (Counting (ServeRequest d) i so err) p res r \<longleftrightarrow>
    (\<exists>p'. penalise now (\<lambda>p. p) (st_retry S) (failThreshold (st_retry S)) d i p = Done p' \<and>
       alone_ends S now (leave (ServeRequest d) i so (Some err)) p' res r)"
proof -
  let ?p = "update_ep i incrementFailCount p"
  have "\<not> mu_held (pool_endpoints (the (recordDomainBlock now (ep_index (pool_endpoints ?p ! i)) d (Some ?p))) ! i)"
    using mu_held_update[of incrementFailCount p i] assms by (simp add: recordDomainBlock_def)
  from alone_Testing[OF this, of S now "ServeRequest d"] show ?thesis
    by (simp add: alone_Counting alone_Marking penalise_def Let_def)
qed


lemma alone_probe_failed:
  assumes "\<not> mu_held (pool_endpoints p ! i)" "pe_counted env = (\<lambda>p. p)" "pe_now env = now"
  shows "alone_ends S now (Counting (SendProbe j) i None err) p res r \<longleftrightarrow> probe_failed env i p = Done r \<and> res = Some err"
proof -
  have "\<not> mu_held (pool_endpoints (update_ep i incrementFailCount p) ! i)"
    using mu_held_update[of incrementFailCount p i] assms(1) by simp
  from alone_Testing[OF this, of S now "SendProbe j"] assms(2,3) show ?thesis
    by (auto simp: alone alone_Counting probe_failed_def Let_def leave_def update_ep_def)
qed

text \<open>The judgement of an outcome is \<open>settle\<close>, up to the release.\<close>

lemma alone_Timing:
  assumes "\<not> mu_held (pool_endpoints p ! i)"
  shows "alone_ends S now (Timing d i s out) p res r \<longleftrightarrow>
    (\<exists>ws t p'. settle (st_q S) (st_rx S) (st_uni S) (st_detector S) (st_retry S) (failThreshold (st_retry S)) d
         (env\<lparr>ae_latencies := ws, ae_elapsed := t, ae_now := now, ae_counted := (\<lambda>p. p)\<rparr>) i out p = Done (res, p') \<and>
       r = update_ep i (releaseSession (Some s)) p')"
proof -
  have time: "alone_ends S now (Timing d i s out) p res r \<longleftrightarrow>
    (\<exists>ws t. alone_ends S now (judged S d i s (ep_index (pool_endpoints p ! i)) out) (update_ep i (recordLatency_among ws t) p) res r)"
    by (simp add: alone_next ex_decision)
  have idx: "ep_index (pool_endpoints (update_ep i (recordLatency_among ws t) p) ! i) = ep_index (pool_endpoints p ! i)" for ws t
    by (cases "i < length (pool_endpoints p)") (simp_all add: update_ep_def list_update_beyond recordLatency_among_def)
  have mu: "\<not> mu_held (pool_endpoints (update_ep i (recordLatency_among ws t) p) ! i)" for ws t
    using mu_held_update[of "recordLatency_among ws t" p i] assms by simp
  obtain resp err where out: "out = (resp, err)" by fastforce
  have three: "update_ep i resetFailCount (update_ep i resetTier (update_ep i countSuccess q)) = update_ep i (\<lambda>e. resetFailCount (recordSuccess e)) q" for q
    by (cases "i < length (pool_endpoints q)") (simp_all add: update_ep_def list_update_beyond recordSuccess_def)
  have "alone_ends S now (judged S d i s (ep_index (pool_endpoints p ! i)) out) (update_ep i (recordLatency_among ws t) p) res r \<longleftrightarrow>
    (\<exists>p'. settle (st_q S) (st_rx S) (st_uni S) (st_detector S) (st_retry S) (failThreshold (st_retry S)) d
         (env\<lparr>ae_latencies := ws, ae_elapsed := t, ae_now := now, ae_counted := (\<lambda>p. p)\<rparr>) i out p = Done (res, p') \<and>
       r = update_ep i (releaseSession (Some s)) p')" for ws t
    unfolding out settle_def Let_def
    by (cases err) (auto simp: judged_def alone idx three alone_penalise[OF mu] leave_def)
  then show ?thesis unfolding time by blast
qed


text \<open>Borrowing is \<open>acquireSession\<close>.\<close>

definition alone_acquire :: "acq_env \<Rightarrow> bool" where
  "alone_acquire a \<longleftrightarrow> aq_during_wait a = (\<lambda>e. e) \<and> aq_during_select a = (\<lambda>e. e) \<and> aq_before_recheck a = (\<lambda>e. e)"

lemma alone_quiet: "alone_acquire quiet_acquire"
  by (simp add: alone_acquire_def quiet_acquire_def)

lemma update_ep_same: "update_ep i (\<lambda>_. pool_endpoints p ! i) p = p"
  by (cases "i < length (pool_endpoints p)") (simp_all add: update_ep_def list_update_beyond)

lemma update_ep_twice: "update_ep i (\<lambda>_. b) (update_ep i (\<lambda>_. a) p) = update_ep i (\<lambda>_. b) p"
  by (simp add: update_ep_def)

lemma alone_Received:
  "i < length (pool_endpoints p) \<Longrightarrow> alone_ends S now (Received job i s) (update_ep i (\<lambda>_. e) p) res r \<longleftrightarrow>
     (case acq_recheck s e of (x, e') \<Rightarrow> alone_ends S now (acquired job i (Using job i) x) (update_ep i (\<lambda>_. e') p) res r)"
  by (cases "acq_recheck s e") (subst alone_step[where p' = "update_ep i (\<lambda>_. snd (acq_recheck s e)) p"]; simp add: update_ep_twice)

lemma alone_Waiting:
  assumes "i < length (pool_endpoints p)"
  shows "alone_ends S now (Waiting job i) p res r \<longleftrightarrow>
    (\<exists>c x e. bind_run (acq_select c (pool_endpoints p ! i))
         (\<lambda>(r, e2). case r of Inl err \<Rightarrow> Done (Inl err, e2) | Inr s \<Rightarrow> Done (acq_recheck s e2)) = Done (x, e) \<and>
       alone_ends S now (acquired job i (Using job i) x) (update_ep i (\<lambda>_. e) p) res r)"
proof -
  have wait: "alone_ends S now (Waiting job i) p res r \<longleftrightarrow> (\<exists>c a e. acq_select c (pool_endpoints p ! i) = Done (a, e) \<and>
      alone_ends S now (acquired job i (Received job i) a) (update_ep i (\<lambda>_. e) p) res r)"
    by (simp add: alone_next ex_decision) blast
  have recv: "alone_ends S now (acquired job i (Received job i) a) (update_ep i (\<lambda>_. e) p) res r \<longleftrightarrow>
      (\<exists>x e'. (case a of Inl err \<Rightarrow> Done (Inl err, e) | Inr s \<Rightarrow> Done (acq_recheck s e)) = Done (x, e') \<and>
         alone_ends S now (acquired job i (Using job i) x) (update_ep i (\<lambda>_. e') p) res r)" for a e
    by (cases a) (auto simp: acquired_def alone_Received[OF assms])
  show ?thesis unfolding wait recv by (simp only: bind_run_Done_iff split_paired_Ex prod.case) blast
qed


lemma alone_Limiting:
  "alone_ends S now (Limiting job i) p res r \<longleftrightarrow> (\<exists>l. case acq_limited l (pool_endpoints p ! i) of
     Some err \<Rightarrow> alone_ends S now (refused job i err) p res r | None \<Rightarrow> alone_ends S now (Waiting job i) p res r)"
proof -
  have one: "(\<exists>c' p'. advance S (Limiter l) now (Limiting job i) p = Done (c', p') \<and> alone_ends S now c' p' res r) \<longleftrightarrow>
      (case acq_limited l (pool_endpoints p ! i) of
         Some err \<Rightarrow> alone_ends S now (refused job i err) p res r | None \<Rightarrow> alone_ends S now (Waiting job i) p res r)" for l
    by (cases "acq_limited l (pool_endpoints p ! i)") simp_all
  have "alone_ends S now (Limiting job i) p res r \<longleftrightarrow>
      (\<exists>l c' p'. advance S (Limiter l) now (Limiting job i) p = Done (c', p') \<and> alone_ends S now c' p' res r)"
    by (subst alone_next) (simp_all add: ex_decision)
  then show ?thesis unfolding one .
qed

text \<open>What \<open>acquireSession\<close> can do alone: refuse at once, refuse at the limiter, or wait.\<close>

definition waited :: "acq_case \<Rightarrow> endpoint \<Rightarrow> ((gerr + session) \<times> endpoint) run" where
  "waited c e = bind_run (acq_select c e) (\<lambda>(r, e2). case r of Inl err \<Rightarrow> Done (Inl err, e2) | Inr s \<Rightarrow> Done (acq_recheck s e2))"

lemma acquire_alone:
  "(\<exists>a x e'. alone_acquire a \<and> acquireSession a e = Done (x, e') \<and> P x e') \<longleftrightarrow>
    (case acq_enter e of
       Some err \<Rightarrow> P (Inl err) e
     | None \<Rightarrow> \<exists>l. case acq_limited l e of
         Some err \<Rightarrow> P (Inl err) e
       | None \<Rightarrow> \<exists>c x e'. waited c e = Done (x, e') \<and> P x e')"
proof -
  let ?env = "\<lambda>l c. \<lparr> aq_limit = l, aq_case = c, aq_during_wait = (\<lambda>e. e), aq_during_select = (\<lambda>e. e), aq_before_recheck = (\<lambda>e. e) \<rparr>"
  have acq: "acquireSession (?env l c) e = (case acq_enter e of Some err \<Rightarrow> Done (Inl err, e)
      | None \<Rightarrow> (case acq_limited l e of Some err \<Rightarrow> Done (Inl err, e) | None \<Rightarrow> waited c e))" for l c
    unfolding acquireSession_def waited_def Let_def acq_env.select_convs by (simp split: option.split)
  have al: "alone_acquire a \<longleftrightarrow> (\<exists>l c. a = ?env l c)" for a by (cases a) (auto simp: alone_acquire_def)
  have "(\<exists>a. alone_acquire a \<and> Q a) \<longleftrightarrow> (\<exists>l c. Q (?env l c))" for Q by (auto simp: al)
  from this[of "\<lambda>a. \<exists>x e'. acquireSession a e = Done (x, e') \<and> P x e'"]
  have "(\<exists>a x e'. alone_acquire a \<and> acquireSession a e = Done (x, e') \<and> P x e') \<longleftrightarrow>
      (\<exists>l c x e'. acquireSession (?env l c) e = Done (x, e') \<and> P x e')" by simp
  also have "\<dots> \<longleftrightarrow> (case acq_enter e of Some err \<Rightarrow> P (Inl err) e | None \<Rightarrow> \<exists>l. case acq_limited l e of
      Some err \<Rightarrow> P (Inl err) e | None \<Rightarrow> \<exists>c x e'. waited c e = Done (x, e') \<and> P x e')"
  proof (cases "acq_enter e")
    case None
    have "(\<exists>c x e'. acquireSession (?env l c) e = Done (x, e') \<and> P x e') \<longleftrightarrow> (case acq_limited l e of
      Some err \<Rightarrow> P (Inl err) e | None \<Rightarrow> \<exists>c x e'. waited c e = Done (x, e') \<and> P x e')" for l
      unfolding acq None option.case by (cases "acq_limited l e") simp_all
    then show ?thesis unfolding None option.case by simp
  qed (simp add: acq)
  finally show ?thesis .
qed

lemma alone_Entering:
  assumes "i < length (pool_endpoints p)"
  shows "alone_ends S now (Entering job i) p res r \<longleftrightarrow>
    (\<exists>a x e. alone_acquire a \<and> acquireSession a (pool_endpoints p ! i) = Done (x, e) \<and>
       alone_ends S now (acquired job i (Using job i) x) (update_ep i (\<lambda>_. e) p) res r)"
proof -
  let ?e = "pool_endpoints p ! i" and ?next = "\<lambda>x e. alone_ends S now (acquired job i (Using job i) x) (update_ep i (\<lambda>_. e) p) res r"
  have fail: "?next (Inl err) ?e \<longleftrightarrow> alone_ends S now (refused job i err) p res r" for err
    by (simp add: acquired_def update_ep_same)
  have wait: "alone_ends S now (Waiting job i) p res r \<longleftrightarrow> (\<exists>c x e. waited c ?e = Done (x, e) \<and> ?next x e)"
    unfolding waited_def by (rule alone_Waiting[OF assms])
  show ?thesis unfolding acquire_alone[of ?e ?next] fail
  proof (cases "acq_enter ?e")
    case (Some err)
    have "alone_ends S now (Entering job i) p res r \<longleftrightarrow> alone_ends S now (refused job i err) p res r"
      by (rule alone_step) (simp_all add: Some)
    then show "alone_ends S now (Entering job i) p res r \<longleftrightarrow> (case acq_enter ?e of Some err \<Rightarrow> alone_ends S now (refused job i err) p res r
      | None \<Rightarrow> \<exists>l. case acq_limited l ?e of Some err \<Rightarrow> alone_ends S now (refused job i err) p res r
        | None \<Rightarrow> \<exists>c x e. waited c ?e = Done (x, e) \<and> ?next x e)" by (simp add: Some)
  next
    case None
    have enter: "alone_ends S now (Entering job i) p res r \<longleftrightarrow>
        alone_ends S now (if ep_limiter ?e = None then Waiting job i else Limiting job i) p res r"
      by (rule alone_step) (simp_all add: None)
    show "alone_ends S now (Entering job i) p res r \<longleftrightarrow> (case acq_enter ?e of Some err \<Rightarrow> alone_ends S now (refused job i err) p res r
      | None \<Rightarrow> \<exists>l. case acq_limited l ?e of Some err \<Rightarrow> alone_ends S now (refused job i err) p res r
        | None \<Rightarrow> \<exists>c x e. waited c ?e = Done (x, e) \<and> ?next x e)"
      unfolding None option.case enter wait[symmetric]
      by (cases "ep_limiter ?e") (simp_all add: alone_Limiting acq_limited_def)
  qed
qed


text \<open>The scan, position by position, is \<open>getNextEndpointForDomain\<close>.\<close>

lemma quiet_endpoints: "pool_endpoints p' = pool_endpoints p \<Longrightarrow> quiet now p' = quiet now p"
  by (rule ext) (simp add: quiet_def)

lemma scan_Cons:
  "scan d obs (i # is) cs tot t = (case scan d obs [i] cs tot t of (cs', tot', t') \<Rightarrow> scan d obs is cs' tot' t')"
  by (simp split: prod.split)

lemma alone_Scanning:
  "alone_ends S now (Scanning job is cs tot) p res r \<longleftrightarrow>
    (case scan (job_domain job) (quiet now p) is cs tot (pool_domains p) of
       (cs', tot', t) \<Rightarrow> \<exists>u. alone_ends S now (end_scan job cs' tot' u) (p\<lparr>pool_domains := t\<rparr>) res r)"
proof (induction "is" arbitrary: cs tot p)
  case Nil
  have "alone_ends S now (Scanning job [] cs tot) p res r \<longleftrightarrow> (\<exists>u. alone_ends S now (end_scan job cs tot u) p res r)"
    by (simp add: alone_next[of "Scanning job [] cs tot"] ex_decision)
  then show ?case by simp
next
  case (Cons i "is")
  obtain cs' tot' t where sc: "scan (job_domain job) (quiet now p) [i] cs tot (pool_domains p) = (cs', tot', t)" by (metis prod_cases3)
  have q: "quiet now (p\<lparr>pool_domains := t\<rparr>) = quiet now p" by (rule quiet_endpoints) simp
  have "alone_ends S now (Scanning job (i # is) cs tot) p res r \<longleftrightarrow>
      alone_ends S now (Scanning job is cs' tot') (p\<lparr>pool_domains := t\<rparr>) res r"
    by (rule alone_step) (simp_all add: sc del: scan.simps)
  then show ?case
    unfolding scan_Cons[of _ _ i "is"] sc prod.case Cons.IH q by simp
qed

lemma alone_selection:
  assumes "\<forall>i. job \<noteq> SendProbe i"
  shows "alone_ends S now (Start job) p res r \<longleftrightarrow>
    (\<exists>u. case getNextEndpointForDomain (job_domain job) (quiet now p) u (Some p) of
       (Inl err, p') \<Rightarrow> res = Some (no_endpoint job) \<and> r = the p'
     | (Inr i, p') \<Rightarrow> alone_ends S now (Entering job i) (the p') res r)"
proof -
  have start: "alone_ends S now (Start job) p res r \<longleftrightarrow> alone_ends S now (fst (begin_job job p)) (snd (begin_job job p)) res r"
    by (rule alone_step) simp_all
  let ?n = "length (pool_endpoints p)"
  have b: "begin_job job p = (let n = ?n in
      if n = 0 then (Ended (Some (no_endpoint job)), p)
      else if n = 1 then
        (if isAvailable (pool_endpoints p ! 0) then Entering job 0 else Ended (Some (no_endpoint job)), p)
      else let current = pool_currentIndex p + 1
        in (Scanning job (positions (start_index current n) n) [] (FNum 0), p\<lparr>pool_currentIndex := current\<rparr>))"
    using assms by (cases job) (simp_all only: begin_job.simps, simp)
  show ?thesis
  proof (cases "?n < 2")
    case True
    then consider "?n = 0" | "?n = 1" by linarith
    then show ?thesis unfolding start b getNextEndpointForDomain_def
      by cases (auto simp: alone quiet_def)
  next
    case False
    then have ne: "pool_endpoints p \<noteq> []" by auto
    let ?c = "pool_currentIndex p + 1"
    obtain cs tot t where sc: "scan (job_domain job) (quiet now p) (positions (start_index ?c ?n) ?n) [] (FNum 0) (pool_domains p) = (cs, tot, t)"
      by (metis prod_cases3)
    have q: "quiet now (p\<lparr>pool_currentIndex := ?c\<rparr>) = quiet now p" by (rule quiet_endpoints) simp
    have "alone_ends S now (Start job) p res r \<longleftrightarrow>
        (\<exists>u. alone_ends S now (end_scan job cs tot u) (p\<lparr>pool_currentIndex := ?c, pool_domains := t\<rparr>) res r)"
      unfolding start b using False ne by (simp add: Let_def alone_Scanning q sc)
    then show ?thesis using False ne sc unfolding getNextEndpointForDomain_def end_scan_def
      by (simp add: Let_def alone split: list.split prod.split)
  qed
qed


section \<open>The sequential definitions\<close>

text \<open>The surroundings of an attempt that nothing interferes with.\<close>

definition undisturbed :: "instant \<Rightarrow> attempt_env \<Rightarrow> bool" where
  "undisturbed now env \<longleftrightarrow> ae_before env = (\<lambda>p. p) \<and> ae_obs env = quiet now \<and> ae_selected env = (\<lambda>p. p) \<and>
     ae_during env = (\<lambda>p. p) \<and> ae_counted env = (\<lambda>p. p) \<and> ae_now env = now \<and> alone_acquire (ae_acquire env)"

lemma attempt_undisturbed:
  assumes "undisturbed now env"
  shows "(\<exists>st. attempt q rx uni det retry th d (\<lambda>_. env) (start_call p) = Done (res, st) \<and> cs_pool st = r) \<longleftrightarrow>
    (case getNextEndpointForDomain d (quiet now p) (ae_rand env) (Some p) of
       (Inl err, p') \<Rightarrow> res = Some (Unrecoverable ErrAllProxiesBlocked) \<and> r = the p'
     | (Inr i, p') \<Rightarrow> \<exists>x e. acquireSession (ae_acquire env) (pool_endpoints (the p') ! i) = Done (x, e) \<and>
         (case x of
            Inl err \<Rightarrow> res = Some (ErrWrap ''acquiring session: '' err []) \<and> r = update_ep i (\<lambda>_. e) (the p')
          | Inr s \<Rightarrow> \<exists>p4. settle q rx uni det retry th d env i (ae_fn env s) (update_ep i (\<lambda>_. e) (the p')) = Done (res, p4) \<and>
              r = update_ep i (releaseSession (Some s)) p4))"
proof -
  have env: "ae_before env = (\<lambda>p. p)" "ae_obs env = quiet now" "ae_selected env = (\<lambda>p. p)" "ae_during env = (\<lambda>p. p)"
    using assms by (simp_all add: undisturbed_def)
  obtain sel p' where sel: "getNextEndpointForDomain d (quiet now p) (ae_rand env) (Some p) = (sel, p')" by fastforce
  show ?thesis
  proof (cases sel)
    case (Inl err)
    then show ?thesis unfolding attempt_def Let_def env by (auto simp: start_call_def sel)
  next
    case (Inr i)
    show ?thesis
    proof (cases "acquireSession (ae_acquire env) (pool_endpoints (the p') ! i)")
      case (Done xe)
      then obtain x e where acq: "acquireSession (ae_acquire env) (pool_endpoints (the p') ! i) = Done (x, e)" by (cases xe) simp
      show ?thesis unfolding attempt_def Let_def env
        by (cases x) (auto simp: start_call_def sel Inr acq)
    qed (simp_all add: attempt_def Let_def env start_call_def sel Inr)
  qed
qed


lemma mu_held_acquire:
  assumes "alone_acquire a" "acquireSession a e0 = Done (x, e)"
  shows "mu_held e = mu_held e0"
proof -
  have sel: "acq_select c e0 = Done (y, e1) \<Longrightarrow> mu_held e1 = mu_held e0" for c y e1
    by (cases c) (auto simp: acq_select.simps split: if_splits list.splits)
  have chk: "acq_recheck s e1 = (y, e2) \<Longrightarrow> mu_held e2 = mu_held e1" for s y e1 e2
    by (auto simp: acq_recheck_cases split: if_splits)
  from assms(2) show ?thesis
  proof (cases rule: acquireSession_cases)
    case (taken s e2)
    with assms(1) sel[of _ _ e2] chk[of s e2] show ?thesis by (auto simp: alone_acquire_def split: option.splits)
  qed (use assms(1) sel in \<open>auto simp: alone_acquire_def split: option.splits\<close>)
qed

lemma alone_borrowed:
  assumes "\<not> mu_held (pool_endpoints p ! i)" "i < length (pool_endpoints p)"
  shows "alone_ends S now (Entering (ServeRequest d) i) p res r \<longleftrightarrow>
    (\<exists>a out ws t x e. alone_acquire a \<and> acquireSession a (pool_endpoints p ! i) = Done (x, e) \<and>
       (case x of
          Inl err \<Rightarrow> res = Some (ErrWrap ''acquiring session: '' err []) \<and> r = update_ep i (\<lambda>_. e) p
        | Inr s \<Rightarrow> \<exists>p4. settle (st_q S) (st_rx S) (st_uni S) (st_detector S) (st_retry S) (failThreshold (st_retry S)) d
             (env\<lparr>ae_latencies := ws, ae_elapsed := t, ae_now := now, ae_counted := (\<lambda>p. p)\<rparr>) i out (update_ep i (\<lambda>_. e) p) = Done (res, p4) \<and>
           r = update_ep i (releaseSession (Some s)) p4))"
    (is "_ \<longleftrightarrow> (\<exists>a out ws t x e. alone_acquire a \<and> ?A a x e \<and> ?B out ws t x e)")
proof -
  have "alone_ends S now (acquired (ServeRequest d) i (Using (ServeRequest d) i) x) (update_ep i (\<lambda>_. e) p) res r \<longleftrightarrow>
      (\<exists>out ws t. ?B out ws t x e)" if "alone_acquire a" "acquireSession a (pool_endpoints p ! i) = Done (x, e)" for a x e
  proof (cases x)
    case (Inr s)
    have "\<not> mu_held (pool_endpoints (update_ep i (\<lambda>_. e) p) ! i)"
      using mu_held_acquire[OF that] assms by simp
    note t = alone_Timing[OF this, of S now d s _ res r env]
    have "alone_ends S now (Using (ServeRequest d) i s) (update_ep i (\<lambda>_. e) p) res r \<longleftrightarrow>
        (\<exists>out. alone_ends S now (Timing d i s out) (update_ep i (\<lambda>_. e) p) res r)"
      by (subst alone_next) (simp_all add: ex_decision)
    then show ?thesis using Inr t by (simp add: acquired_def)
  qed (auto simp: acquired_def alone)
  then show ?thesis unfolding alone_Entering[OF assms(2)] by blast
qed


text \<open>Surroundings with given answers.\<close>

definition still :: "instant \<Rightarrow> f64 \<Rightarrow> acq_env \<Rightarrow> outcome \<Rightarrow> int64 list \<Rightarrow> duration \<Rightarrow> attempt_env" where
  "still now u a out ws t = \<lparr> ae_before = (\<lambda>p. p), ae_obs = quiet now, ae_rand = u, ae_selected = (\<lambda>p. p), ae_acquire = a,
     ae_fn = (\<lambda>_. out), ae_during = (\<lambda>p. p), ae_elapsed = t, ae_latencies = ws, ae_counted = (\<lambda>p. p), ae_now = now \<rparr>"

lemma still_fields [simp]:
  "ae_rand (still now u a out ws t) = u" "ae_acquire (still now u a out ws t) = a" "ae_fn (still now u a out ws t) = (\<lambda>_. out)"
  by (simp_all add: still_def)

lemma env_still:
  "still now u a out [] 0\<lparr>ae_latencies := ws, ae_elapsed := t, ae_now := now, ae_counted := (\<lambda>p. p)\<rparr> = still now u a out ws t"
  by (simp add: still_def)

lemma undisturbed_still: "undisturbed now (still now u a out ws t) \<longleftrightarrow> alone_acquire a"
  by (simp add: undisturbed_def still_def)

lemma settle_still:
  assumes "undisturbed now env"
  shows "settle q rx uni det retry th d env i out p =
    settle q rx uni det retry th d (still now u a out' (ae_latencies env) (ae_elapsed env)) i out p"
  using assms by (simp add: settle_def undisturbed_def still_def)

text \<open>One step of a call: the results it can have in some undisturbed surroundings.\<close>

lemma attempts_undisturbed:
  "(\<exists>env. undisturbed now env \<and>
      (\<exists>st. attempt q rx uni det retry th d (\<lambda>_. env) (start_call p) = Done (res, st) \<and> cs_pool st = r)) \<longleftrightarrow>
   (\<exists>u. case getNextEndpointForDomain d (quiet now p) u (Some p) of
       (Inl err, p') \<Rightarrow> res = Some (Unrecoverable ErrAllProxiesBlocked) \<and> r = the p'
     | (Inr i, p') \<Rightarrow> \<exists>a out ws t x e. alone_acquire a \<and> acquireSession a (pool_endpoints (the p') ! i) = Done (x, e) \<and>
         (case x of
            Inl err \<Rightarrow> res = Some (ErrWrap ''acquiring session: '' err []) \<and> r = update_ep i (\<lambda>_. e) (the p')
          | Inr s \<Rightarrow> \<exists>p4. settle q rx uni det retry th d (still now (FNum 0) quiet_acquire (None, None) ws t) i out
                (update_ep i (\<lambda>_. e) (the p')) = Done (res, p4) \<and> r = update_ep i (releaseSession (Some s)) p4))"
    (is "(\<exists>env. undisturbed now env \<and> ?A env) \<longleftrightarrow> (\<exists>u. ?B u)")
proof
  assume "\<exists>env. undisturbed now env \<and> ?A env"
  then obtain env where ud: "undisturbed now env" and run: "?A env" by blast
  have acq: "alone_acquire (ae_acquire env)" using ud by (simp add: undisturbed_def)
  note run = run[unfolded attempt_undisturbed[OF ud] settle_still[OF ud, where u = "FNum 0" and a = quiet_acquire and out' = "(None, None)"]]
  obtain sel p' where sel: "getNextEndpointForDomain d (quiet now p) (ae_rand env) (Some p) = (sel, p')" by fastforce
  have "?B (ae_rand env)"
  proof (cases sel)
    case (Inr i)
    with run sel obtain x e where "acquireSession (ae_acquire env) (pool_endpoints (the p') ! i) = Done (x, e)"
      "case x of
            Inl err \<Rightarrow> res = Some (ErrWrap ''acquiring session: '' err []) \<and> r = update_ep i (\<lambda>_. e) (the p')
          | Inr s \<Rightarrow> \<exists>p4. settle q rx uni det retry th d (still now (FNum 0) quiet_acquire (None, None) (ae_latencies env) (ae_elapsed env)) i
                (ae_fn env s) (update_ep i (\<lambda>_. e) (the p')) = Done (res, p4) \<and> r = update_ep i (releaseSession (Some s)) p4" by auto
    with acq show ?thesis unfolding sel Inr prod.case sum.case
      by (intro exI[of _ "ae_acquire env"] exI[of _ "case x of Inl _ \<Rightarrow> (None, None) | Inr s \<Rightarrow> ae_fn env s"]
          exI[of _ "ae_latencies env"] exI[of _ "ae_elapsed env"] exI[of _ x] exI[of _ e]) (simp split: sum.splits)
  qed (use run sel in simp)
  then show "\<exists>u. ?B u" ..
next
  assume "\<exists>u. ?B u"
  then obtain u where B: "?B u" ..
  have same: "settle q rx uni det retry th d (still now u a o' ws t) i out p = settle q rx uni det retry th d (still now u' a' o'' ws t) i out p"
    for u u' a o' a' o'' ws t i out p by (simp add: settle_def still_def)
  obtain sel p' where sel: "getNextEndpointForDomain d (quiet now p) u (Some p) = (sel, p')" by fastforce
  show "\<exists>env. undisturbed now env \<and> ?A env"
  proof (cases sel)
    case (Inl err)
    let ?env = "still now u quiet_acquire (None, None) [] 0"
    have "undisturbed now ?env" by (simp add: undisturbed_still alone_quiet)
    with B show ?thesis unfolding sel Inl by (intro exI[of _ ?env]) (simp add: attempt_undisturbed sel Inl)
  next
    case (Inr i)
    with B sel obtain a out ws t x e where step: "alone_acquire a" "acquireSession a (pool_endpoints (the p') ! i) = Done (x, e)"
      "case x of
          Inl err \<Rightarrow> res = Some (ErrWrap ''acquiring session: '' err []) \<and> r = update_ep i (\<lambda>_. e) (the p')
        | Inr s \<Rightarrow> \<exists>p4. settle q rx uni det retry th d (still now (FNum 0) quiet_acquire (None, None) ws t) i out
              (update_ep i (\<lambda>_. e) (the p')) = Done (res, p4) \<and> r = update_ep i (releaseSession (Some s)) p4" by auto
    let ?env = "still now u a out ws t"
    have "undisturbed now ?env" using step(1) by (simp add: undisturbed_still)
    with step(2,3) show ?thesis
      by (intro exI[of _ ?env]) (cases x; simp add: attempt_undisturbed sel Inr same[where u = u and u' = "FNum 0" and a = a and a' = quiet_acquire and o' = out and o'' = "(None, None)"])
  qed
qed

lemma case_selected_cong:
  "(\<And>i p'. g = (Inr i, p') \<Longrightarrow> f i p' = f' i p') \<Longrightarrow>
   (case g of (Inl err, p') \<Rightarrow> h err p' | (Inr i, p') \<Rightarrow> f i p') = (case g of (Inl err, p') \<Rightarrow> h err p' | (Inr i, p') \<Rightarrow> f' i p')"
  by (auto split: prod.split sum.split)

text \<open>C8. A request that nothing interferes with does exactly what the sequential definition says: the
  goroutine, run alone through its program counters, can end with a result and a pool if and only if
  some attempt in undisturbed surroundings gives that result and that pool.\<close>

theorem request_alone:
  assumes "\<forall>e \<in> set (pool_endpoints p). \<not> mu_held e"
  shows "alone_ends S now (Start (ServeRequest d)) p res r \<longleftrightarrow>
    (\<exists>env. undisturbed now env \<and> (\<exists>st. 
       attempt (st_q S) (st_rx S) (st_uni S) (st_detector S) (st_retry S) (failThreshold (st_retry S)) d (\<lambda>_. env) (start_call p) =
         Done (res, st) \<and> cs_pool st = r))"
proof -
  have start: "alone_ends S now (Start (ServeRequest d)) p res r \<longleftrightarrow>
    (\<exists>u. case getNextEndpointForDomain d (quiet now p) u (Some p) of
       (Inl err, p') \<Rightarrow> res = Some (Unrecoverable ErrAllProxiesBlocked) \<and> r = the p'
     | (Inr i, p') \<Rightarrow> alone_ends S now (Entering (ServeRequest d) i) (the p') res r)"
    unfolding alone_selection[of "ServeRequest d", simplified] no_endpoint.simps job_domain.simps ..
  have free: "\<not> mu_held (pool_endpoints (the p') ! i)" "i < length (pool_endpoints (the p'))"
    if "getNextEndpointForDomain d (quiet now p) u (Some p) = (Inr i, p')" for u i p'
    using getNext_alive[OF that] assms by auto
  note one = alone_borrowed[OF free(1,2), where now = now and env = "still now (FNum 0) quiet_acquire (None, None) [] 0", unfolded env_still]
  show ?thesis unfolding start attempts_undisturbed by (intro arg_cong[where f = Ex] ext case_selected_cong one)
qed


text \<open>A probe: the body of the loop in \<open>checkAll\<close>.\<close>

definition undisturbed_probe :: "instant \<Rightarrow> probe_env \<Rightarrow> bool" where
  "undisturbed_probe now env \<longleftrightarrow> pe_before env = (\<lambda>p. p) \<and> pe_selected env = (\<lambda>p. p) \<and> pe_during env = (\<lambda>p. p) \<and>
     pe_after env = (\<lambda>p. p) \<and> pe_counted env = (\<lambda>p. p) \<and> pe_now env = now \<and> alone_acquire (pe_acquire env)"

definition still_probe :: "instant \<Rightarrow> acq_env \<Rightarrow> probe_env" where
  "still_probe now a = \<lparr> pe_before = (\<lambda>p. p), pe_selected = (\<lambda>p. p), pe_acquire = a, pe_during = (\<lambda>p. p),
     pe_after = (\<lambda>p. p), pe_counted = (\<lambda>p. p), pe_now = now \<rparr>"

lemma undisturbed_probe_iff: "undisturbed_probe now env \<longleftrightarrow> (\<exists>a. alone_acquire a \<and> env = still_probe now a)"
  by (cases env) (auto simp: undisturbed_probe_def still_probe_def)

lemma still_probe_fields [simp]:
  "pe_before (still_probe now a) = (\<lambda>p. p)" "pe_selected (still_probe now a) = (\<lambda>p. p)" "pe_acquire (still_probe now a) = a"
  "pe_during (still_probe now a) = (\<lambda>p. p)" "pe_after (still_probe now a) = (\<lambda>p. p)"
  "pe_counted (still_probe now a) = (\<lambda>p. p)" "pe_now (still_probe now a) = now"
  by (simp_all add: still_probe_def)

lemma ex_answer: "(\<exists>f. P (f s q)) \<longleftrightarrow> (\<exists>out. P out)"
proof
  assume "\<exists>out. P out"
  then obtain out where "P out" ..
  then show "\<exists>f. P (f s q)" by (intro exI[of _ "\<lambda>_ _. out"])
qed blast

text \<open>What follows the borrowing, on both sides.\<close>

definition probe_rest :: "instant \<Rightarrow> nat \<Rightarrow> outcome \<Rightarrow> gerr + session \<Rightarrow> Pool \<Rightarrow> Pool run" where
  "probe_rest now i out x p =
     (case x of
        Inl err \<Rightarrow> probe_failed (still_probe now quiet_acquire) i p
      | Inr s \<Rightarrow> bind_run (probe_verdict out)
          (\<lambda>v. let p = update_ep i (releaseSession (Some s)) p in
             (case v of Some err \<Rightarrow> probe_failed (still_probe now quiet_acquire) i p | None \<Rightarrow> Done (update_ep i resetFailCount p))))"

lemma probe_failed_still: "probe_failed (still_probe now a) = probe_failed (still_probe now a')"
  by (intro ext) (simp add: probe_failed_def Let_def)

lemma check_one_still:
  "check_one session_do url (still_probe now a) i p =
     (if ep_state (pool_endpoints p ! i) \<noteq> StateAlive then Done p
      else bind_run (acquireSession a (pool_endpoints p ! i)) (\<lambda>(x, e). probe_rest now i
        (session_do (case x of Inl _ \<Rightarrow> 0 | Inr s \<Rightarrow> s) (probe_request url)) x (update_ep i (\<lambda>_. e) p)))"
proof -
  have same: "probe_failed (still_probe now a) = probe_failed (still_probe now quiet_acquire)" by (rule probe_failed_still)
  show ?thesis
    unfolding check_one_def pingEndpoint_def probe_rest_def Let_def still_probe_fields same
    by (cases "acquireSession a (pool_endpoints p ! i)") (auto simp: bind_run_assoc split: sum.split)
qed

lemma alone_after_borrow:
  assumes "\<not> mu_held (pool_endpoints p ! i)"
  shows "(\<exists>res. alone_ends S now (acquired (SendProbe i) i (Using (SendProbe i) i) x) p res r) \<longleftrightarrow>
    (\<exists>out. probe_rest now i out x p = Done r)"
proof -
  let ?env = "still_probe now quiet_acquire"
  have failed: "(\<exists>res. alone_ends S now (Counting (SendProbe i) i None err) q res r) \<longleftrightarrow> probe_failed ?env i q = Done r"
    if "\<not> mu_held (pool_endpoints q ! i)" for q err
    using alone_probe_failed[OF that, of ?env now] by simp
  show ?thesis
  proof (cases x)
    case (Inr s)
    let ?p = "update_ep i (releaseSession (Some s)) p"
    have mu: "\<not> mu_held (pool_endpoints ?p ! i)" using mu_held_update[of "releaseSession (Some s)" p i] assms by simp
    have after: "(\<exists>res. alone_ends S now (Releasing (SendProbe i) i s v) p res r) \<longleftrightarrow>
        (case v of Some err \<Rightarrow> probe_failed ?env i ?p | None \<Rightarrow> Done (update_ep i resetFailCount ?p)) = Done r" for v
      using failed[OF mu] by (cases v) (auto simp: alone leave_def)
    have "alone_ends S now (Using (SendProbe i) i s) p res r \<longleftrightarrow>
        (\<exists>out v. probe_verdict out = Done v \<and> alone_ends S now (Releasing (SendProbe i) i s v) p res r)" for res
      by (subst alone_next) (auto simp: ex_decision)
    then have "(\<exists>res. alone_ends S now (Using (SendProbe i) i s) p res r) \<longleftrightarrow>
        (\<exists>out v. probe_verdict out = Done v \<and> (\<exists>res. alone_ends S now (Releasing (SendProbe i) i s v) p res r))" by blast
    then show ?thesis unfolding after Inr acquired_def probe_rest_def Let_def sum.case bind_run_Done_iff by simp
  qed (use failed[OF assms] in \<open>simp add: acquired_def probe_rest_def\<close>)
qed

lemma check_one_answers:
  assumes "ep_state (pool_endpoints p ! i) = StateAlive"
  shows "(\<exists>session_do. check_one session_do url (still_probe now a) i p = Done r) \<longleftrightarrow>
    (\<exists>x e. acquireSession a (pool_endpoints p ! i) = Done (x, e) \<and>
       (\<exists>out. probe_rest now i out x (update_ep i (\<lambda>_. e) p) = Done r))"
proof (cases "acquireSession a (pool_endpoints p ! i)")
  case (Done xe)
  have "(\<exists>session_do. (case xe of (x, e) \<Rightarrow> probe_rest now i
        (session_do (case x of Inl _ \<Rightarrow> 0 | Inr s \<Rightarrow> s) (probe_request url)) x (update_ep i (\<lambda>_. e) p)) = Done r) \<longleftrightarrow>
      (case xe of (x, e) \<Rightarrow> \<exists>out. probe_rest now i out x (update_ep i (\<lambda>_. e) p) = Done r)"
    by (cases xe) (simp add: ex_answer[of "\<lambda>out. probe_rest now i out _ _ = Done r"])
  then show ?thesis using assms unfolding check_one_still Done bind_run.simps by (cases xe) simp
qed (simp_all add: check_one_still assms)

theorem probe_alone:
  assumes "\<not> mu_held (pool_endpoints p ! i)" "i < length (pool_endpoints p)"
  shows "(\<exists>res. alone_ends S now (Start (SendProbe i)) p res r) \<longleftrightarrow>
    (\<exists>env session_do. undisturbed_probe now env \<and> check_one session_do url env i p = Done r)"
proof -
  have start: "alone_ends S now (Start (SendProbe i)) p res r \<longleftrightarrow> alone_ends S now
      (if ep_state (pool_endpoints p ! i) \<noteq> StateAlive then Ended None else Entering (SendProbe i) i) p res r" for res
    by (rule alone_step) simp_all
  show ?thesis
  proof (cases "ep_state (pool_endpoints p ! i) \<noteq> StateAlive")
    case True
    then show ?thesis unfolding start undisturbed_probe_iff
      by (auto simp: alone check_one_still alone_quiet intro!: exI[of _ quiet_acquire])
  next
    case False
    then have alive: "ep_state (pool_endpoints p ! i) = StateAlive" by simp
    have rest: "(\<exists>out. probe_rest now i out x (update_ep i (\<lambda>_. e) p) = Done r) \<longleftrightarrow>
        (\<exists>res. alone_ends S now (acquired (SendProbe i) i (Using (SendProbe i) i) x) (update_ep i (\<lambda>_. e) p) res r)"
      if "alone_acquire a" "acquireSession a (pool_endpoints p ! i) = Done (x, e)" for a x e
      using mu_held_acquire[OF that] assms by (intro alone_after_borrow[symmetric]) simp
    have "(\<exists>env session_do. undisturbed_probe now env \<and> check_one session_do url env i p = Done r) \<longleftrightarrow>
      (\<exists>a x e. alone_acquire a \<and> acquireSession a (pool_endpoints p ! i) = Done (x, e) \<and>
         (\<exists>out. probe_rest now i out x (update_ep i (\<lambda>_. e) p) = Done r))"
      unfolding undisturbed_probe_iff using check_one_answers[OF alive] by blast
    also have "\<dots> \<longleftrightarrow> (\<exists>a x e. alone_acquire a \<and> acquireSession a (pool_endpoints p ! i) = Done (x, e) \<and>
         (\<exists>res. alone_ends S now (acquired (SendProbe i) i (Using (SendProbe i) i) x) (update_ep i (\<lambda>_. e) p) res r))"
      using rest by blast
    also have "\<dots> \<longleftrightarrow> (\<exists>res. alone_ends S now (Start (SendProbe i)) p res r)"
      unfolding start if_not_P[OF False] alone_Entering[OF assms(2)] by blast
    finally show ?thesis ..
  qed
qed

text \<open>A ping: what follows the borrowing, and \<open>Ping\<close> after its two guards.\<close>

definition ping_rest :: "nat \<Rightarrow> outcome \<Rightarrow> gerr + session \<Rightarrow> Pool \<Rightarrow> (gerr option \<times> Pool) run" where
  "ping_rest i out x p =
     (case x of
        Inl err \<Rightarrow> Done (Some (ErrWrap ''acquiring session: '' err []), p)
      | Inr s \<Rightarrow> bind_run (ping_verdict out) (\<lambda>v. Done (v, update_ep i (releaseSession (Some s)) p)))"

lemma alone_ping_rest:
  "alone_ends S now (acquired SendPing i (Using SendPing i) x) p res r \<longleftrightarrow> (\<exists>out. ping_rest i out x p = Done (res, r))"
proof (cases x)
  case (Inr s)
  have "alone_ends S now (Using SendPing i s) p res r \<longleftrightarrow>
      (\<exists>out v. ping_verdict out = Done v \<and> alone_ends S now (Releasing SendPing i s v) p res r)"
    by (subst alone_next) (auto simp: ex_decision)
  then show ?thesis by (auto simp: Inr acquired_def ping_rest_def alone)
qed (auto simp: acquired_def ping_rest_def alone)

lemma Ping_undisturbed:
  assumes "url \<noteq> []" "resolvePool q pool c = Inr name" "cl_pools c name = Some p" "undisturbed now env"
  shows "Ping q session_do env pool url c = Done (res, c\<lparr>cl_pools := (cl_pools c)(name := Some r)\<rparr>) \<longleftrightarrow>
    (case getNextEndpointForDomain [] (quiet now p) (ae_rand env) (Some p) of
       (Inl err, p') \<Rightarrow> res = Some err \<and> p' = Some r
     | (Inr i, p') \<Rightarrow> \<exists>x e. acquireSession (ae_acquire env) (pool_endpoints (the p') ! i) = Done (x, e) \<and>
         ping_rest i (session_do (case x of Inl _ \<Rightarrow> 0 | Inr s \<Rightarrow> s) (probe_request url)) x (update_ep i (\<lambda>_. e) (the p')) =
           Done (res, r))"
proof -
  have same: "c\<lparr>cl_pools := (cl_pools c)(name := a)\<rparr> = c\<lparr>cl_pools := (cl_pools c)(name := b)\<rparr> \<longleftrightarrow> a = b" for a b
    by (cases c) (auto dest: fun_upd_eqD)
  have env: "ae_obs env = quiet now" "ae_selected env = (\<lambda>p. p)" "ae_during env = (\<lambda>p. p)"
    using assms(4) by (simp_all add: undisturbed_def)
  obtain sel p' where sel: "getNextEndpointForDomain [] (quiet now p) (ae_rand env) (Some p) = (sel, p')" by fastforce
  note ping = Ping_def getNextEndpoint_def Let_def env assms(2,3) if_not_P[OF assms(1)] option.sel sel
  show ?thesis
  proof (cases sel)
    case (Inr i)
    show ?thesis
    proof (cases "acquireSession (ae_acquire env) (pool_endpoints (the p') ! i)")
      case (Done xe)
      then obtain x e where acq: "acquireSession (ae_acquire env) (pool_endpoints (the p') ! i) = Done (x, e)" by (cases xe) simp
      show ?thesis unfolding ping Inr acq sum.case prod.case bind_run.simps by (cases x) (auto simp: same ping_rest_def)
    qed (simp_all add: ping Inr)
  qed (auto simp: ping same)
qed

lemma ping_alone:
  assumes "url \<noteq> []" "resolvePool q pool c = Inr name" "cl_pools c name = Some p"
  shows "alone_ends S now (Start SendPing) p res r \<longleftrightarrow>
    (\<exists>env. \<exists>session_do :: session \<Rightarrow> 'v Request \<Rightarrow> outcome. undisturbed now env \<and>
       Ping q session_do env pool url c = Done (res, c\<lparr>cl_pools := (cl_pools c)(name := Some r)\<rparr>))"
    (is "_ \<longleftrightarrow> ?R")
proof -
  let ?B = "\<lambda>a i p'. \<exists>x e. acquireSession a (pool_endpoints (the p') ! i) = Done (x, e) \<and>
      (\<exists>out. ping_rest i out x (update_ep i (\<lambda>_. e) (the p')) = Done (res, r))"
  let ?N = "\<lambda>u. getNextEndpointForDomain [] (quiet now p) u (Some p)"
  let ?Q = "\<lambda>u a. case ?N u of (Inl err, p') \<Rightarrow> res = Some err \<and> p' = Some r | (Inr i, p') \<Rightarrow> ?B a i p'"
  have L: "(case ?N u of (Inl err, p') \<Rightarrow> res = Some ErrAllProxiesBlocked \<and> r = the p'
      | (Inr i, p') \<Rightarrow> alone_ends S now (Entering SendPing i) (the p') res r) \<longleftrightarrow> (\<exists>a. alone_acquire a \<and> ?Q u a)" for u
  proof -
    obtain sel p' where sel: "?N u = (sel, p')" by fastforce
    show ?thesis
    proof (cases sel)
      case (Inl err)
      have "res = Some ErrAllProxiesBlocked \<and> r = the p' \<longleftrightarrow> res = Some err \<and> p' = Some r"
        using sel[unfolded Inl] by (cases rule: getNext_cases[of p "[]" "quiet now p" u]) (auto split: if_splits)
      then show ?thesis using sel Inl alone_quiet by auto
    next
      case (Inr i)
      have "i < length (pool_endpoints (the p'))" using getNext_alive[OF sel[unfolded Inr]] by auto
      from alone_Entering[OF this, of S now SendPing res r] show ?thesis
        unfolding alone_ping_rest sel Inr prod.case sum.case by blast
    qed
  qed
  have R: "(\<exists>session_do :: session \<Rightarrow> 'v Request \<Rightarrow> outcome. undisturbed now env \<and>
      Ping q session_do env pool url c = Done (res, c\<lparr>cl_pools := (cl_pools c)(name := Some r)\<rparr>)) \<longleftrightarrow>
      undisturbed now env \<and> ?Q (ae_rand env) (ae_acquire env)" for env
  proof -
    obtain sel p' where sel: "?N (ae_rand env) = (sel, p')" by fastforce
    have pick: "(\<exists>session_do. ping_rest i ((session_do :: session \<Rightarrow> 'v Request \<Rightarrow> outcome) s (probe_request url)) x q = Done (res, r)) \<longleftrightarrow>
        (\<exists>out. ping_rest i out x q = Done (res, r))" for i x q s
      by (rule ex_answer)
    show ?thesis
    proof (cases "undisturbed now env")
      case True
      show ?thesis
      proof (cases sel)
        case (Inr i)
        show ?thesis unfolding Ping_undisturbed[OF assms True] sel Inr prod.case sum.case using True pick by blast
      qed (simp add: Ping_undisturbed[OF assms True] sel True)
    qed simp
  qed
  have surroundings: "(\<exists>env. undisturbed now env \<and> P (ae_rand env) (ae_acquire env)) \<longleftrightarrow> (\<exists>u a. alone_acquire a \<and> P u a)" for P
    by (metis still_fields(1,2) undisturbed_def undisturbed_still)
  show ?thesis unfolding alone_selection[of SendPing, simplified] no_endpoint.simps job_domain.simps L R
    by (rule surroundings[of ?Q, symmetric])
qed


section \<open>Samples\<close>

fun alone_run :: "settings \<Rightarrow> instant \<Rightarrow> decision list \<Rightarrow> pc \<Rightarrow> Pool \<Rightarrow> (pc \<times> Pool) run" where
  "alone_run S now [] c p = Done (c, p)"
| "alone_run S now (ch # chs) c p = bind_run (advance S ch now c p) (\<lambda>(c, p). alone_run S now chs c p)"

lemma alone_run_ends: "alone_run S now chs c p = Done (Ended res, r) \<Longrightarrow> alone_ends S now c p res r"
  by (induction chs arbitrary: c p) (auto intro: at_end one_step)

lemma one_success:
  "\<exists>r. alone_run demo 0 [Plain, Plain, Ready CaseSession, Plain, Answer (Some ok_response, None), Elapsed [] 0, Plain, Plain, Plain, Plain]
     (Start (ServeRequest [])) solo = Done (Ended None, r) \<and> sint (ep_successReqs (pool_endpoints r ! 0)) = 1"
  by (simp add: demo_simps judged_def ok_not_blocked leave_def counter_ops releaseSession_def) (simp add: sample_endpoint_eq blank_endpoint_def)

theorem request_alone_witness:
  "\<exists>env st. undisturbed 0 env \<and>
     attempt id no_rx id (default_detector id) DefaultRetryConfig (failThreshold DefaultRetryConfig) [] (\<lambda>_. env) (start_call solo) =
       Done (None, st) \<and> sint (ep_successReqs (pool_endpoints (cs_pool st) ! 0)) = 1"
proof -
  obtain r where "alone_run demo 0 [Plain, Plain, Ready CaseSession, Plain, Answer (Some ok_response, None), Elapsed [] 0, Plain, Plain, Plain, Plain]
     (Start (ServeRequest [])) solo = Done (Ended None, r)" and r: "sint (ep_successReqs (pool_endpoints r ! 0)) = 1" using one_success by blast
  from alone_run_ends[OF this(1)] have "alone_ends demo 0 (Start (ServeRequest [])) solo None r" .
  moreover have "\<forall>e \<in> set (pool_endpoints solo). \<not> mu_held e" by (simp add: solo_fields mu_held_def demo_endpoint)
  ultimately show ?thesis using request_alone[of solo demo 0 "[]" None r] r by (simp only: demo_fields) blast
qed

definition strict :: settings where
  "strict = demo\<lparr>st_retry := DefaultRetryConfig\<lparr>rc_FailThreshold := 1\<rparr>\<rparr>"

definition forbidden :: Response where
  "forbidden = \<lparr> resp_StatusCode = 403, resp_Status = ''403 Forbidden'', resp_Body = [], resp_Header = [] \<rparr>"

lemma forbidden_blocked: "IsBlocked rx uni (Some (default_detector id)) (Some forbidden)"
  using default_codes[of id 403] by (simp add: IsBlocked_def forbidden_def)

definition block :: "nat \<Rightarrow> event list" where
  "block k = [Go k (Answer (Some forbidden, None)), Go k (Elapsed [] 0), Go k Plain, Go k Plain, Go k Plain, Go k Plain, Go k Plain]"


end
