(* ===== verification/Progress.thy ===== *)
theory Progress
  imports Interleaving
begin

text \<open>
  Goroutines end: the number of steps a goroutine takes is bounded by the size of the pool, whatever the
  others do (\<open>work\<close>), and from every reachable state all goroutines at work can run to their ends.
\<close>

section \<open>How many steps a goroutine has left\<close>

text \<open>From the place where a session is held to the end, with and without a session in the program counter.\<close>

definition charge :: "session option \<Rightarrow> nat" where
  "charge so = (case so of None \<Rightarrow> 0 | Some s \<Rightarrow> 5)"

fun steps_left :: "nat \<Rightarrow> pc \<Rightarrow> nat" where
  "steps_left n (Ended res) = 0"
| "steps_left n (Releasing job i s res) = (case job of SendProbe j \<Rightarrow> 5 | _ \<Rightarrow> 1)"
| "steps_left n (Clearing job i so) = 1 + charge so"
| "steps_left n (Cooling job i so err) = 1 + charge so"
| "steps_left n (Testing job i so err) = 2 + charge so"
| "steps_left n (Marking d i so err) = 3 + charge so"
| "steps_left n (Counting job i so err) = 4 + charge so"
| "steps_left n (Untiering job i s) = 7"
| "steps_left n (Succeeding job i s) = 8"
| "steps_left n (Timing d i s out) = 10"
| "steps_left n (Using job i s) = 11"
| "steps_left n (Received job i s) = 12"
| "steps_left n (Waiting job i) = 13"
| "steps_left n (Limiting job i) = 14"
| "steps_left n (Entering job i) = 15"
| "steps_left n (Scanning job is cs tot) = 16 + length is"
| "steps_left n (Start job) = 17 + n"

lemma control_left:
  "steps_left n (leave job i so res) \<le> charge so" "steps_left n (refused job i err) \<le> 4"
  "steps_left n (counted job i so err) \<le> 3 + charge so" "steps_left n (released job i res) \<le> 4"
  "steps_left n (judged S d i s idx out) \<le> 9" "answered job i s out = Done c \<Longrightarrow> steps_left n c \<le> 10"
proof -
  show "steps_left n (leave job i so res) \<le> charge so"
    by (simp add: leave_def charge_def split: option.split job.split)
  show "steps_left n (refused job i err) \<le> 4" by (cases job) (simp_all add: charge_def)
  show "steps_left n (counted job i so err) \<le> 3 + charge so" by (cases job) simp_all
  show "steps_left n (released job i res) \<le> 4" by (cases job; cases res) (simp_all add: charge_def)
  show "steps_left n (judged S d i s idx out) \<le> 9" by (simp add: judged_def charge_def split: prod.split option.split)
  show "answered job i s out = Done c \<Longrightarrow> steps_left n c \<le> 10" by (cases job) auto
qed

lemma acquired_left: "(\<And>s. steps_left n (next s) \<le> k) \<Longrightarrow> 4 \<le> k \<Longrightarrow> steps_left n (acquired job i next r) \<le> k"
  using le_trans[OF control_left(2)] by (auto simp: acquired_def split: sum.split)

lemma end_scan_left: "steps_left n (end_scan job cs tot u) \<le> 15"
  by (simp add: end_scan_def split: list.split prod.split)

lemma begin_job_left:
  "begin_job job p = (c, p') \<Longrightarrow> steps_left n c \<le> 16 + length (pool_endpoints p)"
  by (cases job) (auto simp: Let_def split: if_splits)

lemma advance_left:
  assumes "advance S ch now c p = Done (c', p')" "length (pool_endpoints p) = n"
  shows "steps_left n c' < steps_left n c"
  using assms
proof (cases "(S, ch, now, c, p)" rule: advance.cases)
  case (1 S' ch now job p)
  with assms begin_job_left[of job p c' p' n] show ?thesis by simp
next
  case (2 S' ch now job i "is" cs tot p)
  then show ?thesis using assms by (auto split: prod.splits simp del: scan.simps)
next
  case (3 S' ch now job cs tot p)
  then show ?thesis using assms le_less_trans[OF end_scan_left] by (auto split: decision.splits)
next
  case (4 S' ch now job i p)
  then show ?thesis using assms le_less_trans[OF control_left(2)] by (auto split: option.splits)
next
  case (5 S' ch now job i p)
  then show ?thesis using assms le_less_trans[OF control_left(2)] by (auto split: decision.splits option.splits)
next
  case (6 S' ch now job i p)
  then show ?thesis using assms le_less_trans[OF acquired_left[of n "Received job i" 12]] by (auto split: decision.splits)
next
  case (7 S' ch now job i x p)
  then show ?thesis using assms le_less_trans[OF acquired_left[of n "Using job i" 11]] by (auto split: prod.splits)
next
  case (8 S' ch now job i x p)
  then show ?thesis using assms le_less_trans[OF control_left(6)] by (auto split: decision.splits)
next
  case (9 S' ch now d i x out p)
  then show ?thesis using assms le_less_trans[OF control_left(5)[of n S' d i x _ out]] by (auto split: decision.splits)
next
  case (10 S' ch now job i so err p)
  then show ?thesis using assms le_less_trans[OF control_left(3)] by auto
next
  case (12 S' ch now job i so err p)
  then show ?thesis using assms le_less_trans[OF control_left(1)] by (auto split: if_splits)
next
  case (13 S' ch now job i so err p)
  then show ?thesis using assms le_less_trans[OF control_left(1)] by (auto split: if_splits)
next
  case (16 S' ch now job i so p)
  then show ?thesis using assms le_less_trans[OF control_left(1)] by auto
next
  case (17 S' ch now job i x res p)
  then show ?thesis using assms by (cases job; cases res) (auto simp: charge_def)
qed (auto simp: charge_def split: if_splits)


section \<open>The work of a pool\<close>

definition work :: "nat \<Rightarrow> sys \<Rightarrow> nat" where
  "work n s = sum_list (map (steps_left n) (sy_gos s))"

fun is_go :: "event \<Rightarrow> bool" where
  "is_go (Go k ch) = True" | "is_go _ = False"

fun is_spawn :: "event \<Rightarrow> bool" where
  "is_spawn (Spawn job) = True" | "is_spawn _ = False"

lemma exec_endpoints: "sys_exec S ev s = Some s' \<Longrightarrow> sys_ok S s \<Longrightarrow> length (pool_endpoints (sy_pool s')) = length (pool_endpoints (sy_pool s))"
  using sys_exec_ok by blast

lemma exec_work:
  assumes "sys_exec S ev s = Some s'" "length (pool_endpoints (sy_pool s)) = n"
  shows "work n s' + (if is_go ev then 1 else 0) \<le> work n s + (if is_spawn ev then 17 + n else 0)"
proof (cases ev)
  case (Go k ch)
  then obtain c p where k: "k < length (sy_gos s)" and adv: "advance S ch (sy_now s) (sy_gos s ! k) (sy_pool s) = Done (c, p)"
    and s': "s' = s\<lparr>sy_gos := (sy_gos s)[k := c], sy_pool := p\<rparr>"
    using assms(1) by (auto split: if_splits run.splits)
  have "sum_list (map (steps_left n) ((sy_gos s)[k := c])) < work n s"
    using advance_left[OF adv assms(2)] k elem_le_sum_list[of k "map (steps_left n) (sy_gos s)"]
    unfolding work_def map_update by (simp add: sum_list_update)
  then show ?thesis by (simp add: Go s' work_def)
qed (use assms in \<open>auto simp: work_def guarded_def put_view_def split: if_splits option.splits\<close>)


lemma run_work:
  assumes "sys_run S evs s = Some t" "sys_ok S s" "length (pool_endpoints (sy_pool s)) = n"
  shows "length (filter is_go evs) + work n t \<le> work n s + length (filter is_spawn evs) * (17 + n)"
  using assms
proof (induction evs arbitrary: s)
  case (Cons ev evs)
  then obtain s' where s': "sys_exec S ev s = Some s'" "sys_run S evs s' = Some t" by (auto simp: bind_eq_Some_conv)
  have "sys_ok S s'" "length (pool_endpoints (sy_pool s')) = n" using sys_exec_ok[OF s'(1) Cons.prems(2)] Cons.prems(3) by auto
  from Cons.IH[OF s'(2) this] exec_work[OF s'(1) Cons.prems(3)] show ?case by (auto simp: algebra_simps split: if_splits)
qed simp

text \<open>The work is bounded: a request, a ping or a probe takes at most \<open>17 + n\<close> steps on a pool of \<open>n\<close>
  endpoints, whatever the others do and however the steps interleave: no goroutine spins, and what the
  goroutines have done and still have to do never exceeds that bound for each that was started.\<close>

lemma work_is_bounded:
  assumes "newPoolWithFactory q parse cfg (st_retry S) factory k = (Inr p, dropped, k')"
    and "sys_run S evs (sys_start now p) = Some t"
  shows "length (filter is_go evs) + work (length (pool_endpoints p)) t \<le>
    length (filter is_spawn evs) * (17 + length (pool_endpoints p))"
proof -
  have "sys_ok S (sys_start now p)" using built_pool(1)[OF assms(1)] by (simp add: sys_ok_def sys_start_def)
  then show ?thesis using run_work[OF assms(2)] by (simp add: work_def sys_start_def)
qed

section \<open>Everybody ends\<close>

text \<open>A step raises the escalation of an endpoint by at most one.\<close>

lemma tiers_below_change:
  assumes "tiers_below b p" "b \<le> b'" and "0 \<le> sint (ep_cooldownTier (pool_endpoints p ! i)) \<Longrightarrow>
     sint (ep_cooldownTier (pool_endpoints p ! i)) < b \<Longrightarrow>
     0 \<le> sint (ep_cooldownTier (f (pool_endpoints p ! i))) \<and> sint (ep_cooldownTier (f (pool_endpoints p ! i))) < b'"
  shows "tiers_below b' (update_ep i f p)"
proof (cases "i < length (pool_endpoints p)")
  case True
  then show ?thesis using tiers_below_nth[OF assms(1) True] assms(3) by (intro tiers_below_update tiers_below_mono[OF assms(1,2)]) auto
next
  case False
  then have "update_ep i f p = p" by (simp add: update_ep_def list_update_beyond)
  then show ?thesis using tiers_below_mono[OF assms(1,2)] by simp
qed

lemma releaseSession_tier: "ep_cooldownTier (releaseSession so e) = ep_cooldownTier e"
  by (simp add: releaseSession_def close_session_def split: option.split)

lemma advance_tiers:
  assumes "advance S ch now c p = Done (c', p')" "tiers_below b p" "b \<le> 2 ^ 31 - 1"
  shows "tiers_below (b + 1) p'"
proof -
  have same: "tiers_below (b + 1) q" if "pool_endpoints q = pool_endpoints p" for q
    using assms(2) by (fastforce simp: tiers_below_def that)
  note update = tiers_below_change[OF assms(2), where b' = "b + 1"]
  show ?thesis
    using assms(1)
  proof (cases "(S, ch, now, c, p)" rule: advance.cases)
    case (1 S' ch now job p)
    with assms begin_job_holds(3)[of job p c' p'] same[of p'] show ?thesis by simp
  next
    case (2 S' ch' now' job i "is" cs tot q)
    then show ?thesis using assms same by (auto split: prod.splits simp del: scan.simps)
  next
    case (6 S' ch' now' job i q)
    then obtain c r e where e: "acq_select c (pool_endpoints p ! i) = Done (r, e)" "p' = update_ep i (\<lambda>_. e) p"
      using assms(1) by (auto split: decision.splits)
    show ?thesis unfolding e(2) by (intro update) (simp_all add: acq_tier(1)[OF e(1)])
  next
    case (7 S' ch' now' job i x q)
    then obtain r e where e: "acq_recheck x (pool_endpoints p ! i) = (r, e)" "p' = update_ep i (\<lambda>_. e) p"
      using assms(1) by (auto split: prod.splits)
    show ?thesis unfolding e(2) by (intro update) (simp_all add: acq_tier(2)[OF e(1)])
  next
    case (13 S' ch' now' job i so err q)
    then obtain e where e: "markFailed now (rc_CooldownPeriod (job_retry S p job)) (rc_MaxCooldown (job_retry S p job)) (pool_endpoints p ! i) = Done e"
      "p' = update_ep i (\<lambda>_. e) p" using assms(1) by (auto simp: run_ep_def split: if_splits)
    have "sint (ep_cooldownTier e) = sint (ep_cooldownTier (pool_endpoints p ! i)) + 1"
      if "0 \<le> sint (ep_cooldownTier (pool_endpoints p ! i))" "sint (ep_cooldownTier (pool_endpoints p ! i)) < b"
      using markFailed_runs[OF that(1), of now "rc_CooldownPeriod (job_retry S p job)" "rc_MaxCooldown (job_retry S p job)"] e(1) that(2) assms(3)
      by auto
    then show ?thesis unfolding e(2) by (intro update) simp_all
  qed (use assms(1) in \<open>auto intro!: update intro: same simp: counter_ops recordDomainBlock_def releaseSession_tier
        split: option.splits decision.splits if_splits\<close>)
qed

text \<open>The critical sections of recovery goroutines that are still to be left.\<close>

definition pending :: "sys \<Rightarrow> nat" where
  "pending s = sum_list (map (\<lambda>e. length (filter (\<lambda>t. tm_phase t = Checked) (ep_timers e))) (pool_endpoints (sy_pool s)))"

lemma finish_step:
  assumes "sys_exec S (Outside i (LFinish j)) s = Some s'"
  shows "sy_gos s' = sy_gos s" "pending s' < pending s" "tiers_below b (sy_pool s) \<Longrightarrow> tiers_below b (sy_pool s')"
proof -
  let ?e = "pool_endpoints (sy_pool s) ! i" and ?f = "\<lambda>e. length (filter (\<lambda>t. tm_phase t = Checked) (ep_timers e))"
  have i: "i < length (pool_endpoints (sy_pool s))" and fin: "can_finish j ?e"
    and s': "sy_gos s' = sy_gos s" "sy_pool s' = update_ep i (timer_finish j) (sy_pool s)"
    using assms by (auto simp: guarded_def put_view_def view_def update_ep_def split: if_splits option.splits)
  show "sy_gos s' = sy_gos s" by (rule s')
  show "tiers_below b (sy_pool s')" if "tiers_below b (sy_pool s)"
    unfolding s' using that
    by (rule tiers_below_change) (simp_all add: timer_finish_def drop_timer_def resetFailCount_def setState_def)
  have "?f (timer_finish j ?e) < ?f ?e"
  proof -
    obtain t where t: "t \<in> set (ep_timers ?e)" "tm_id t = j" "tm_phase t = Checked" using fin by (auto simp: can_finish_def)
    have "length (filter (\<lambda>t. tm_id t \<noteq> j) (filter (\<lambda>t. tm_phase t = Checked) (ep_timers ?e))) < ?f ?e"
      using t by (intro length_filter_less[of t]) auto
    then show ?thesis
      by (simp add: timer_finish_def drop_timer_def resetFailCount_def setState_def conj_commute)
  qed
  then show "pending s' < pending s"
    using i elem_le_sum_list[of i "map ?f (pool_endpoints (sy_pool s))"]
    unfolding pending_def s' by (simp add: update_ep_def map_update sum_list_update)
qed


lemma go_step:
  assumes "sys_exec S (Go k ch) s = Some s'" "tiers_below b (sy_pool s)" "b \<le> 2 ^ 31 - 1"
  shows "tiers_below (b + 1) (sy_pool s')"
  using assms advance_tiers[OF _ assms(2,3)] by (auto split: if_splits run.splits)

lemma all_finish:
  assumes built: "newPoolWithFactory q parse cfg (st_retry S) factory k = (Inr p, dropped, k')" and n: "n = length (pool_endpoints p)"
    and "sys_reach S (sys_start now p) s" "tiers_below (2 ^ 31 - 1 - int (work n s)) (sy_pool s)"
  shows "\<exists>evs t. (\<forall>ev \<in> set evs. productive ev) \<and> sys_run S evs s = Some t \<and> (\<forall>c \<in> set (sy_gos t). \<exists>res. c = Ended res)"
  using assms(3,4)
proof (induction s rule: wf_induct_rule[OF wf_measures[of "[work n, pending]"]])
  case (1 s)
  note reach = 1(2) and tiers = 1(3)
  show ?case
  proof (cases "\<forall>c \<in> set (sy_gos s). \<exists>res. c = Ended res")
    case True
    then show ?thesis by (intro exI[of _ "[]"] exI[of _ s]) simp
  next
    case False
    then obtain c where c: "c \<in> set (sy_gos s)" "\<forall>res. c \<noteq> Ended res" by blast
    have "tiers_below (2 ^ 31 - 1) (sy_pool s)" using tiers by (rule tiers_below_mono) simp
    from some_step[OF built reach c this] obtain ev s' where ev: "productive ev" "sys_exec S ev s = Some s'" by blast
    have reach': "sys_reach S (sys_start now p) s'" by (rule next_event[OF reach ev(2)])
    have len: "length (pool_endpoints (sy_pool s)) = n" using reach_ok[OF reach built_pool(1)[OF built]] n by simp
    have "(s', s) \<in> measures [work n, pending] \<and> tiers_below (2 ^ 31 - 1 - int (work n s')) (sy_pool s')"
    proof (cases ev)
      case (Go m ch)
      have less: "work n s' < work n s" using exec_work[OF ev(2) len] Go by simp
      have "tiers_below (2 ^ 31 - 1 - int (work n s) + 1) (sy_pool s')" using go_step[OF ev(2)[unfolded Go] tiers] by simp
      then show ?thesis using less by (fastforce simp: tiers_below_def)
    next
      case (Outside i l)
      then obtain j where "ev = Outside i (LFinish j)" using ev(1) by (cases l) auto
      note fin = finish_step[OF ev(2)[unfolded this]]
      have "work n s' = work n s" by (simp add: work_def fin(1))
      then show ?thesis using fin(2) fin(3)[OF tiers] by simp
    qed (use ev(1) in simp)
    from 1(1)[OF conjunct1[OF this] reach' conjunct2[OF this]] obtain evs t where
      "\<forall>ev \<in> set evs. productive ev" "sys_run S evs s' = Some t" "\<forall>c \<in> set (sy_gos t). \<exists>res. c = Ended res" by blast
    then show ?thesis using ev by (intro exI[of _ "ev # evs"] exI[of _ t]) simp
  qed
qed

text \<open>When they have ended every session is in a channel or closed, and an endpoint that has not been
  closed has all its sessions back.\<close>

lemma ended_sessions:
  assumes "newPoolWithFactory q parse cfg (st_retry S) factory k = (Inr p, dropped, k')"
    and "sys_reach S (sys_start now p) t" and "\<forall>c \<in> set (sy_gos t). \<exists>res. c = Ended res"
  shows "mset (concat (map ep_sessions (pool_endpoints (sy_pool t))) @ concat (map ep_closedSessions (pool_endpoints (sy_pool t)))) =
      mset (pool_created factory (pc_Endpoints cfg) (nat (sint (sessionPoolSize cfg))) k k')"
    and "\<forall>e \<in> set (pool_endpoints (sy_pool t)). \<not> ep_closed e \<longrightarrow> int (length (ep_sessions e)) = sint (ep_poolSize e)"
proof -
  have none: "concat (map session_of (sy_gos t)) = []" "filter (uses i) (sy_gos t) = []" for i
    using assms(3) by (auto simp: session_of_def uses_def borrowed_by_def filter_empty_conv)
  show "mset (concat (map ep_sessions (pool_endpoints (sy_pool t))) @ concat (map ep_closedSessions (pool_endpoints (sy_pool t)))) =
      mset (pool_created factory (pc_Endpoints cfg) (nat (sint (sessionPoolSize cfg))) k k')"
    using reach_whereabouts[OF assms(2) built_pool(1)[OF assms(1)]] built_pool(3)[OF assms(1)] by (simp add: whereabouts_def none(1))
  have "int (length (ep_sessions e)) = sint (ep_poolSize e)" if "e \<in> set (pool_endpoints (sy_pool t))" "\<not> ep_closed e" for e
  proof -
    obtain i where i: "i < length (pool_endpoints p)" "e = pool_endpoints (sy_pool t) ! i"
      using \<open>e \<in> _\<close> by (auto simp: in_set_conv_nth reach_ok(2)[OF assms(2) built_pool(1)[OF assms(1)]])
    show ?thesis using open_endpoint_full(2)[OF assms(1,2) i(1), folded i(2), OF that(2)] none(2)[of i] by simp
  qed
  then show "\<forall>e \<in> set (pool_endpoints (sy_pool t)). \<not> ep_closed e \<longrightarrow> int (length (ep_sessions e)) = sint (ep_poolSize e)" by blast
qed

text \<open>All goroutines can end: from every reachable state the requests, pings and probes in flight can
  run to their ends, with no context ending and no new work, if the escalations leave room for as many
  cooldowns as steps are left.  Then every session is in a channel or closed, and an endpoint that has
  not been closed has all its sessions back.\<close>

lemma everybody_can_finish:
  assumes "newPoolWithFactory q parse cfg (st_retry S) factory k = (Inr p, dropped, k')"
    and "sys_reach S (sys_start now p) s"
    and "tiers_below (2 ^ 31 - 1 - int (work (length (pool_endpoints p)) s)) (sy_pool s)"
  shows "\<exists>evs t. (\<forall>ev \<in> set evs. productive ev) \<and> sys_run S evs s = Some t \<and> (\<forall>c \<in> set (sy_gos t). \<exists>res. c = Ended res) \<and>
    mset (concat (map ep_sessions (pool_endpoints (sy_pool t))) @ concat (map ep_closedSessions (pool_endpoints (sy_pool t)))) =
      mset (pool_created factory (pc_Endpoints cfg) (nat (sint (sessionPoolSize cfg))) k k') \<and>
    (\<forall>e \<in> set (pool_endpoints (sy_pool t)). \<not> ep_closed e \<longrightarrow> int (length (ep_sessions e)) = sint (ep_poolSize e))"
proof -
  obtain evs t where t: "\<forall>ev \<in> set evs. productive ev" "sys_run S evs s = Some t" "\<forall>c \<in> set (sy_gos t). \<exists>res. c = Ended res"
    using all_finish[OF assms(1) refl assms(2,3)] by blast
  have reach: "sys_reach S (sys_start now p) t" using sys_reach_trans[OF sys_run_reach[OF t(2)] assms(2)] .
  show ?thesis by (intro exI[of _ evs] exI[of _ t] conjI t ended_sessions[OF assms(1) reach t(3)])
qed

end
