(* ===== verification/Calls.thy ===== *)
theory Calls
  imports Progress
begin

text \<open>
  Whole requests at work on a pool: any number of calls of \<open>DoForDomain\<close> (\<open>client.go\<close>), each with its
  attempts and the variables its closure shares with it, among pings, probes, recovery goroutines,
  administration and \<open>Close\<close>.  An attempt is a goroutine of \<open>Goroutines\<close>; \<open>retry.Do\<close> around it
  takes the steps its documentation allows (\<open>Retry.retry_allowed\<close>).
\<close>

section \<open>Calls\<close>

text \<open>
  Where a call stands: before an attempt, with the number of attempts it may still make; in an
  attempt, with the goroutine that runs it and the number of attempts it may make afterwards; or
  returned.
\<close>

datatype stage = Pausing nat | Trying nat nat | Returned outcome

record call =
  ca_domain :: string
  ca_stage :: stage
  ca_lastResp :: "Response option"
  ca_lastErr :: "gerr option"

record calls_sys =
  cy_sys :: sys
  cy_calls :: "call list"

text \<open>What \<open>DoForDomain\<close> returns once \<open>retry.Do\<close> has returned \<open>err\<close>.\<close>

definition call_result :: "gerr option \<Rightarrow> call \<Rightarrow> outcome" where
  "call_result err c =
     (case err of
        Some e \<Rightarrow>
          (case ca_lastResp c of
             Some resp \<Rightarrow> (Some resp, Some e)
           | None \<Rightarrow> (case ca_lastErr c of Some le \<Rightarrow> (None, Some le) | None \<Rightarrow> (None, Some e)))
      | None \<Rightarrow>
          (case ca_lastResp c of
             None \<Rightarrow> (None, Some (ErrText ''proxator: request returned a nil response''))
           | Some resp \<Rightarrow> (Some resp, None)))"

lemma call_result_is: "cs_lastResp st = ca_lastResp c \<Longrightarrow> cs_lastErr st = ca_lastErr c \<Longrightarrow> call_result err c = result_of err st"
  by (simp add: call_result_def result_of_def split: option.split)

lemma call_result_stage [simp]: "call_result err (c\<lparr>ca_stage := st\<rparr>) = call_result err c"
  by (simp add: call_result_def split: option.split)

definition new_call :: "settings \<Rightarrow> string \<Rightarrow> call" where
  "new_call S domain = \<lparr> ca_domain = domain, ca_stage = Pausing (unat (rc_MaxAttempts (st_retry S))),
     ca_lastResp = None, ca_lastErr = None \<rparr>"

text \<open>The closure stores the outcome of the request function in the variables of its call.\<close>

fun heard :: "decision \<Rightarrow> pc \<Rightarrow> call \<Rightarrow> call" where
  "heard (Answer (resp, err)) (Using job i s) c = c\<lparr>ca_lastResp := resp, ca_lastErr := err\<rparr>"
| "heard ch pc c = c"

text \<open>What \<open>retry.Do\<close> does when an attempt is over; \<open>n\<close> more are allowed, and \<open>unwrapped\<close> says whether it takes
  the last error out of an \<open>Unrecoverable\<close> wrapper.\<close>

fun settled :: "bool \<Rightarrow> nat \<Rightarrow> gerr option \<Rightarrow> call \<Rightarrow> call" where
  "settled unwrapped n None c = c\<lparr>ca_stage := Returned (call_result None c)\<rparr>"
| "settled unwrapped n (Some e) c =
     (if \<not> retry_if e \<or> n = 0
      then c\<lparr>ca_stage := Returned (call_result (Some (if unwrapped then unpack e else e)) c)\<rparr>
      else c\<lparr>ca_stage := Pausing n\<rparr>)"

section \<open>Steps\<close>

datatype call_event =
    NewCall string
  | ContextEnds nat gerr
  | Attempt nat
  | Work nat decision
  | Settle nat bool
  | Others event

text \<open>The goroutine an attempt of the call runs in, and whether it is one of the calls'.\<close>

definition running :: "call \<Rightarrow> nat option" where
  "running c = (case ca_stage c of Trying k n \<Rightarrow> Some k | _ \<Rightarrow> None)"

definition taken :: "call list \<Rightarrow> nat \<Rightarrow> bool" where
  "taken cs k \<longleftrightarrow> (\<exists>c \<in> set cs. running c = Some k)"

text \<open>Steps of others: they start pings and probes only, and leave the goroutines of the calls alone.\<close>

fun foreign :: "call list \<Rightarrow> event \<Rightarrow> bool" where
  "foreign cs (Spawn (ServeRequest d)) = False"
| "foreign cs (Go k ch) = (\<not> taken cs k)"
| "foreign cs _ = True"

definition set_call :: "nat \<Rightarrow> call \<Rightarrow> calls_sys \<Rightarrow> calls_sys" where
  "set_call i c s = s\<lparr>cy_calls := (cy_calls s)[i := c]\<rparr>"

fun on_call :: "settings \<Rightarrow> call_event \<Rightarrow> nat \<Rightarrow> call \<Rightarrow> calls_sys \<Rightarrow> calls_sys option" where
  "on_call S (ContextEnds _ e) i c s =
     (case ca_stage c of
        Pausing (Suc n) \<Rightarrow> Some (set_call i (c\<lparr>ca_stage := Returned (call_result (Some e) c)\<rparr>) s)
      | _ \<Rightarrow> None)"
| "on_call S (Attempt _) i c s =
     (case ca_stage c of
        Pausing (Suc n) \<Rightarrow>
          (case sys_exec S (Spawn (ServeRequest (ca_domain c))) (cy_sys s) of
             None \<Rightarrow> None
           | Some t \<Rightarrow> Some (set_call i (c\<lparr>ca_stage := Trying (length (sy_gos (cy_sys s))) n\<rparr>) (s\<lparr>cy_sys := t\<rparr>)))
      | _ \<Rightarrow> None)"
| "on_call S (Work _ ch) i c s =
     (case ca_stage c of
        Trying k n \<Rightarrow>
          (case sys_exec S (Go k ch) (cy_sys s) of
             None \<Rightarrow> None
           | Some t \<Rightarrow> Some (set_call i (heard ch (sy_gos (cy_sys s) ! k) c) (s\<lparr>cy_sys := t\<rparr>)))
      | _ \<Rightarrow> None)"
| "on_call S (Settle _ unwrapped) i c s =
     (case ca_stage c of
        Trying k n \<Rightarrow>
          (case sy_gos (cy_sys s) ! k of
             Ended res \<Rightarrow> Some (set_call i (settled unwrapped n res c) s)
           | _ \<Rightarrow> None)
      | _ \<Rightarrow> None)"
| "on_call S _ i c s = None"

text \<open>The call an event belongs to.\<close>

fun of_call :: "call_event \<Rightarrow> nat option" where
  "of_call (ContextEnds i e) = Some i" | "of_call (Attempt i) = Some i" | "of_call (Work i ch) = Some i"
| "of_call (Settle i u) = Some i" | "of_call _ = None"

fun calls_exec :: "settings \<Rightarrow> call_event \<Rightarrow> calls_sys \<Rightarrow> calls_sys option" where
  "calls_exec S (NewCall d) s = Some (s\<lparr>cy_calls := cy_calls s @ [new_call S d]\<rparr>)"
| "calls_exec S (Others ev) s =
     (if foreign (cy_calls s) ev
      then map_option (\<lambda>t. s\<lparr>cy_sys := t\<rparr>) (sys_exec S ev (cy_sys s)) else None)"
| "calls_exec S ev s =
     (case of_call ev of
        Some i \<Rightarrow> if i < length (cy_calls s) then on_call S ev i (cy_calls s ! i) s else None
      | None \<Rightarrow> None)"

fun calls_run :: "settings \<Rightarrow> call_event list \<Rightarrow> calls_sys \<Rightarrow> calls_sys option" where
  "calls_run S [] s = Some s"
| "calls_run S (ev # evs) s = Option.bind (calls_exec S ev s) (calls_run S evs)"

definition calls_start :: "instant \<Rightarrow> Pool \<Rightarrow> calls_sys" where
  "calls_start now p = \<lparr> cy_sys = sys_start now p, cy_calls = [] \<rparr>"

section \<open>The calls run on the pool\<close>

text \<open>A step of the calls is a step of the pool or none.\<close>

lemma call_cases:
  assumes "calls_exec S ev s = Some t"
  obtains (fresh_call) d where "ev = NewCall d" "cy_calls t = cy_calls s @ [new_call S d]" "cy_sys t = cy_sys s"
  | (ctx_ended) i e n where "ev = ContextEnds i e" "i < length (cy_calls s)" "ca_stage (cy_calls s ! i) = Pausing (Suc n)"
      "cy_calls t = (cy_calls s)[i := (cy_calls s ! i)\<lparr>ca_stage := Returned (call_result (Some e) (cy_calls s ! i))\<rparr>]" "cy_sys t = cy_sys s"
  | (attempted) i n where "ev = Attempt i" "i < length (cy_calls s)" "ca_stage (cy_calls s ! i) = Pausing (Suc n)"
      "cy_calls t = (cy_calls s)[i := (cy_calls s ! i)\<lparr>ca_stage := Trying (length (sy_gos (cy_sys s))) n\<rparr>]"
      "sys_exec S (Spawn (ServeRequest (ca_domain (cy_calls s ! i)))) (cy_sys s) = Some (cy_sys t)"
  | (work) i ch k n where "ev = Work i ch" "i < length (cy_calls s)" "ca_stage (cy_calls s ! i) = Trying k n"
      "cy_calls t = (cy_calls s)[i := heard ch (sy_gos (cy_sys s) ! k) (cy_calls s ! i)]"
      "sys_exec S (Go k ch) (cy_sys s) = Some (cy_sys t)"
  | (settle) i u k n res where "ev = Settle i u" "i < length (cy_calls s)" "ca_stage (cy_calls s ! i) = Trying k n"
      "cy_calls t = (cy_calls s)[i := settled u n res (cy_calls s ! i)]" "cy_sys t = cy_sys s" "sy_gos (cy_sys s) ! k = Ended res"
  | (others) e where "ev = Others e" "foreign (cy_calls s) e" "cy_calls t = cy_calls s" "sys_exec S e (cy_sys s) = Some (cy_sys t)"
proof (cases ev)
  case (Settle i u)
  then show thesis using assms settle by (auto simp: set_call_def simp del: sys_exec.simps split: if_splits stage.splits pc.splits)
qed (use assms fresh_call ctx_ended attempted work others in
      \<open>auto simp: set_call_def simp del: sys_exec.simps split: if_splits stage.splits nat.splits option.splits\<close>)

lemma call_step: "calls_exec S ev s = Some t \<Longrightarrow> cy_sys t = cy_sys s \<or> (\<exists>e. sys_exec S e (cy_sys s) = Some (cy_sys t))"
  by (erule call_cases) (auto simp: set_call_def simp del: sys_exec.simps)

lemma calls_reach_pool: "calls_run S evs s = Some t \<Longrightarrow> sys_reach S (cy_sys s) (cy_sys t)"
proof (induction evs arbitrary: s)
  case (Cons ev evs)
  then obtain u where u: "calls_exec S ev s = Some u" "calls_run S evs u = Some t" by (auto simp: bind_eq_Some_conv)
  have "sys_reach S (cy_sys s) (cy_sys u)" using call_step[OF u(1)] by (auto intro: sys_reach.intros)
  then show ?case using Cons.IH[OF u(2)] sys_reach_trans by blast
qed (simp add: here)

section \<open>What a call knows of its attempt\<close>

text \<open>The job of a program counter, and what the variables of a call say about the attempt it is in.\<close>

fun pc_job :: "pc \<Rightarrow> job option" where
  "pc_job (Start job) = Some job" | "pc_job (Scanning job is cs tot) = Some job"
| "pc_job (Entering job i) = Some job" | "pc_job (Limiting job i) = Some job" | "pc_job (Waiting job i) = Some job"
| "pc_job (Received job i s) = Some job" | "pc_job (Using job i s) = Some job" | "pc_job (Timing d i s out) = Some (ServeRequest d)"
| "pc_job (Counting job i so err) = Some job" | "pc_job (Marking d i so err) = Some (ServeRequest d)"
| "pc_job (Testing job i so err) = Some job" | "pc_job (Cooling job i so err) = Some job"
| "pc_job (Succeeding job i s) = Some job" | "pc_job (Untiering job i s) = Some job"
| "pc_job (Clearing job i so) = Some job" | "pc_job (Releasing job i s res) = Some job" | "pc_job (Ended res) = None"

definition genuine :: "settings \<Rightarrow> call \<Rightarrow> bool" where
  "genuine S c \<longleftrightarrow> ca_lastErr c = None \<and> \<not> IsBlocked (st_rx S) (st_uni S) (Some (st_detector S)) (ca_lastResp c)"

fun keeps_up :: "settings \<Rightarrow> call \<Rightarrow> pc \<Rightarrow> bool" where
  "keeps_up S c (Timing d i s out) = (out = (ca_lastResp c, ca_lastErr c))"
| "keeps_up S c (Succeeding job i s) = genuine S c" | "keeps_up S c (Untiering job i s) = genuine S c"
| "keeps_up S c (Clearing job i so) = genuine S c" | "keeps_up S c (Releasing job i s None) = genuine S c"
| "keeps_up S c (Ended None) = genuine S c"
| "keeps_up S c pc = True"

definition runs_request :: "call \<Rightarrow> pc \<Rightarrow> bool" where
  "runs_request c pc \<longleftrightarrow> pc_job pc \<in> {None, Some (ServeRequest (ca_domain c))}"

lemma heard_fields [simp]: "ca_stage (heard ch pc c) = ca_stage c" "ca_domain (heard ch pc c) = ca_domain c"
  by (cases "(ch, pc, c)" rule: heard.cases; simp)+

lemma heard_other: "(\<forall>job i s. pc \<noteq> Using job i s) \<Longrightarrow> heard ch pc c = c"
  by (cases "(ch, pc, c)" rule: heard.cases) auto

lemma keeps_up_control:
  "keeps_up S c (refused (ServeRequest d) i err)" "keeps_up S c (leave job i so (Some err))"
  "genuine S c \<Longrightarrow> keeps_up S c (leave job i so None)" "genuine S c \<or> res \<noteq> None \<Longrightarrow> keeps_up S c (released (ServeRequest d) i res)"
  "keeps_up S c (counted job i so err)" "keeps_up S c (end_scan job cs tot u)"
  "keeps_up S c (judged S d i s idx (ca_lastResp c, ca_lastErr c))"
  "(\<And>s. keeps_up S c (next s)) \<Longrightarrow> keeps_up S c (acquired (ServeRequest d) i next r)"
proof -
  show "keeps_up S c (counted job i so err)" by (cases job) simp_all
  show "keeps_up S c (judged S d i s idx (ca_lastResp c, ca_lastErr c))"
    by (simp add: judged_def genuine_def split: option.split)
  show "genuine S c \<or> res \<noteq> None \<Longrightarrow> keeps_up S c (released (ServeRequest d) i res)" by (cases res) simp_all
qed (simp_all add: leave_def end_scan_def acquired_def split: option.split list.split prod.split sum.split)

lemma job_control:
  "pc_job (refused job i err) \<in> {None, Some job}" "pc_job (leave job i so res) \<in> {None, Some job}"
  "pc_job (released job i res) \<in> {None, Some job}" "pc_job (counted job i so err) = Some job"
  "pc_job (end_scan job cs tot u) \<in> {None, Some job}" "pc_job (judged S d i s idx out) = Some (ServeRequest d)"
  "answered job i s out = Done pc \<Longrightarrow> pc_job pc = Some job"
  "(\<And>s. pc_job (next s) = Some job) \<Longrightarrow> pc_job (acquired job i next r) \<in> {None, Some job}"
proof -
  show "pc_job (released job i res) \<in> {None, Some job}" by (cases job; cases res) simp_all
  show "pc_job (counted job i so err) = Some job" by (cases job) simp_all
  show "answered job i s out = Done pc \<Longrightarrow> pc_job pc = Some job" by (cases job) auto
  have r: "pc_job (refused job i err) \<in> {None, Some job}" for err by (cases job) simp_all
  show "pc_job (refused job i err) \<in> {None, Some job}" by (rule r)
  show "(\<And>s. pc_job (next s) = Some job) \<Longrightarrow> pc_job (acquired job i next r) \<in> {None, Some job}"
    using r by (auto simp: acquired_def split: sum.split)
qed (simp_all add: leave_def end_scan_def judged_def split: option.split list.split prod.split)

text \<open>A step of the goroutine keeps the variables of its call up to date.\<close>

lemma advance_keeps_up:
  assumes "advance S ch now pc p = Done (pc', p')" "keeps_up S c pc" "runs_request c pc"
  shows "keeps_up S (heard ch pc c) pc' \<and> runs_request (heard ch pc c) pc'"
  using assms
proof (cases "(S, ch, now, pc, p)" rule: advance.cases)
  case (1 S' ch' now' job p)
  then show ?thesis using assms by (auto simp: runs_request_def heard_other Let_def split: if_splits)
next
  case (3 S' ch' now' job cs tot q)
  then show ?thesis using assms job_control(5)[of job cs tot] keeps_up_control(6)
    by (auto simp: runs_request_def heard_other split: decision.splits)
next
  case (4 S' ch' now' job i q)
  then show ?thesis using assms keeps_up_control(1)
    by (auto simp: runs_request_def heard_other split: option.splits if_splits)
next
  case (5 S' ch' now' job i q)
  then show ?thesis using assms keeps_up_control(1)
    by (auto simp: runs_request_def heard_other split: option.splits decision.splits)
next
  case (6 S' ch' now' job i q)
  then show ?thesis using assms keeps_up_control(8)[of S c "Received job i"] job_control(8)[of "Received job i" job i]
    by (auto simp: runs_request_def heard_other split: decision.splits)
next
  case (7 S' ch' now' job i x q)
  then show ?thesis using assms keeps_up_control(8)[of S c "Using job i"] job_control(8)[of "Using job i" job i]
    by (auto simp: runs_request_def heard_other split: prod.splits)
next
  case (8 S' ch' now' job i x q)
  then show ?thesis using assms
    by (cases ch) (auto simp: runs_request_def)
next
  case (9 S' ch' now' d i x out q)
  then show ?thesis using assms keeps_up_control(7)[of S c] job_control(6)[of S d i x _ out]
    by (auto simp: runs_request_def heard_other split: decision.splits)
next
  case (10 S' ch' now' job i so err q)
  then show ?thesis using assms keeps_up_control(5) by (auto simp: runs_request_def heard_other job_control(4))
next
  case (12 S' ch' now' job i so err q)
  then show ?thesis using assms keeps_up_control(2) job_control(2)[of job i so "Some err"]
    by (auto simp: runs_request_def heard_other split: if_splits)
next
  case (13 S' ch' now' job i so err q)
  then show ?thesis using assms keeps_up_control(2) job_control(2)[of job i so "Some err"]
    by (auto simp: runs_request_def heard_other split: if_splits)
next
  case (16 S' ch' now' job i so q)
  then show ?thesis using assms keeps_up_control(3) job_control(2)[of job i so None]
    by (auto simp: runs_request_def heard_other)
next
  case (17 S' ch' now' job i x res q)
  then show ?thesis using assms keeps_up_control(4)[of S c res]
    by (cases res) (auto simp: runs_request_def heard_other)
qed (auto simp: runs_request_def heard_other split: prod.splits)

section \<open>The invariant\<close>

text \<open>
  A call in an attempt has a goroutine of its own that keeps up with its variables; a call that has
  returned a response without an error returned the one it heard last, which is no block, and a
  call never returns neither a response nor an error.
\<close>

definition call_ok :: "settings \<Rightarrow> pc list \<Rightarrow> call \<Rightarrow> bool" where
  "call_ok S gos c \<longleftrightarrow>
     (case ca_stage c of
        Pausing n \<Rightarrow> n \<le> unat (rc_MaxAttempts (st_retry S)) \<and> (n = 0 \<longrightarrow> rc_MaxAttempts (st_retry S) = 0)
      | Trying k n \<Rightarrow> k < length gos \<and> keeps_up S c (gos ! k) \<and> runs_request c (gos ! k) \<and> n < unat (rc_MaxAttempts (st_retry S))
      | Returned (resp, err) \<Rightarrow> (resp \<noteq> None \<or> err \<noteq> None) \<and> (resp \<noteq> None \<longrightarrow> resp = ca_lastResp c) \<and> (err = None \<longrightarrow> genuine S c))"

definition separate :: "call list \<Rightarrow> bool" where
  "separate cs \<longleftrightarrow> (\<forall>i < length cs. \<forall>j < length cs. \<forall>k. running (cs ! i) = Some k \<longrightarrow> running (cs ! j) = Some k \<longrightarrow> i = j)"

definition calls_ok :: "settings \<Rightarrow> calls_sys \<Rightarrow> bool" where
  "calls_ok S s \<longleftrightarrow> (\<forall>c \<in> set (cy_calls s). call_ok S (sy_gos (cy_sys s)) c) \<and>
     separate (cy_calls s)"

lemma call_ok_running: "call_ok S gos c \<Longrightarrow> running c = Some k \<Longrightarrow> k < length gos"
  by (auto simp: call_ok_def running_def split: stage.splits)

lemma call_ok_mono:
  assumes "call_ok S gos c" "length gos \<le> length gos'" "\<And>k. running c = Some k \<Longrightarrow> gos' ! k = gos ! k"
  shows "call_ok S gos' c"
  using assms by (auto simp: call_ok_def running_def split: stage.splits)

lemma call_ok_returned:
  "e = None \<longrightarrow> genuine S c \<Longrightarrow> call_ok S gos (c\<lparr>ca_stage := Returned (call_result e c)\<rparr>)"
  by (auto simp: call_ok_def call_result_def genuine_def split: option.splits)

lemma call_ok_settled:
  "keeps_up S c (Ended res) \<Longrightarrow> n < unat (rc_MaxAttempts (st_retry S)) \<Longrightarrow> call_ok S gos (settled u n res c)"
  using call_ok_returned[of _ S c gos] by (cases res) (simp_all, simp add: call_ok_def)

lemma running_settled: "running (settled u n res c) = None"
  by (cases res) (auto simp: running_def)

lemma running_heard: "running (heard ch pc c) = running c"
  by (simp add: running_def)

text \<open>An event moves the goroutine it names only, and adds new ones at the end.\<close>

lemma exec_gos:
  assumes "sys_exec S e s = Some s'"
  shows "length (sy_gos s) \<le> length (sy_gos s')" "k < length (sy_gos s) \<Longrightarrow> (\<And>ch. e \<noteq> Go k ch) \<Longrightarrow> sy_gos s' ! k = sy_gos s ! k"
  using assms
  by (cases e; auto simp: guarded_def put_view_def nth_append nth_list_update split: if_splits option.splits run.splits)+

lemma running_bound:
  "calls_ok S s \<Longrightarrow> i < length (cy_calls s) \<Longrightarrow> running (cy_calls s ! i) = Some k \<Longrightarrow> k < length (sy_gos (cy_sys s))"
  by (meson calls_ok_def call_ok_running nth_mem)

lemma go_moves:
  assumes "sys_exec S (Go k ch) s = Some s'"
  shows "advance S ch (sy_now s) (sy_gos s ! k) (sy_pool s) = Done (sy_gos s' ! k, sy_pool s')"
  using assms by (auto split: if_splits run.splits)

text \<open>
  A step as one call sees it: the call does not exist, or neither it nor its goroutine moves, or it
  is created, or it moves in one of four ways.
\<close>

lemma call_view:
  assumes exec: "calls_exec S ev s = Some t" and ok: "calls_ok S s"
  obtains (absent) "\<not> i < length (cy_calls s)" "\<not> i < length (cy_calls t)" "of_call ev \<noteq> Some i"
  | (created) d where "ev = NewCall d" "\<not> i < length (cy_calls s)" "i < length (cy_calls t)" "cy_calls t ! i = new_call S d"
  | (unmoved) "i < length (cy_calls s)" "i < length (cy_calls t)" "of_call ev \<noteq> Some i" "cy_calls t ! i = cy_calls s ! i"
      "\<And>k. running (cy_calls s ! i) = Some k \<Longrightarrow> k < length (sy_gos (cy_sys s)) \<and> sy_gos (cy_sys t) ! k = sy_gos (cy_sys s) ! k"
  | (cancelled) e n where "ev = ContextEnds i e" "i < length (cy_calls s)" "i < length (cy_calls t)" "ca_stage (cy_calls s ! i) = Pausing (Suc n)"
      "cy_calls t ! i = (cy_calls s ! i)\<lparr>ca_stage := Returned (call_result (Some e) (cy_calls s ! i))\<rparr>"
  | (begun) n where "ev = Attempt i" "i < length (cy_calls s)" "i < length (cy_calls t)" "ca_stage (cy_calls s ! i) = Pausing (Suc n)"
      "cy_calls t ! i = (cy_calls s ! i)\<lparr>ca_stage := Trying (length (sy_gos (cy_sys s))) n\<rparr>"
      "sy_gos (cy_sys t) = sy_gos (cy_sys s) @ [Start (ServeRequest (ca_domain (cy_calls s ! i)))]"
  | (moved) ch k n where "ev = Work i ch" "i < length (cy_calls s)" "i < length (cy_calls t)" "ca_stage (cy_calls s ! i) = Trying k n"
      "k < length (sy_gos (cy_sys s))" "cy_calls t ! i = heard ch (sy_gos (cy_sys s) ! k) (cy_calls s ! i)"
      "advance S ch (sy_now (cy_sys s)) (sy_gos (cy_sys s) ! k) (sy_pool (cy_sys s)) = Done (sy_gos (cy_sys t) ! k, sy_pool (cy_sys t))"
  | (over) u k n res where "ev = Settle i u" "i < length (cy_calls s)" "i < length (cy_calls t)" "ca_stage (cy_calls s ! i) = Trying k n"
      "sy_gos (cy_sys s) ! k = Ended res" "cy_calls t ! i = settled u n res (cy_calls s ! i)"
proof -
  have kept: thesis if "cy_calls t ! i = cy_calls s ! i" "length (cy_calls t) = length (cy_calls s)" "of_call ev \<noteq> Some i"
    "\<And>k. i < length (cy_calls s) \<Longrightarrow> running (cy_calls s ! i) = Some k \<Longrightarrow> sy_gos (cy_sys t) ! k = sy_gos (cy_sys s) ! k"
    using that absent unmoved running_bound[OF ok] by (cases "i < length (cy_calls s)") auto
  have pool: "sy_gos (cy_sys t) ! k = sy_gos (cy_sys s) ! k"
    if "sys_exec S e (cy_sys s) = Some (cy_sys t)" "i < length (cy_calls s)" "running (cy_calls s ! i) = Some k" "\<And>ch. e \<noteq> Go k ch" for e k
    by (rule exec_gos(2)[OF that(1) running_bound[OF ok that(2,3)] that(4)])
  from exec show thesis
  proof (cases rule: call_cases)
    case (fresh_call d)
    show thesis
    proof (cases "i < length (cy_calls s)")
      case True
      show thesis by (rule unmoved) (use fresh_call True running_bound[OF ok True] in \<open>simp_all add: nth_append\<close>)
    next
      case False
      show thesis
      proof (cases "i = length (cy_calls s)")
        case True
        then show thesis using created[of d] fresh_call by simp
      qed (use fresh_call False absent in simp)
    qed
  next
    case (ctx_ended j e n)
    show thesis
    proof (cases "j = i")
      case True
      then show thesis using ctx_ended cancelled by simp
    qed (use ctx_ended kept in simp)
  next
    case (attempted j n)
    have gos: "sy_gos (cy_sys t) = sy_gos (cy_sys s) @ [Start (ServeRequest (ca_domain (cy_calls s ! j)))]"
      using attempted(5)[symmetric] by (simp add: guarded_def)
    show thesis
    proof (cases "j = i")
      case True
      then show thesis using attempted(1-4) gos begun by simp
    qed (use attempted(1,4) kept pool[OF attempted(5)] in simp)
  next
    case (work j ch k n)
    have k: "running (cy_calls s ! j) = Some k" using work(3) by (simp add: running_def)
    show thesis
    proof (cases "j = i")
      case True
      then show thesis using work(1-4) go_moves[OF work(5)] running_bound[OF ok work(2) k] moved by simp
    next
      case False
      have "Go k ch \<noteq> Go k' ch'" if "i < length (cy_calls s)" "running (cy_calls s ! i) = Some k'" for k' ch'
        using ok work(2) k that False by (auto simp: calls_ok_def separate_def)
      then show thesis using False work(1,4) kept pool[OF work(5)] by simp
    qed
  next
    case (settle j u k n res)
    show thesis
    proof (cases "j = i")
      case True
      then show thesis using settle over by simp
    qed (use settle kept in simp)
  next
    case (others e)
    have "e \<noteq> Go k ch" if "i < length (cy_calls s)" "running (cy_calls s ! i) = Some k" for k ch
      using others(2) that by (auto simp: taken_def)
    then show thesis using others(1,3) kept pool[OF others(4)] by simp
  qed
qed

lemma calls_grow:
  assumes "calls_exec S ev s = Some t" "calls_ok S s"
  shows "length (sy_gos (cy_sys s)) \<le> length (sy_gos (cy_sys t))"
  using assms(1) by (cases rule: call_cases) (auto dest: exec_gos(1) simp del: sys_exec.simps)

text \<open>The goroutine a call runs in after a step is the one it ran in before, or new.\<close>

lemma running_step:
  assumes "calls_exec S ev s = Some t" "calls_ok S s" "i < length (cy_calls t)" "running (cy_calls t ! i) = Some k"
  shows "i < length (cy_calls s) \<and> running (cy_calls s ! i) = Some k \<and> k < length (sy_gos (cy_sys s)) \<or>
    ev = Attempt i \<and> k = length (sy_gos (cy_sys s))"
  using assms(1,2)
proof (cases rule: call_view[where i = i])
  case (moved ch g n)
  then show ?thesis using assms(2,4) running_bound by (auto simp: running_heard)
qed (use assms(3,4) in \<open>auto simp: new_call_def running_def running_settled[unfolded running_def]\<close>)

lemma call_ok_step:
  assumes "calls_exec S ev s = Some t" "calls_ok S s" "i < length (cy_calls t)"
  shows "call_ok S (sy_gos (cy_sys t)) (cy_calls t ! i)"
proof -
  have ok: "call_ok S (sy_gos (cy_sys s)) (cy_calls s ! i)" if "i < length (cy_calls s)" using assms(2) that by (simp add: calls_ok_def)
  from assms(1,2) show ?thesis
  proof (cases rule: call_view[where i = i])
    case (created d)
    then show ?thesis by (simp add: new_call_def call_ok_def unat_eq_zero)
  next
    case unmoved
    then show ?thesis using call_ok_mono[OF ok calls_grow[OF assms(1,2)]] by simp
  next
    case (cancelled e n)
    then show ?thesis by (simp add: call_ok_returned)
  next
    case (begun n)
    then show ?thesis using ok by (simp add: call_ok_def runs_request_def)
  next
    case (moved ch k n)
    then have "keeps_up S (cy_calls s ! i) (sy_gos (cy_sys s) ! k)" "runs_request (cy_calls s ! i) (sy_gos (cy_sys s) ! k)"
      "n < unat (rc_MaxAttempts (st_retry S))" using ok by (auto simp: call_ok_def)
    then show ?thesis using advance_keeps_up[OF moved(7)] moved calls_grow[OF assms(1,2)] by (simp add: call_ok_def)
  next
    case (over u k n res)
    then have "keeps_up S (cy_calls s ! i) (Ended res)" "n < unat (rc_MaxAttempts (st_retry S))" using ok by (auto simp: call_ok_def)
    then show ?thesis unfolding over(6) by (rule call_ok_settled)
  qed (use assms(3) in simp)
qed

lemma calls_exec_ok:
  assumes "calls_exec S ev s = Some t" "calls_ok S s"
  shows "calls_ok S t"
proof -
  have "i = j" if "i < length (cy_calls t)" "j < length (cy_calls t)" "running (cy_calls t ! i) = Some k" "running (cy_calls t ! j) = Some k" for i j k
    using running_step[OF assms that(1,3)] running_step[OF assms that(2,4)] assms(2) by (auto simp: calls_ok_def separate_def)
  then show ?thesis using call_ok_step[OF assms] by (auto simp: calls_ok_def separate_def in_set_conv_nth)
qed

lemma calls_run_ok: "calls_run S evs s = Some t \<Longrightarrow> calls_ok S s \<Longrightarrow> calls_ok S t"
proof (induction evs arbitrary: s)
  case (Cons ev evs)
  then obtain u where u: "calls_exec S ev s = Some u" "calls_run S evs u = Some t" by (auto simp: bind_eq_Some_conv)
  show ?case by (rule Cons.IH[OF u(2) calls_exec_ok[OF u(1) Cons.prems(2)]])
qed simp

lemma calls_start_ok: "calls_ok S (calls_start now p)"
  by (simp add: calls_ok_def calls_start_def separate_def)

section \<open>Where a response comes from\<close>

definition last_heard :: "calls_sys \<Rightarrow> nat \<Rightarrow> outcome" where
  "last_heard s i = (if i < length (cy_calls s) then (ca_lastResp (cy_calls s ! i), ca_lastErr (cy_calls s ! i)) else (None, None))"

text \<open>Call \<open>i\<close> waits for the answer of session \<open>x\<close> of endpoint \<open>e\<close>.\<close>

definition awaits :: "calls_sys \<Rightarrow> nat \<Rightarrow> nat \<Rightarrow> session \<Rightarrow> bool" where
  "awaits s i e x \<longleftrightarrow> i < length (cy_calls s) \<and>
     (\<exists>k n job. ca_stage (cy_calls s ! i) = Trying k n \<and> sy_gos (cy_sys s) ! k = Using job e x)"

lemma heard_changes:
  "heard ch pc c = c \<or> (\<exists>job e x. pc = Using job e x \<and> ch = Answer (ca_lastResp (heard ch pc c), ca_lastErr (heard ch pc c)))"
  by (cases "(ch, pc, c)" rule: heard.cases) auto

lemma settled_vars: "ca_lastResp (settled u n res c) = ca_lastResp c" "ca_lastErr (settled u n res c) = ca_lastErr c"
  by (cases res; simp)+

lemma step_heard:
  assumes "calls_exec S ev s = Some t" "calls_ok S s"
  shows "last_heard t i = last_heard s i \<or> (\<exists>e x. awaits s i e x \<and> ev = Work i (Answer (last_heard t i)))"
  using assms
proof (cases rule: call_view[where i = i])
  case (moved ch k n)
  then show ?thesis using heard_changes[of ch "sy_gos (cy_sys s) ! k" "cy_calls s ! i"] by (auto simp: last_heard_def awaits_def)
qed (simp_all add: last_heard_def new_call_def settled_vars)

lemma run_heard:
  assumes "calls_run S evs s = Some t" "calls_ok S s"
  shows "last_heard t i = last_heard s i \<or>
    (\<exists>evs1 evs2 u e x. evs = evs1 @ Work i (Answer (last_heard t i)) # evs2 \<and> calls_run S evs1 s = Some u \<and> awaits u i e x)"
  using assms
proof (induction evs arbitrary: s)
  case (Cons ev evs)
  then obtain v where v: "calls_exec S ev s = Some v" "calls_run S evs v = Some t" by (auto simp: bind_eq_Some_conv)
  from Cons.IH[OF v(2) calls_exec_ok[OF v(1) Cons.prems(2)]] show ?case
  proof
    assume same: "last_heard t i = last_heard v i"
    from step_heard[OF v(1) Cons.prems(2), of i] show ?thesis
    proof
      assume "\<exists>e x. awaits s i e x \<and> ev = Work i (Answer (last_heard v i))"
      then show ?thesis using same by (intro disjI2 exI[of _ "[]"] exI[of _ evs]) auto
    qed (simp add: same)
  next
    assume "\<exists>evs1 evs2 u e x. evs = evs1 @ Work i (Answer (last_heard t i)) # evs2 \<and> calls_run S evs1 v = Some u \<and> awaits u i e x"
    then obtain evs1 evs2 u e x where "evs = evs1 @ Work i (Answer (last_heard t i)) # evs2" "calls_run S evs1 v = Some u" "awaits u i e x"
      by blast
    then show ?thesis using v(1) by (intro disjI2 exI[of _ "ev # evs1"] exI[of _ evs2] exI[of _ u] exI[of _ e] exI[of _ x]) simp
  qed
qed simp

section \<open>How much a call does\<close>

definition call_left :: "nat \<Rightarrow> pc list \<Rightarrow> call \<Rightarrow> nat" where
  "call_left n gos c =
     (case ca_stage c of
        Pausing m \<Rightarrow> m * (19 + n)
      | Trying k m \<Rightarrow> m * (19 + n) + 1 + steps_left n (gos ! k)
      | Returned out \<Rightarrow> 0)"

definition left_of :: "nat \<Rightarrow> nat \<Rightarrow> calls_sys \<Rightarrow> nat \<Rightarrow> nat" where
  "left_of m n s i = (if i < length (cy_calls s) then call_left n (sy_gos (cy_sys s)) (cy_calls s ! i) else m * (19 + n))"

lemma call_left_kept:
  assumes "\<And>k. running c = Some k \<Longrightarrow> gos' ! k = gos ! k"
  shows "call_left n gos' c = call_left n gos c"
  using assms by (auto simp: call_left_def running_def split: stage.splits)

lemma call_left_settled:
  "ca_stage c = Trying k m \<Longrightarrow> call_left n gos (settled u m res c) \<le> m * (19 + n)"
  by (cases res) (simp_all add: call_left_def)

lemma step_left:
  assumes "calls_exec S ev s = Some t" "calls_ok S s" "length (pool_endpoints (sy_pool (cy_sys s))) = n" "m = unat (rc_MaxAttempts (st_retry S))"
  shows "left_of m n t i + (if of_call ev = Some i then 1 else 0) \<le> left_of m n s i"
  using assms(1,2)
proof (cases rule: call_view[where i = i])
  case (created d)
  then show ?thesis using assms(4) by (simp add: left_of_def new_call_def call_left_def)
next
  case unmoved
  have "call_left n (sy_gos (cy_sys t)) (cy_calls s ! i) = call_left n (sy_gos (cy_sys s)) (cy_calls s ! i)"
    by (rule call_left_kept) (use unmoved(5) in blast)
  then show ?thesis using unmoved(1-4) by (simp add: left_of_def)
next
  case (moved ch k l)
  then show ?thesis using advance_left[OF moved(7) assms(3)] by (simp add: left_of_def call_left_def)
next
  case (over u k l res)
  then show ?thesis using call_left_settled[OF over(4), of n "sy_gos (cy_sys t)" u res]
    by (simp add: left_of_def) (simp add: call_left_def)
next
  case (cancelled e l)
  then show ?thesis by (simp add: left_of_def call_left_def)
next
  case (begun l)
  then show ?thesis by (simp add: left_of_def call_left_def)
qed (simp add: left_of_def)

lemma step_ok:
  assumes "calls_exec S ev s = Some t" "calls_ok S s \<and> sys_ok S (cy_sys s)"
  shows "calls_ok S t \<and> sys_ok S (cy_sys t)"
    and "length (pool_endpoints (sy_pool (cy_sys t))) = length (pool_endpoints (sy_pool (cy_sys s)))"
  using calls_exec_ok[OF assms(1)] call_step[OF assms(1)] sys_exec_ok assms(2) exec_endpoints by metis+

text \<open>A budget that the events of a kind use up and no event raises bounds their number.\<close>

lemma run_budget:
  assumes "calls_run S evs s = Some t" "calls_ok S s \<and> sys_ok S (cy_sys s)" "length (pool_endpoints (sy_pool (cy_sys s))) = n"
    and "\<And>ev s t. calls_exec S ev s = Some t \<Longrightarrow> calls_ok S s \<Longrightarrow> length (pool_endpoints (sy_pool (cy_sys s))) = n \<Longrightarrow>
      budget t + (if kind ev then 1 else 0) \<le> (budget s :: nat)"
  shows "length (filter kind evs) + budget t \<le> budget s"
  using assms(1-3)
proof (induction evs arbitrary: s)
  case (Cons ev evs)
  then obtain u where u: "calls_exec S ev s = Some u" "calls_run S evs u = Some t" by (auto simp: bind_eq_Some_conv)
  have "length (filter kind evs) + budget t \<le> budget u"
    using Cons.IH[OF u(2) step_ok(1)[OF u(1) Cons.prems(2)]] step_ok(2)[OF u(1) Cons.prems(2)] Cons.prems(3) by simp
  with assms(4)[OF u(1) conjunct1[OF Cons.prems(2)] Cons.prems(3)] show ?case by (simp split: if_splits)
qed simp

definition tries_left :: "nat \<Rightarrow> calls_sys \<Rightarrow> nat \<Rightarrow> nat" where
  "tries_left m s i = (if i < length (cy_calls s)
     then (case ca_stage (cy_calls s ! i) of Pausing k \<Rightarrow> k | Trying g k \<Rightarrow> k | Returned out \<Rightarrow> 0) else m)"

lemma step_tries:
  assumes "calls_exec S ev s = Some t" "calls_ok S s" "m = unat (rc_MaxAttempts (st_retry S))"
  shows "tries_left m t i + (if ev = Attempt i then 1 else 0) \<le> tries_left m s i"
  using assms(1,2)
proof (cases rule: call_view[where i = i])
  case (over u k l res)
  then show ?thesis by (cases res) (simp_all add: tries_left_def)
qed (auto simp: tries_left_def new_call_def assms(3))

section \<open>Every call returns\<close>

text \<open>What the calls and the goroutines still have to do.\<close>

definition waiting :: "nat \<Rightarrow> call \<Rightarrow> nat" where
  "waiting n c = (case ca_stage c of Pausing m \<Rightarrow> m * (19 + n) | Trying k m \<Rightarrow> m * (19 + n) + 1 | Returned out \<Rightarrow> 0)"

definition total :: "nat \<Rightarrow> calls_sys \<Rightarrow> nat" where
  "total n s = Progress.work n (cy_sys s) + sum_list (map (waiting n) (cy_calls s))"

text \<open>Events of the program's own doing: no new call or job, and no context ends.\<close>

fun progressing :: "call_event \<Rightarrow> bool" where
  "progressing (Attempt i) = True"
| "progressing (Work i ch) = (\<forall>err. ch \<noteq> Ready (CaseCtx err))"
| "progressing (Settle i u) = True"
| "progressing (Others ev) = productive ev"
| "progressing ev = False"

lemma sum_list_changed:
  fixes f :: "'a \<Rightarrow> nat"
  assumes "i < length xs"
  shows "sum_list (map f (xs[i := x])) + f (xs ! i) = sum_list (map f xs) + f x"
proof -
  have "f (xs ! i) \<le> sum_list (map f xs)" using assms elem_le_sum_list[of i "map f xs"] by simp
  then show ?thesis using assms by (simp add: map_update sum_list_update)
qed

text \<open>What a step of the program itself must give: less to do, and room for the cooldowns that are left.\<close>

definition nearer :: "nat \<Rightarrow> calls_sys \<Rightarrow> calls_sys \<Rightarrow> bool" where
  "nearer n t s \<longleftrightarrow> (total n t < total n s \<or> total n t = total n s \<and> pending (cy_sys t) < pending (cy_sys s)) \<and>
     tiers_below (2 ^ 31 - 1 - int (total n t)) (sy_pool (cy_sys t))"

lemma nearer_spent:
  assumes "total n t < total n s" "tiers_below (2 ^ 31 - 1 - int (total n s) + 1) (sy_pool (cy_sys t))"
  shows "nearer n t s"
  unfolding nearer_def using assms(1) by (intro conjI disjI1 tiers_below_mono[OF assms(2)]) simp_all

lemma nearer_go:
  assumes "sys_exec S (Go k ch) (cy_sys s) = Some (cy_sys t)" "n = length (pool_endpoints (sy_pool (cy_sys s)))"
    and "tiers_below (2 ^ 31 - 1 - int (total n s)) (sy_pool (cy_sys s))"
    and "sum_list (map (waiting n) (cy_calls t)) = sum_list (map (waiting n) (cy_calls s))"
  shows "nearer n t s"
proof (rule nearer_spent)
  show "total n t < total n s" using exec_work[OF assms(1) assms(2)[symmetric]] assms(4) by (simp add: total_def)
  show "tiers_below (2 ^ 31 - 1 - int (total n s) + 1) (sy_pool (cy_sys t))" using go_step[OF assms(1,3)] by simp
qed

lemma progress_total:
  assumes "calls_exec S ev s = Some t" "progressing ev" "n = length (pool_endpoints (sy_pool (cy_sys s)))"
    and tiers: "tiers_below (2 ^ 31 - 1 - int (total n s)) (sy_pool (cy_sys s))"
  shows "nearer n t s"
  using assms(1)
proof (cases rule: call_cases)
  case (attempted j k)
  let ?c = "(cy_calls s ! j)\<lparr>ca_stage := Trying (length (sy_gos (cy_sys s))) k\<rparr>"
  have sys: "cy_sys t = (cy_sys s)\<lparr>sy_gos := sy_gos (cy_sys s) @ [Start (ServeRequest (ca_domain (cy_calls s ! j)))]\<rparr>"
    using attempted(5)[symmetric] by (simp add: guarded_def)
  have "total n t < total n s"
    using sum_list_changed[OF attempted(2), of "waiting n" ?c] attempted(3)
    by (simp add: total_def attempted(4) sys Progress.work_def waiting_def)
  then show ?thesis by (rule nearer_spent) (use tiers_below_mono[OF tiers] in \<open>simp add: sys\<close>)
next
  case (work j ch k l)
  show ?thesis
    by (rule nearer_go[OF work(5) assms(3) tiers])
       (use sum_list_changed[OF work(2), of "waiting n" "heard ch (sy_gos (cy_sys s) ! k) (cy_calls s ! j)"] work(3,4) in \<open>simp add: waiting_def\<close>)
next
  case (settle j u k l res)
  have "waiting n (settled u l res (cy_calls s ! j)) < waiting n (cy_calls s ! j)"
    using settle(3) by (cases res) (simp_all add: waiting_def)
  then have "total n t < total n s"
    using sum_list_changed[OF settle(2), of "waiting n" "settled u l res (cy_calls s ! j)"] by (simp add: total_def settle(4,5))
  then show ?thesis by (rule nearer_spent) (use tiers_below_mono[OF tiers] in \<open>simp add: settle(5)\<close>)
next
  case (others e)
  have prod: "productive e" using assms(2) others(1) by simp
  show ?thesis
  proof (cases e)
    case (Go k ch)
    show ?thesis by (rule nearer_go[OF others(4)[unfolded Go] assms(3) tiers]) (simp add: others(3))
  next
    case (Outside i l)
    then obtain j where "e = Outside i (LFinish j)" using prod by (cases l) auto
    note fin = finish_step[OF others(4)[unfolded this]]
    have "total n t = total n s" by (simp add: total_def others(3) Progress.work_def fin(1))
    then show ?thesis using fin(2) fin(3)[OF tiers] by (simp add: nearer_def)
  qed (use prod in simp)
qed (use assms(2) in simp_all)

lemma call_runs_goroutine:
  assumes "sys_exec S (Go k ch) (cy_sys s) = Some s'" "taken (cy_calls s) k"
  shows "\<exists>i t. calls_exec S (Work i ch) s = Some t"
proof -
  obtain i where i: "i < length (cy_calls s)" "running (cy_calls s ! i) = Some k"
    using assms(2) by (auto simp: taken_def in_set_conv_nth)
  then obtain n where "ca_stage (cy_calls s ! i) = Trying k n" by (auto simp: running_def split: stage.splits)
  with i(1) assms(1) have "\<exists>t. calls_exec S (Work i ch) s = Some t" by (simp del: sys_exec.simps)
  then show ?thesis by blast
qed

lemma some_call_step:
  assumes built: "newPoolWithFactory q parse cfg (st_retry S) factory k = (Inr p, dropped, k')"
    and reach: "sys_reach S (sys_start now p) (cy_sys s)" and ok: "calls_ok S s" and tiers: "tiers_below (2 ^ 31 - 1) (sy_pool (cy_sys s))"
    and attempts: "rc_MaxAttempts (st_retry S) \<noteq> 0"
    and more: "\<not> ((\<forall>c \<in> set (cy_calls s). \<exists>out. ca_stage c = Returned out) \<and> (\<forall>c \<in> set (sy_gos (cy_sys s)). \<exists>res. c = Ended res))"
  shows "\<exists>ev t. progressing ev \<and> calls_exec S ev s = Some t"
proof (cases "\<forall>c \<in> set (sy_gos (cy_sys s)). \<exists>res. c = Ended res")
  case False
  then obtain pc where "pc \<in> set (sy_gos (cy_sys s))" "\<forall>res. pc \<noteq> Ended res" by blast
  from some_step[OF built reach this tiers] obtain ev s' where ev: "productive ev" "sys_exec S ev (cy_sys s) = Some s'" by blast
  show ?thesis
  proof (cases "foreign (cy_calls s) ev")
    case True
    then have "calls_exec S (Others ev) s = Some (s\<lparr>cy_sys := s'\<rparr>)" using ev(2) by simp
    then show ?thesis using ev(1) by (intro exI[of _ "Others ev"]) simp
  next
    case False
    then obtain m ch where go: "ev = Go m ch" "taken (cy_calls s) m" using ev(1) by (cases ev) auto
    from call_runs_goroutine[OF ev(2)[unfolded go(1)] go(2)] obtain i t where "calls_exec S (Work i ch) s = Some t" by blast
    then show ?thesis using ev(1) go(1) by (intro exI[of _ "Work i ch"]) simp
  qed
next
  case ended: True
  with more obtain i where i: "i < length (cy_calls s)" "\<forall>out. ca_stage (cy_calls s ! i) \<noteq> Returned out"
    by (metis in_set_conv_nth)
  have c: "call_ok S (sy_gos (cy_sys s)) (cy_calls s ! i)" using ok i(1) by (simp add: calls_ok_def)
  show ?thesis
  proof (cases "ca_stage (cy_calls s ! i)")
    case (Pausing n)
    then obtain m where "ca_stage (cy_calls s ! i) = Pausing (Suc m)" using c attempts by (cases n) (auto simp: call_ok_def)
    then have "\<exists>t. calls_exec S (Attempt i) s = Some t" using i(1) by (simp add: guarded_def)
    then show ?thesis by (intro exI[of _ "Attempt i"]) simp
  next
    case (Trying g n)
    then have "g < length (sy_gos (cy_sys s))" using c by (simp add: call_ok_def)
    then obtain res where "sy_gos (cy_sys s) ! g = Ended res" using ended nth_mem by blast
    then have "\<exists>t. calls_exec S (Settle i False) s = Some t" using i(1) Trying by simp
    then show ?thesis by (intro exI[of _ "Settle i False"]) simp
  qed (use i(2) in simp)
qed

lemma calls_finish:
  assumes built: "newPoolWithFactory q parse cfg (st_retry S) factory k = (Inr p, dropped, k')" and n: "n = length (pool_endpoints p)"
    and attempts: "rc_MaxAttempts (st_retry S) \<noteq> 0"
    and "sys_reach S (sys_start now p) (cy_sys s)" "calls_ok S s" "tiers_below (2 ^ 31 - 1 - int (total n s)) (sy_pool (cy_sys s))"
  shows "\<exists>evs t. (\<forall>ev \<in> set evs. progressing ev) \<and> calls_run S evs s = Some t \<and>
    (\<forall>c \<in> set (cy_calls t). \<exists>out. ca_stage c = Returned out) \<and> (\<forall>c \<in> set (sy_gos (cy_sys t)). \<exists>res. c = Ended res)"
  using assms(4-6)
proof (induction s rule: wf_induct_rule[OF wf_measures[of "[total n, \<lambda>s. pending (cy_sys s)]"]])
  case (1 s)
  note reach = 1(2) and ok = 1(3) and tiers = 1(4)
  show ?case
  proof (cases "(\<forall>c \<in> set (cy_calls s). \<exists>out. ca_stage c = Returned out) \<and> (\<forall>c \<in> set (sy_gos (cy_sys s)). \<exists>res. c = Ended res)")
    case True
    then show ?thesis by (intro exI[of _ "[]"] exI[of _ s]) simp
  next
    case False
    have "tiers_below (2 ^ 31 - 1) (sy_pool (cy_sys s))" using tiers by (rule tiers_below_mono) simp
    from some_call_step[OF built reach ok this attempts False] obtain ev u where ev: "progressing ev" "calls_exec S ev s = Some u" by blast
    have "sys_reach S (sys_start now p) (cy_sys u)" using call_step[OF ev(2)] reach by (auto intro: next_event)
    moreover have "calls_ok S u" by (rule calls_exec_ok[OF ev(2) ok])
    moreover have "n = length (pool_endpoints (sy_pool (cy_sys s)))" using reach_ok[OF reach built_pool(1)[OF built]] n by simp
    from progress_total[OF ev(2,1) this tiers]
    have "(u, s) \<in> measures [total n, \<lambda>s. pending (cy_sys s)]" "tiers_below (2 ^ 31 - 1 - int (total n u)) (sy_pool (cy_sys u))"
      by (auto simp: nearer_def)
    ultimately obtain evs t where "\<forall>ev \<in> set evs. progressing ev" "calls_run S evs u = Some t"
      "\<forall>c \<in> set (cy_calls t). \<exists>out. ca_stage c = Returned out" "\<forall>c \<in> set (sy_gos (cy_sys t)). \<exists>res. c = Ended res"
      using 1(1)[of u] by blast
    then show ?thesis using ev by (intro exI[of _ "ev # evs"] exI[of _ t]) simp
  qed
qed

lemma progressing_calls:
  assumes "calls_run S evs s = Some t" "\<forall>ev \<in> set evs. progressing ev"
  shows "length (cy_calls t) = length (cy_calls s)"
  using assms
proof (induction evs arbitrary: s)
  case (Cons ev evs)
  then obtain u where u: "calls_exec S ev s = Some u" "calls_run S evs u = Some t" by (auto simp: bind_eq_Some_conv)
  from u(1) have "length (cy_calls u) = length (cy_calls s)"
  proof (cases rule: call_cases)
    case (attempted j k)
    then show ?thesis by (simp add: attempted(4))
  next
    case (work j ch k l)
    then show ?thesis by (simp add: work(4))
  next
    case (others e)
    then show ?thesis by (simp add: others(3))
  qed (use Cons.prems(2) in \<open>simp_all add: set_call_def\<close>)
  then show ?case using Cons.IH[OF u(2)] Cons.prems(2) by simp
qed simp

section \<open>What the retry library may do\<close>

text \<open>The results of the attempts of call \<open>i\<close>, in order, and the attempts it may still make, the one it is in included.\<close>

fun attempt_result :: "nat \<Rightarrow> call_event \<Rightarrow> calls_sys \<Rightarrow> gerr option list" where
  "attempt_result i (Settle j u) s =
     (if j \<noteq> i then [] else
      case ca_stage (cy_calls s ! i) of
        Trying k n \<Rightarrow> (case sy_gos (cy_sys s) ! k of Ended res \<Rightarrow> [res] | _ \<Rightarrow> [])
      | _ \<Rightarrow> [])"
| "attempt_result i ev s = []"

fun results :: "settings \<Rightarrow> nat \<Rightarrow> call_event list \<Rightarrow> calls_sys \<Rightarrow> gerr option list" where
  "results S i [] s = []"
| "results S i (ev # evs) s =
     (case calls_exec S ev s of None \<Rightarrow> [] | Some t \<Rightarrow> attempt_result i ev s @ results S i evs t)"

definition may_try :: "nat \<Rightarrow> calls_sys \<Rightarrow> nat \<Rightarrow> nat" where
  "may_try m s i = (if i < length (cy_calls s)
     then (case ca_stage (cy_calls s ! i) of Pausing k \<Rightarrow> k | Trying g k \<Rightarrow> Suc k | Returned out \<Rightarrow> 0) else m)"

definition is_back :: "calls_sys \<Rightarrow> nat \<Rightarrow> bool" where
  "is_back s i \<longleftrightarrow> i < length (cy_calls s) \<and> (\<exists>out. ca_stage (cy_calls s ! i) = Returned out)"

text \<open>The attempts with these results, as a function of the number made.\<close>

definition replay :: "gerr option list \<Rightarrow> nat \<Rightarrow> (gerr option \<times> nat) run" where
  "replay rs j = (if j < length rs then Done (rs ! j, Suc j) else Blocked)"

lemma no_result: "of_call ev \<noteq> Some i \<Longrightarrow> attempt_result i ev s = []"
  by (cases ev) auto

lemma is_back_step:
  assumes "calls_exec S ev s = Some t" "calls_ok S s" "is_back s i"
  shows "is_back t i \<and> cy_calls t ! i = cy_calls s ! i \<and> attempt_result i ev s = []"
  using assms(1,2)
  by (cases rule: call_view[where i = i]) (use assms(3) no_result in \<open>auto simp: is_back_def\<close>)

lemma is_back_run:
  "calls_run S evs s = Some t \<Longrightarrow> calls_ok S s \<Longrightarrow> is_back s i \<Longrightarrow> cy_calls t ! i = cy_calls s ! i \<and> results S i evs s = []"
proof (induction evs arbitrary: s)
  case (Cons ev evs)
  then obtain u where u: "calls_exec S ev s = Some u" "calls_run S evs u = Some t" by (auto simp: bind_eq_Some_conv)
  show ?case using is_back_step[OF u(1) Cons.prems(2,3)] Cons.IH[OF u(2) calls_exec_ok[OF u(1) Cons.prems(2)]] u(1) by simp
qed simp

text \<open>What one event does to a call that is not back.\<close>

lemma call_progress:
  assumes "calls_exec S ev s = Some t" "calls_ok S s" "\<not> is_back s i" "m = unat (rc_MaxAttempts (st_retry S))"
  obtains (same) "\<not> is_back t i" "may_try m t i = may_try m s i" "attempt_result i ev s = []"
  | (context_end) e n where "may_try m s i = Suc n" "is_back t i" "ca_stage (cy_calls t ! i) = Returned (call_result (Some e) (cy_calls t ! i))"
      "attempt_result i ev s = []"
  | (success) n where "may_try m s i = Suc n" "is_back t i" "ca_stage (cy_calls t ! i) = Returned (call_result None (cy_calls t ! i))"
      "attempt_result i ev s = [None]"
  | (gave_up) n e e' where "may_try m s i = Suc n" "\<not> retry_if e \<or> n = 0" "e' \<in> {e, unpack e}" "is_back t i"
      "ca_stage (cy_calls t ! i) = Returned (call_result (Some e') (cy_calls t ! i))" "attempt_result i ev s = [Some e]"
  | (again) n e where "may_try m s i = Suc n" "retry_if e" "\<not> is_back t i" "may_try m t i = n" "attempt_result i ev s = [Some e]"
proof -
  from assms(1,2) show thesis
  proof (cases rule: call_view[where i = i])
    case (cancelled e n)
    then show thesis using context_end[of n e] by (simp add: may_try_def is_back_def)
  next
    case (over u k n res)
    consider "res = None" | e where "res = Some e" "\<not> retry_if e \<or> n = 0" | e where "res = Some e" "retry_if e" "n \<noteq> 0"
      by (cases res) auto
    then show thesis
    proof cases
      case 1
      then show thesis using over success[of n] by (simp add: may_try_def is_back_def)
    next
      case (2 e)
      then show thesis using over gave_up[of n e "if u then unpack e else e"] by (simp add: may_try_def is_back_def)
    next
      case (3 e)
      then show thesis using over again[of n e] by (simp add: may_try_def is_back_def)
    qed
  qed (use same no_result assms(3,4) in \<open>auto simp: may_try_def is_back_def new_call_def\<close>)
qed

lemma results_allowed:
  assumes "calls_run S evs s = Some t" "calls_ok S s" "\<not> is_back s i" "m = unat (rc_MaxAttempts (st_retry S))"
    and "i < length (cy_calls t)" "ca_stage (cy_calls t ! i) = Returned out" "rs = before @ results S i evs s"
  shows "\<exists>r. retry_allowed retry_if (replay rs) (may_try m s i) (length before) (Done (r, length rs)) \<and> out = call_result r (cy_calls t ! i)"
  using assms(1,2,3,7)
proof (induction evs arbitrary: s before)
  case Nil
  then show ?case using assms(5,6) by (simp add: is_back_def)
next
  case (Cons ev evs)
  obtain u where u: "calls_exec S ev s = Some u" "calls_run S evs u = Some t" using Cons.prems(1) by (auto simp: bind_eq_Some_conv)
  have rs: "results S i (ev # evs) s = attempt_result i ev s @ results S i evs u" using u(1) by simp
  have ok: "calls_ok S u" by (rule calls_exec_ok[OF u(1) Cons.prems(2)])
  have ret: "cy_calls u ! i = cy_calls t ! i" "results S i evs u = []" if "is_back u i" using is_back_run[OF u(2) ok that] by simp_all
  show ?case
  proof (cases rule: call_progress[OF u(1) Cons.prems(2,3) assms(4)])
    case 1
    then show ?thesis using Cons.IH[OF u(2) ok 1(1)] Cons.prems(4)[unfolded rs] by simp
  next
    case (2 e n)
    then show ?thesis using ret Cons.prems(4)[unfolded rs] assms(6) by (auto intro!: exI[of _ "Some e"] retry_allowed.ctx_done)
  next
    case (3 n)
    have f: "replay rs (length before) = Done (None, length rs)"
      using 3(4) ret(2)[OF 3(2)] Cons.prems(4)[unfolded rs] by (simp add: replay_def)
    show ?thesis
      by (rule exI[of _ None]) (use 3(1,3) ret(1)[OF 3(2)] assms(6) retry_allowed.success[where f = "replay rs", OF f] in simp)
  next
    case (4 n e e')
    have f: "replay rs (length before) = Done (Some e, length rs)"
      using 4(6) ret(2)[OF 4(4)] Cons.prems(4)[unfolded rs] by (simp add: replay_def)
    show ?thesis
      by (rule exI[of _ "Some e'"]) (use 4(1,5) ret(1)[OF 4(4)] assms(6) retry_allowed.give_up[where f = "replay rs" and retry_if = retry_if and n = n, OF f 4(2,3)] in simp)
  next
    case (5 n e)
    have f: "replay rs (length before) = Done (Some e, Suc (length before))"
      using 5(5) Cons.prems(4)[unfolded rs] by (simp add: replay_def)
    obtain r where "retry_allowed retry_if (replay rs) n (Suc (length before)) (Done (r, length rs))" "out = call_result r (cy_calls t ! i)"
      using Cons.IH[OF u(2) ok 5(3), of "before @ [Some e]"] 5(4,5) Cons.prems(4)[unfolded rs] by auto
    then show ?thesis using retry_allowed.again[where f = "replay rs" and retry_if = retry_if, OF f 5(2)] 5(1) by auto
  qed
qed

section \<open>Properties\<close>


text \<open>C6. A response is genuine in every interleaving: what a request returns as its response is the answer
  one of the sessions gave the request's own attempt; without an error beside it the session reported
  none and the detector does not take the response for a block; and it never returns neither.\<close>

theorem call_response_is_genuine:
  assumes "calls_run S evs (calls_start now p) = Some t" and "i < length (cy_calls t)"
    and "ca_stage (cy_calls t ! i) = Returned (resp, err)"
  shows "case resp of
      None \<Rightarrow> err \<noteq> None
    | Some r \<Rightarrow> \<exists>evs1 evs2 u e x err'. evs = evs1 @ Work i (Answer (Some r, err')) # evs2 \<and>
        calls_run S evs1 (calls_start now p) = Some u \<and> awaits u i e x \<and>
        (err = None \<longrightarrow> err' = None \<and> \<not> IsBlocked (st_rx S) (st_uni S) (Some (st_detector S)) (Some r))"
proof -
  let ?c = "cy_calls t ! i"
  have "call_ok S (sy_gos (cy_sys t)) ?c" using calls_run_ok[OF assms(1) calls_start_ok] assms(2) by (simp add: calls_ok_def)
  then have ok: "resp \<noteq> None \<or> err \<noteq> None" "resp \<noteq> None \<longrightarrow> resp = ca_lastResp ?c" "err = None \<longrightarrow> genuine S ?c"
    using assms(3) by (simp_all add: call_ok_def)
  have last: "last_heard t i = (ca_lastResp ?c, ca_lastErr ?c)" "last_heard (calls_start now p) i = (None, None)"
    using assms(2) by (simp_all add: last_heard_def calls_start_def)
  show ?thesis
  proof (cases resp)
    case (Some r)
    then have r: "ca_lastResp ?c = Some r" using ok(2) by simp
    then have "\<exists>evs1 evs2 u e x. evs = evs1 @ Work i (Answer (Some r, ca_lastErr ?c)) # evs2 \<and>
        calls_run S evs1 (calls_start now p) = Some u \<and> awaits u i e x"
      using run_heard[OF assms(1) calls_start_ok, of i] last by auto
    moreover have "err = None \<longrightarrow> ca_lastErr ?c = None \<and> \<not> IsBlocked (st_rx S) (st_uni S) (Some (st_detector S)) (Some r)"
      using ok(3) r by (simp add: genuine_def)
    ultimately show ?thesis unfolding Some option.case by blast
  qed (use ok(1) in simp)
qed


text \<open>C5. Every request returns and nothing leaks: whatever requests, pings, probes, administration and closing
  have been interleaved, from there all the requests can return, with all their attempts and no
  context ending, if the escalations leave room for the cooldowns of the steps that are left; then
  every session is in a channel or closed, and an endpoint that is open has all its sessions back.\<close>

theorem every_call_returns:
  assumes "newPoolWithFactory q parse cfg (st_retry S) factory k = (Inr p, dropped, k')" and "rc_MaxAttempts (st_retry S) \<noteq> 0"
    and "calls_run S evs0 (calls_start now p) = Some s"
    and "tiers_below (2 ^ 31 - 1 - int (total (length (pool_endpoints p)) s)) (sy_pool (cy_sys s))"
  shows "\<exists>evs t. (\<forall>ev \<in> set evs. progressing ev) \<and> calls_run S evs s = Some t \<and>
    length (cy_calls t) = length (cy_calls s) \<and> (\<forall>c \<in> set (cy_calls t). \<exists>out. ca_stage c = Returned out) \<and>
    mset (concat (map ep_sessions (pool_endpoints (sy_pool (cy_sys t)))) @ concat (map ep_closedSessions (pool_endpoints (sy_pool (cy_sys t))))) =
      mset (pool_created factory (pc_Endpoints cfg) (nat (sint (sessionPoolSize cfg))) k k') \<and>
    (\<forall>e \<in> set (pool_endpoints (sy_pool (cy_sys t))). \<not> ep_closed e \<longrightarrow> int (length (ep_sessions e)) = sint (ep_poolSize e))"
proof -
  have reach: "sys_reach S (sys_start now p) (cy_sys s)" using calls_reach_pool[OF assms(3)] by (simp add: calls_start_def)
  obtain evs t where t: "\<forall>ev \<in> set evs. progressing ev" "calls_run S evs s = Some t"
    "\<forall>c \<in> set (cy_calls t). \<exists>out. ca_stage c = Returned out" "\<forall>c \<in> set (sy_gos (cy_sys t)). \<exists>res. c = Ended res"
    using calls_finish[OF assms(1) refl assms(2) reach calls_run_ok[OF assms(3) calls_start_ok] assms(4)] by blast
  have "sys_reach S (sys_start now p) (cy_sys t)" using sys_reach_trans[OF calls_reach_pool[OF t(2)] reach] .
  from ended_sessions[OF assms(1) this t(4)] show ?thesis
    by (intro exI[of _ evs] exI[of _ t] conjI t(1-3) progressing_calls[OF t(2,1)])
qed

section \<open>Samples\<close>

text \<open>Two requests on a pool of one endpoint with two sessions; the first is answered and returns.\<close>

definition served :: "call_event list" where
  "served = [NewCall [], NewCall [], Attempt 0, Attempt 1, Work 0 Plain, Work 0 Plain, Work 1 Plain, Work 0 (Ready CaseSession), Work 0 Plain,
     Work 0 (Answer (Some ok_response, None)), Work 0 (Elapsed [] 0), Work 0 Plain, Work 0 Plain, Work 0 Plain, Work 0 Plain, Settle 0 True]"

lemma run_served:
  "\<exists>t. calls_run demo served (calls_start 0 solo) = Some t \<and> length (cy_calls t) = 2 \<and>
     ca_stage (cy_calls t ! 0) = Returned (Some ok_response, None)"
  by (simp add: served_def calls_start_def demo_simps new_call_def solo_attempts numeral_3_eq_3 set_call_def judged_def ok_not_blocked leave_def
      counter_ops call_result_def releaseSession_def del: update_ep_fields)


theorem call_response_is_genuine_witness:
  "\<exists>evs1 evs2 u e x. served = evs1 @ Work 0 (Answer (Some ok_response, None)) # evs2 \<and>
     calls_run demo evs1 (calls_start 0 solo) = Some u \<and> awaits u 0 e x \<and> \<not> IsBlocked no_rx id (Some (default_detector id)) (Some ok_response)"
proof -
  obtain t where t: "calls_run demo served (calls_start 0 solo) = Some t" "length (cy_calls t) = 2"
    "ca_stage (cy_calls t ! 0) = Returned (Some ok_response, None)" using run_served by blast
  from call_response_is_genuine[OF t(1) _ t(3)] t(2) show ?thesis by auto
qed


theorem every_call_returns_witness:
  "\<exists>evs t. calls_run demo evs ((calls_start 0 solo)\<lparr>cy_calls := [new_call demo [], new_call demo []]\<rparr>) = Some t \<and> length (cy_calls t) = 2 \<and>
     (\<forall>c \<in> set (cy_calls t). \<exists>out. ca_stage c = Returned out) \<and>
     mset (concat (map ep_sessions (pool_endpoints (sy_pool (cy_sys t)))) @ concat (map ep_closedSessions (pool_endpoints (sy_pool (cy_sys t))))) = {#0, 1#}"
proof -
  let ?s = "(calls_start 0 solo)\<lparr>cy_calls := [new_call demo [], new_call demo []]\<rparr>"
  have run: "calls_run demo [NewCall [], NewCall []] (calls_start 0 solo) = Some ?s" by (simp add: calls_start_def)
  have tiers: "tiers_below (2 ^ 31 - 1 - int (total (length (pool_endpoints solo)) ?s)) (sy_pool (cy_sys ?s))"
    by (simp add: total_def Progress.work_def calls_start_def sys_start_def waiting_def new_call_def solo_attempts tiers_below_def solo_fields demo_endpoint)
  have "rc_MaxAttempts (st_retry demo) \<noteq> 0" by (simp add: DefaultRetryConfig_def)
  from every_call_returns[OF demo_pool this run tiers] obtain evs t where "calls_run demo evs ?s = Some t" "length (cy_calls t) = length (cy_calls ?s)"
    "\<forall>c \<in> set (cy_calls t). \<exists>out. ca_stage c = Returned out"
    "mset (concat (map ep_sessions (pool_endpoints (sy_pool (cy_sys t)))) @ concat (map ep_closedSessions (pool_endpoints (sy_pool (cy_sys t))))) = mset [0, 1]"
    unfolding created_one by blast
  then show ?thesis by (intro exI[of _ evs] exI[of _ t]) simp
qed

end
