(* ===== verification/Sessions.thy ===== *)
theory Sessions
  imports Interleaving
begin

text \<open>
  The life of one session of a pool in any interleaving: requests on it, and its \<open>Close\<close>, in the order
  in which the pool issues them.
\<close>

section \<open>What has been closed stays closed\<close>

definition closed_in :: "sys \<Rightarrow> session list" where
  "closed_in s = concat (map ep_closedSessions (pool_endpoints (sy_pool s)))"

lemma markFailed_closed: "markFailed now b m e = Done e' \<Longrightarrow> ep_closedSessions e' = ep_closedSessions e"
  by (auto simp: markFailed_Done cooled_def)

lemma ep_step_closed:
  "ep_step base maxc s t \<Longrightarrow> mset (ep_closedSessions (es_ep s)) \<subseteq># mset (ep_closedSessions (es_ep t))"
proof (induction rule: ep_step.induct)
  case (receive s x e')
  then show ?case by (auto simp: acq_select.simps split: if_splits list.splits)
next
  case (recheck x s r e')
  then show ?case by (auto simp: acq_recheck_cases close_session_def split: if_splits)
next
  case (release x s)
  then show ?case by (auto simp: releaseSession_def close_session_def)
next
  case (mark_failed s e')
  then show ?case by (simp add: markFailed_closed)
qed (auto simp: counter_ops close_cancel_def close_drain_def cancel_timer_def set_phase_def drop_timer_def timer_check_def
      timer_finish_def split: option.split)

lemma ep_steps_closed:
  "ep_steps base maxc s t \<Longrightarrow> mset (ep_closedSessions (es_ep s)) \<subseteq># mset (ep_closedSessions (es_ep t))"
  by (induction rule: rtranclp_induct) (auto dest: ep_step_closed intro: subset_mset.order_trans)


definition times_closed :: "session \<Rightarrow> sys \<Rightarrow> nat" where
  "times_closed x s = count (mset (closed_in s)) x"

lemma times_closed_sum:
  "times_closed x s = (\<Sum>i < length (pool_endpoints (sy_pool s)). count (mset (ep_closedSessions (pool_endpoints (sy_pool s) ! i))) x)"
proof -
  have "count (mset (concat (map f es))) x = sum_list (map (\<lambda>e. count (mset (f e)) x) es)" for f and es :: "endpoint list"
    by (induction es) simp_all
  then show ?thesis by (simp add: times_closed_def closed_in_def sum_list_sum_nth atLeast0LessThan)
qed

lemma exec_times_closed:
  assumes "sys_exec S ev s = Some s'" "sys_reach S (sys_start now p) s" "pool_retryConfig p = st_retry S"
  shows "times_closed x s \<le> times_closed x s'"
proof -
  note ok = reach_ok[OF assms(2,3)]
  have "length (pool_endpoints (sy_pool s')) = length (pool_endpoints (sy_pool s))" using sys_exec_ok[OF assms(1) ok(1)] by blast
  moreover have "count (mset (ep_closedSessions (pool_endpoints (sy_pool s) ! i))) x \<le> count (mset (ep_closedSessions (pool_endpoints (sy_pool s') ! i))) x"
    if i: "i < length (pool_endpoints (sy_pool s))" for i
  proof -
    have "i < length (pool_endpoints p)" using i ok(2) by simp
    then obtain t where t: "simulates s i t" using reach_simulated[OF assms(2,3)] by blast
    obtain t' where "ep_steps (rc_CooldownPeriod (st_retry S)) (rc_MaxCooldown (st_retry S)) t t'" "simulates s' i t'"
      using exec_simulated[OF assms(1) ok(1) i t] by blast
    then show ?thesis using ep_steps_closed t by (fastforce simp: simulates_def intro: mset_subset_eq_count)
  qed
  ultimately show ?thesis unfolding times_closed_sum by (auto intro: sum_mono)
qed

section \<open>The history of a session\<close>

datatype use = Used | Closed

text \<open>The session a step uses: the request function, a ping or a probe on it has returned.\<close>

fun used_by :: "event \<Rightarrow> sys \<Rightarrow> session list" where
  "used_by (Go k (Answer out)) s =
     (if k < length (sy_gos s) then (case sy_gos s ! k of Using job i x \<Rightarrow> [x] | _ \<Rightarrow> []) else [])"
| "used_by _ s = []"

fun history :: "settings \<Rightarrow> session \<Rightarrow> event list \<Rightarrow> sys \<Rightarrow> use list" where
  "history S x [] s = []"
| "history S x (ev # evs) s =
     (case sys_exec S ev s of
        None \<Rightarrow> []
      | Some s' \<Rightarrow> replicate (count_list (used_by ev s) x) Used @ replicate (times_closed x s' - times_closed x s) Closed @
          history S x evs s')"

text \<open>A session is closed at most once, and not while it is used.\<close>

lemma reach_once:
  assumes "newPoolWithFactory q parse cfg (st_retry S) factory k = (Inr p, dropped, k')"
    and "distinct (pool_created factory (pc_Endpoints cfg) (nat (sint (sessionPoolSize cfg))) k k')"
    and "sys_reach S (sys_start now p) s"
  shows "times_closed x s + count (mset (concat (map session_of (sy_gos s)))) x \<le> 1"
proof -
  have "mset (whereabouts s) = mset (pool_created factory (pc_Endpoints cfg) (nat (sint (sessionPoolSize cfg))) k k')"
    using reach_whereabouts[OF assms(3) built_pool(1)[OF assms(1)]] built_pool(3)[OF assms(1)] by simp
  then have "distinct (whereabouts s)" using assms(2) by (metis mset_eq_imp_distinct_iff)
  then have "count (mset (whereabouts s)) x \<le> 1" by (simp add: distinct_count_atmost_1)
  then show ?thesis by (simp add: whereabouts_def times_closed_def closed_in_def)
qed

lemma used_inv:
  assumes "x \<in> set (used_by ev s)"
  shows "\<exists>k out. ev = Go k (Answer out) \<and> k < length (sy_gos s)"
proof (cases ev)
  case (Go k ch)
  show ?thesis
  proof (cases "k < length (sy_gos s)")
    case True
    then show ?thesis using assms unfolding Go by (cases ch) simp_all
  next
    case False
    then show ?thesis using assms unfolding Go by (cases ch) simp_all
  qed
qed (insert assms, simp_all)

lemma used_free:
  assumes "sys_exec S ev s = Some s'" "x \<in> set (used_by ev s)"
  shows "x \<in> set (concat (map session_of (sy_gos s)))" "sy_pool s' = sy_pool s" "used_by ev s = [x]"
proof -
  obtain k out where ev: "ev = Go k (Answer out)" "k < length (sy_gos s)" using used_inv[OF assms(2)] by blast
  then obtain job i where g: "sy_gos s ! k = Using job i x" using assms(2) by (cases "sy_gos s ! k") auto
  have "session_of (sy_gos s ! k) = [x]" by (simp add: g session_of_def)
  then show "x \<in> set (concat (map session_of (sy_gos s)))" using ev(2) by (auto intro!: bexI[of _ "sy_gos s ! k"])
  show "sy_pool s' = sy_pool s" using assms(1) by (cases "answered job i x out") (auto simp: ev g)
  show "used_by ev s = [x]" using ev by (simp add: g)
qed

lemma history_form:
  assumes built: "newPoolWithFactory q parse cfg (st_retry S) factory k = (Inr p, dropped, k')"
    and dist: "distinct (pool_created factory (pc_Endpoints cfg) (nat (sint (sessionPoolSize cfg))) k k')"
    and "sys_reach S (sys_start now p) s" "sys_run S evs s = Some t"
  shows "\<exists>n. history S x evs s = replicate n Used @ replicate (times_closed x t - times_closed x s) Closed \<and>
    (0 < times_closed x s \<longrightarrow> n = 0) \<and> times_closed x s \<le> times_closed x t"
  using assms(3,4)
proof (induction evs arbitrary: s)
  case (Cons ev evs)
  then obtain s' where s': "sys_exec S ev s = Some s'" "sys_run S evs s' = Some t" by (auto simp: bind_eq_Some_conv)
  have reach: "sys_reach S (sys_start now p) s'" by (rule next_event[OF Cons.prems(1) s'(1)])
  obtain n where n: "history S x evs s' = replicate n Used @ replicate (times_closed x t - times_closed x s') Closed"
    "0 < times_closed x s' \<longrightarrow> n = 0" "times_closed x s' \<le> times_closed x t" using Cons.IH[OF reach s'(2)] by (elim exE conjE)
  note mono = exec_times_closed[OF s'(1) Cons.prems(1) built_pool(1)[OF built], of x]
  note once = reach_once[OF built dist Cons.prems(1), of x] reach_once[OF built dist reach, of x]
    reach_once[OF built dist sys_reach_trans[OF sys_run_reach[OF s'(2)] reach], of x]
  show ?case
  proof (cases "x \<in> set (used_by ev s)")
    case True
    note used = used_free[OF s'(1) True]
    have "0 < count (mset (concat (map session_of (sy_gos s)))) x" using used(1) by (metis count_greater_zero_iff set_mset_mset)
    then have "times_closed x s = 0" using once(1) by linarith
    moreover have "times_closed x s' = times_closed x s" by (simp add: times_closed_def closed_in_def used(2))
    ultimately show ?thesis using n by (intro exI[of _ "Suc n"]) (simp add: s'(1) used(3))
  next
    case False
    then have "count_list (used_by ev s) x = 0" by simp
    then show ?thesis using n mono once by (intro exI[of _ n]) (cases "times_closed x s'"; simp add: s'(1))
  qed
qed simp


lemma fresh_unclosed: "fresh e \<Longrightarrow> ep_closedSessions e = []"
  by (auto simp: fresh_def blank_endpoint_def Let_def)

lemma history_life:
  assumes "newPoolWithFactory q parse cfg (st_retry S) factory k = (Inr p, dropped, k')"
    and "distinct (pool_created factory (pc_Endpoints cfg) (nat (sint (sessionPoolSize cfg))) k k')"
    and "sys_run S evs (sys_start now p) = Some t"
  shows "\<exists>n. history S x evs (sys_start now p) = replicate n Used @ (if x \<in> set (closed_in t) then [Closed] else [])"
proof -
  have "fresh e" if "e \<in> set (pool_endpoints p)" for e using that built_pool(2)[OF assms(1)] by blast
  then have "ep_closedSessions e = []" if "e \<in> set (pool_endpoints p)" for e using that fresh_unclosed by blast
  then have zero: "times_closed x (sys_start now p) = 0" by (auto simp: times_closed_def closed_in_def sys_start_def count_eq_zero_iff)
  have "times_closed x t \<le> 1" using reach_once[OF assms(1,2) sys_run_reach[OF assms(3)], of x] by linarith
  moreover have "0 < times_closed x t \<longleftrightarrow> x \<in> set (closed_in t)"
    by (metis times_closed_def count_greater_zero_iff set_mset_mset)
  ultimately have "replicate (times_closed x t - times_closed x (sys_start now p)) Closed = (if x \<in> set (closed_in t) then [Closed] else [])"
    using zero by (cases "times_closed x t") auto
  with history_form[OF assms(1,2) here assms(3), of x] show ?thesis by auto
qed

text \<open>C21. The life of a session: in every interleaving it serves requests, pings and probes, and when it has
  been closed it is closed once and never used again.\<close>

theorem session_life:
  assumes "newPoolWithFactory q parse cfg (st_retry S) factory k = (Inr p, dropped, k')"
    and "distinct (pool_created factory (pc_Endpoints cfg) (nat (sint (sessionPoolSize cfg))) k k')"
    and "sys_run S evs (sys_start now p) = Some t"
  shows "\<exists>n. history S x evs (sys_start now p) = replicate n Used @
    (if x \<in> set (concat (map ep_closedSessions (pool_endpoints (sy_pool t)))) then [Closed] else [])"
  using history_life[OF assms, of x] by (simp only: closed_in_def)

section \<open>What the library sees\<close>

text \<open>
  A session of the default transport: the calls its library object gets when the uses in its history
  are the requests \<open>rs\<close>, each under the context of its caller.
\<close>

fun play ::
  "(string \<Rightarrow> string \<Rightarrow> 'v body \<Rightarrow> OrderedHeaders \<Rightarrow> outcome) \<Rightarrow> use list \<Rightarrow> ('c \<times> 'v Request) list \<Rightarrow>
   ('c, 'v) azure_call list \<Rightarrow> ('c, 'v) azure_call list" where
  "play azure_do (Used # h) ((ctx, req) # rs) calls = play azure_do h rs (snd (azure_session_Do azure_do ctx req calls))"
| "play azure_do (Closed # h) rs calls = play azure_do h rs (azure_session_Close calls)"
| "play azure_do _ _ calls = calls"

definition requests :: "('c \<times> 'v Request) list \<Rightarrow> ('c, 'v) azure_call list" where
  "requests rs = concat (map (\<lambda>(ctx, req). [SetContext ctx, SendRequest (rq_Method req) (rq_URL req) (rq_Body req) (rq_Headers req)]) rs)"

lemma play_life:
  "length rs = n \<Longrightarrow> play azure_do (replicate n Used @ (if c then [Closed] else [])) rs calls =
     calls @ requests rs @ (if c then [CloseSession] else [])"
proof (induction n arbitrary: rs calls)
  case (Suc n)
  then obtain ctx req rs' where "rs = (ctx, req) # rs'" by (cases rs) auto
  then show ?case using Suc by (simp add: azure_session_Do_def requests_def)
qed (simp add: azure_session_Close_def requests_def)

text \<open>No request is sent after the object was closed, it is closed at most once, and every request is sent
  under the context that its own caller has just set.\<close>

lemma azure_session_life:
  assumes "newPoolWithFactory q parse cfg (st_retry S) factory k = (Inr p, dropped, k')"
    and "distinct (pool_created factory (pc_Endpoints cfg) (nat (sint (sessionPoolSize cfg))) k k')"
    and "sys_run S evs (sys_start now p) = Some t"
  obtains n where "\<And>azure_do url rs. length rs = n \<Longrightarrow>
    play azure_do (history S x evs (sys_start now p)) rs (snd (azure_session_New (\<lambda>_. None) url)) =
      [SetBrowserChrome, SetProxy url] @ requests rs @ (if x \<in> set (closed_in t) then [CloseSession] else [])"
proof -
  obtain n where h: "history S x evs (sys_start now p) = replicate n Used @ (if x \<in> set (closed_in t) then [Closed] else [])"
    using history_life[OF assms] by blast
  show ?thesis by (rule that[of n]) (simp add: h play_life azure_session_New_def)
qed

section \<open>Samples\<close>

text \<open>A request borrows a session, the pool is closed, the request ends.\<close>

definition one_life :: "event list" where
  "one_life = [Spawn (ServeRequest []), Go 0 Plain, Go 0 Plain, Go 0 (Ready CaseSession), Go 0 Plain,
     Go 0 (Answer (Some ok_response, None)), Outside 0 LCloseFirst, Outside 0 LCloseSecond, Go 0 (Elapsed [] 0),
     Go 0 Plain, Go 0 Plain, Go 0 Plain, Go 0 Plain]"

lemma use_then_close:
  "\<exists>t. sys_run demo one_life (sys_start 0 solo) = Some t \<and> history demo 0 one_life (sys_start 0 solo) = [Used, Closed]"
  by (simp add: one_life_def demo_simps judged_def ok_not_blocked leave_def counter_ops view_def put_view_def mu_held_def
      close_cancel_def close_drain_def releaseSession_def close_session_def times_closed_def closed_in_def)

theorem session_life_witness:
  "\<exists>t. sys_run demo one_life (sys_start 0 solo) = Some t \<and> 0 \<in> set (concat (map ep_closedSessions (pool_endpoints (sy_pool t))))"
proof -
  obtain t where t: "sys_run demo one_life (sys_start 0 solo) = Some t" "history demo 0 one_life (sys_start 0 solo) = [Used, Closed]"
    using use_then_close by blast
  have "distinct (pool_created sample_factory (pc_Endpoints one_config) (nat (sint (sessionPoolSize one_config))) 0 2)"
    by (simp add: created_one)
  from session_life[OF demo_pool this t(1), of 0] obtain n where "[Used, Closed] = replicate n Used @
      (if 0 \<in> set (concat (map ep_closedSessions (pool_endpoints (sy_pool t)))) then [Closed] else [])" unfolding t(2) by blast
  then have "Closed \<in> set (replicate n Used @
      (if 0 \<in> set (concat (map ep_closedSessions (pool_endpoints (sy_pool t)))) then [Closed] else []))"
    by (metis list.set_intros)
  then show ?thesis using t(1) by (auto split: if_splits)
qed

end
