(* ===== verification/Statistics.thy ===== *)
theory Statistics
  imports Progress
begin

text \<open>
  The statistics of the endpoints and the weighted draw under concurrency: in every interleaving
  the counters count each judged answer and each success once, so that the weights the scans
  of the goroutines add up are sane, and what is proved of one undisturbed scan and draw holds of the
  scans of goroutines that others interrupt.
\<close>

section \<open>The moving average stays in range\<close>

definition span_ok :: "int64 \<Rightarrow> bool" where
  "span_ok d \<longleftrightarrow> 0 \<le> sint d \<and> sint d \<le> 2 ^ 51"

lemma ema_span: "span_ok old \<Longrightarrow> span_ok ns \<Longrightarrow> span_ok (ema old ns)"
proof (cases "old = 0")
  case False
  assume s: "span_ok old" "span_ok ns"
  have "sint old \<noteq> 0" using False by (rule sint_nz)
  then have "1 \<le> sint old" using s(1) by (simp add: span_ok_def)
  with s ema_between[of old ns] show ?thesis by (auto simp: span_ok_def)
qed (simp add: ema_def)

lemma latency_loop_span: "span_ok ns \<Longrightarrow> span_ok v \<Longrightarrow> \<forall>w \<in> set ws. span_ok w \<Longrightarrow> span_ok (latency_loop ns v ws)"
  by (induction ns v ws rule: latency_loop.induct) (simp_all add: ema_span)

section \<open>What a step does to the statistics\<close>

definition same_stats :: "endpoint \<Rightarrow> endpoint \<Rightarrow> bool" where
  "same_stats e e' \<longleftrightarrow> ep_totalReqs e' = ep_totalReqs e \<and> ep_successReqs e' = ep_successReqs e \<and> ep_avgLatency e' = ep_avgLatency e"

named_theorems stats \<open>operations that leave the statistics alone\<close>

lemma same_stats_refl [stats]: "same_stats e e"
  by (simp add: same_stats_def)

lemma same_stats_counters [stats]:
  "same_stats e (incrementFailCount e)" "same_stats e (resetFailCount e)" "same_stats e (resetTier e)" "same_stats e (setState st e)"
  "same_stats e (markDead e)" "same_stats e (releaseSession so e)" "same_stats e (e\<lparr>ep_closeOnce := b\<rparr>)"
  by (simp_all add: same_stats_def counter_ops releaseSession_def close_session_def split: option.split)

lemma same_stats_acquire [stats]:
  "acq_select c e = Done (r, e') \<Longrightarrow> same_stats e e'" "acq_recheck s e = (r, e') \<Longrightarrow> same_stats e e'"
  by (cases c; auto simp: acq_select.simps same_stats_def split: if_splits list.splits)
     (auto simp: acq_recheck_def close_session_def same_stats_def split: if_splits)

lemma same_stats_markFailed [stats]: "markFailed now b m e = Done e' \<Longrightarrow> same_stats e e'"
  by (auto simp: markFailed_def Let_def cancel_timer_def modify_timer_def same_stats_def split: option.splits run.splits)

lemma same_stats_timers [stats]:
  "same_stats e (set_phase i ph e)" "same_stats e (drop_timer i e)" "same_stats e (timer_check i e)" "same_stats e (timer_finish i e)"
  "same_stats e (close_drain e)" "same_stats e (close_cancel (e\<lparr>ep_closeOnce := b\<rparr>))"
  by (simp_all add: same_stats_def set_phase_def modify_timer_def drop_timer_def timer_check_def timer_finish_def counter_ops close_drain_def
      close_cancel_def cancel_timer_def split: option.split)

text \<open>A goroutine that has an answer of endpoint \<open>i\<close> to judge, and one that has a success of it to count.\<close>

fun judging_at :: "nat \<Rightarrow> pc \<Rightarrow> bool" where
  "judging_at i (Timing d j s out) = (j = i)" | "judging_at i pc = False"

fun succeeding_at :: "nat \<Rightarrow> pc \<Rightarrow> bool" where
  "succeeding_at i (Succeeding job j s) = (j = i)" | "succeeding_at i pc = False"

definition stats_step :: "nat \<Rightarrow> decision \<Rightarrow> pc \<Rightarrow> endpoint \<Rightarrow> endpoint \<Rightarrow> bool" where
  "stats_step i ch c e e' \<longleftrightarrow>
     (if judging_at i c then (\<exists>ws d. ch = Elapsed ws d \<and> e' = recordLatency_among ws d e)
      else if succeeding_at i c then e' = countSuccess e else same_stats e e')"

lemma stats_step_update:
  assumes "i < length (pool_endpoints p)" "\<not> judging_at i c" "\<not> succeeding_at i c" "same_stats (pool_endpoints p ! j) (f (pool_endpoints p ! j))"
  shows "stats_step i ch c (pool_endpoints p ! i) (pool_endpoints (update_ep j f p) ! i)"
  using assms by (cases "j = i") (simp_all add: stats_step_def same_stats_refl)

lemma stats_step_same:
  "\<not> judging_at i c \<Longrightarrow> \<not> succeeding_at i c \<Longrightarrow> pool_endpoints p' = pool_endpoints p \<Longrightarrow>
   stats_step i ch c (pool_endpoints p ! i) (pool_endpoints p' ! i)"
  by (simp add: stats_step_def same_stats_refl)

lemma advance_stats:
  assumes "advance S ch now c p = Done (c', p')" "i < length (pool_endpoints p)"
  shows "stats_step i ch c (pool_endpoints p ! i) (pool_endpoints p' ! i)"
  using assms(1)
proof (cases "(S, ch, now, c, p)" rule: advance.cases)
  case (1 S' ch now job q)
  with assms begin_job_holds(3)[of job p c' p'] show ?thesis by (auto intro: stats_step_same)
next
  case (2 S' ch' now' job j "is" cs tot q)
  then show ?thesis using assms(1) by (auto intro!: stats_step_same split: prod.splits simp del: scan.simps)
next
  case (6 S' ch' now' job j q)
  then obtain c r e where e: "acq_select c (pool_endpoints p ! j) = Done (r, e)" "p' = update_ep j (\<lambda>_. e) p"
    using assms(1) by (auto split: decision.splits)
  show ?thesis unfolding e(2) by (rule stats_step_update[OF assms(2)]) (use 6 same_stats_acquire(1)[OF e(1)] in simp_all)
next
  case (7 S' ch' now' job j x q)
  then obtain r e where e: "acq_recheck x (pool_endpoints p ! j) = (r, e)" "p' = update_ep j (\<lambda>_. e) p"
    using assms(1) by (auto split: prod.splits)
  show ?thesis unfolding e(2) by (rule stats_step_update[OF assms(2)]) (use 7 same_stats_acquire(2)[OF e(1)] in simp_all)
next
  case (9 S' ch' now' d j x out q)
  then obtain ws t where "ch = Elapsed ws t" "p' = update_ep j (recordLatency_among ws t) p"
    using assms(1) by (auto split: decision.splits)
  then show ?thesis using 9 assms(2) by (cases "j = i") (auto simp: stats_step_def same_stats_refl)
next
  case (13 S' ch' now' job j so err q)
  then obtain e where e: "markFailed now (rc_CooldownPeriod (job_retry S p job)) (rc_MaxCooldown (job_retry S p job)) (pool_endpoints p ! j) = Done e"
    "p' = update_ep j (\<lambda>_. e) p" using assms(1) by (auto simp: run_ep_def split: if_splits)
  show ?thesis unfolding e(2) by (rule stats_step_update[OF assms(2)]) (use 13 same_stats_markFailed[OF e(1)] in simp_all)
next
  case (14 S' ch' now' job j x q)
  then show ?thesis using assms by (cases "j = i") (auto simp: stats_step_def same_stats_refl)
next
  case (10 S' ch' now' job j so err q)
  then show ?thesis using assms by (auto intro!: stats_step_update stats)
next
  case (15 S' ch' now' job j x q)
  then show ?thesis using assms by (auto intro!: stats_step_update stats)
next
  case (16 S' ch' now' job j so q)
  then show ?thesis using assms by (auto intro!: stats_step_update stats)
next
  case (17 S' ch' now' job j x res q)
  then show ?thesis using assms by (auto intro!: stats_step_update stats)
qed (use assms in \<open>auto intro!: stats_step_same simp: recordDomainBlock_def
      split: option.splits decision.splits if_splits\<close>)

text \<open>Only a judgement leads to a success, and at the same endpoint.\<close>

lemma not_succeeding [simp]:
  "\<not> succeeding_at i (leave job j so res)" "\<not> succeeding_at i (refused job j err)" "\<not> succeeding_at i (counted job j so err)"
  "\<not> succeeding_at i (released job j res)" "\<not> succeeding_at i (end_scan job cs tot u)"
  "(\<And>s. \<not> succeeding_at i (next s)) \<Longrightarrow> \<not> succeeding_at i (acquired job j next r)"
  "answered job j s out = Done c \<Longrightarrow> \<not> succeeding_at i c" "begin_job job p = (c, p') \<Longrightarrow> \<not> succeeding_at i c"
  "succeeding_at i (judged S d j s idx out) \<Longrightarrow> j = i"
proof -
  have r: "\<not> succeeding_at i (refused job j err)" for err by (cases job) simp_all
  show "\<not> succeeding_at i (refused job j err)" by (rule r)
  show "(\<And>s. \<not> succeeding_at i (next s)) \<Longrightarrow> \<not> succeeding_at i (acquired job j next r)"
    by (simp add: acquired_def r split: sum.split)
  show "\<not> succeeding_at i (counted job j so err)" by (cases job) simp_all
  show "\<not> succeeding_at i (released job j res)" by (cases job; cases res) simp_all
  show "answered job j s out = Done c \<Longrightarrow> \<not> succeeding_at i c" by (cases job) auto
  show "begin_job job p = (c, p') \<Longrightarrow> \<not> succeeding_at i c" by (cases job) (auto simp: Let_def split: if_splits)
  show "succeeding_at i (judged S d j s idx out) \<Longrightarrow> j = i" by (auto simp: judged_def split: prod.splits option.splits if_splits)
qed (simp_all add: leave_def end_scan_def split: option.split list.split prod.split)

lemma success_was_judged: "advance S ch now c p = Done (c', p') \<Longrightarrow> succeeding_at i c' \<Longrightarrow> judging_at i c"
  by (cases "(S, ch, now, c, p)" rule: advance.cases)
    (auto simp del: scan.simps split: prod.splits option.splits decision.splits if_splits)

lemma exec_stats:
  assumes "sys_exec S ev s = Some s'" "i < length (pool_endpoints (sy_pool s))" "\<And>k ch. ev \<noteq> Go k ch"
  shows "same_stats (pool_endpoints (sy_pool s) ! i) (pool_endpoints (sy_pool s') ! i)"
proof (cases ev)
  case (Outside j l)
  then obtain v where v: "ep_exec (rc_CooldownPeriod (st_retry S)) (rc_MaxCooldown (st_retry S)) l (view s j) = Some v" "s' = put_view j v s" "outside l"
    using assms(1) by (auto split: if_splits option.splits)
  have "same_stats (es_ep (view s j)) (es_ep v)"
    using v(1,3) by (cases l) (auto intro: stats simp: guarded_def split: if_splits)
  then show ?thesis using assms(2) by (cases "j = i") (simp_all add: v(2) put_view_def view_def same_stats_refl)
qed (use assms in \<open>auto simp: guarded_def same_stats_refl split: if_splits\<close>)

section \<open>Counting along a run\<close>

text \<open>How often in a run a goroutine whose program counter satisfies \<open>P\<close> takes its step.\<close>

fun at_pc :: "(pc \<Rightarrow> bool) \<Rightarrow> event \<Rightarrow> sys \<Rightarrow> nat" where
  "at_pc P (Go k ch) s = (if k < length (sy_gos s) \<and> P (sy_gos s ! k) then 1 else 0)"
| "at_pc P ev s = 0"

fun tally :: "settings \<Rightarrow> (pc \<Rightarrow> bool) \<Rightarrow> event list \<Rightarrow> sys \<Rightarrow> nat" where
  "tally S P [] s = 0"
| "tally S P (ev # evs) s = at_pc P ev s + (case sys_exec S ev s of Some t \<Rightarrow> tally S P evs t | None \<Rightarrow> 0)"

lemma tally_length: "tally S P evs s \<le> length evs"
proof (induction evs arbitrary: s)
  case (Cons ev evs)
  have "at_pc P ev s \<le> 1" by (cases ev) simp_all
  moreover have "(case sys_exec S ev s of Some t \<Rightarrow> tally S P evs t | None \<Rightarrow> 0) \<le> length evs"
    using Cons.IH by (simp split: option.split)
  ultimately show ?case by simp
qed simp

text \<open>Measured times that are not absurd: the elapsed time and what the compare-and-swap loop meets.\<close>

fun sane_event :: "event \<Rightarrow> bool" where
  "sane_event (Go k (Elapsed ws d)) \<longleftrightarrow> span_ok d \<and> (\<forall>w \<in> set ws. span_ok w)"
| "sane_event ev \<longleftrightarrow> True"

text \<open>The goroutines that have judged an answer of endpoint \<open>i\<close> to be a success and not yet counted it.\<close>

definition uncounted :: "nat \<Rightarrow> sys \<Rightarrow> nat" where
  "uncounted i s = sum_list (map (\<lambda>c. if succeeding_at i c then 1 else 0) (sy_gos s))"

definition counts :: "nat \<Rightarrow> int \<Rightarrow> int \<Rightarrow> sys \<Rightarrow> bool" where
  "counts i T U s \<longleftrightarrow> (let e = pool_endpoints (sy_pool s) ! i in
     sint (ep_totalReqs e) = T \<and> sint (ep_successReqs e) = U \<and> 0 \<le> U \<and> U + int (uncounted i s) \<le> T \<and> span_ok (ep_avgLatency e))"

lemma uncounted_update:
  assumes "k < length (sy_gos s)" "sy_gos s' = (sy_gos s)[k := c']"
  shows "uncounted i s' + (if succeeding_at i (sy_gos s ! k) then 1 else 0) = uncounted i s + (if succeeding_at i c' then 1 else 0)"
proof -
  let ?f = "\<lambda>c. if succeeding_at i c then 1 else 0 :: nat"
  have "?f (sy_gos s ! k) \<le> sum_list (map ?f (sy_gos s))"
    using elem_le_sum_list[of k "map ?f (sy_gos s)"] assms(1) by simp
  then show ?thesis using assms by (simp add: uncounted_def map_update sum_list_update)
qed

lemma exec_counts:
  assumes "sys_exec S ev s = Some s'" "sane_event ev" "i < length (pool_endpoints (sy_pool s))" "counts i T U s" "T < max_int64"
  shows "counts i (T + at_pc (judging_at i) ev s) (U + at_pc (succeeding_at i) ev s) s'"
proof (cases "\<exists>k ch. ev = Go k ch")
  case False
  have "uncounted i s' = uncounted i s"
    using assms(1) False by (cases ev) (auto simp: uncounted_def guarded_def put_view_def split: if_splits option.splits)
  moreover have "at_pc P ev s = 0" for P using False by (cases ev) simp_all
  ultimately show ?thesis using exec_stats[OF assms(1,3)] False assms(4) by (auto simp: counts_def same_stats_def Let_def)
next
  case True
  then obtain k ch where ev: "ev = Go k ch" by blast
  let ?e = "pool_endpoints (sy_pool s) ! i" and ?c = "sy_gos s ! k"
  obtain c' p' where k: "k < length (sy_gos s)" and adv: "advance S ch (sy_now s) ?c (sy_pool s) = Done (c', p')"
    and s': "s' = s\<lparr>sy_gos := (sy_gos s)[k := c'], sy_pool := p'\<rparr>"
    using assms(1) by (auto simp: ev split: if_splits run.splits)
  have st: "stats_step i ch ?c ?e (pool_endpoints p' ! i)" by (rule advance_stats[OF adv assms(3)])
  have u: "uncounted i s' + (if succeeding_at i ?c then 1 else 0) = uncounted i s + (if succeeding_at i c' then 1 else 0)"
    by (rule uncounted_update[OF k]) (simp add: s')
  note c = assms(4)[unfolded counts_def Let_def]
  consider (judge) "judging_at i ?c" "\<not> succeeding_at i ?c" | (count) "\<not> judging_at i ?c" "succeeding_at i ?c"
    | (other) "\<not> judging_at i ?c" "\<not> succeeding_at i ?c" by (cases ?c) auto
  then show ?thesis
  proof cases
    case judge
    with st obtain ws d where d: "ch = Elapsed ws d" "pool_endpoints p' ! i = recordLatency_among ws d ?e"
      by (auto simp: stats_step_def)
    with judge u c assms(2,5) k show ?thesis
      by (simp add: counts_def s' ev sint_inc64 recordLatency_among_def latency_loop_span Let_def)
  next
    case count
    with st have d: "pool_endpoints p' ! i = countSuccess ?e" by (simp add: stats_step_def)
    have "\<not> succeeding_at i c'" using success_was_judged[OF adv] count(1) by blast
    with d count u c assms(5) k show ?thesis by (simp add: counts_def s' ev sint_inc64 countSuccess_def Let_def)
  next
    case other
    with st have d: "same_stats ?e (pool_endpoints p' ! i)" by (simp add: stats_step_def)
    have "\<not> succeeding_at i c'" using success_was_judged[OF adv] other(1) by blast
    with d other u c k show ?thesis by (simp add: counts_def s' ev same_stats_def Let_def)
  qed
qed

lemma run_counts:
  assumes "sys_run S evs s = Some t" "\<forall>ev \<in> set evs. sane_event ev" "i < length (pool_endpoints (sy_pool s))" "sys_ok S s"
    and "counts i T U s" "T + int (length evs) \<le> max_int64"
  shows "counts i (T + tally S (judging_at i) evs s) (U + tally S (succeeding_at i) evs s) t"
  using assms
proof (induction evs arbitrary: s T U)
  case (Cons ev evs)
  then obtain y where y: "sys_exec S ev s = Some y" "sys_run S evs y = Some t" by (auto simp: bind_eq_Some_conv)
  let ?j = "at_pc (judging_at i) ev s" and ?s = "at_pc (succeeding_at i) ev s"
  have one: "?j \<le> 1" by (cases ev) simp_all
  have c: "counts i (T + ?j) (U + ?s) y"
    by (rule exec_counts[OF y(1)]) (use Cons.prems in simp_all)
  have "counts i (T + ?j + tally S (judging_at i) evs y) (U + ?s + tally S (succeeding_at i) evs y) t"
    by (rule Cons.IH[OF y(2)]) (use Cons.prems c one sys_exec_ok[OF y(1)] in auto)
  then show ?case by (simp add: y(1) add.assoc)
qed simp

lemma start_counts: "fresh (pool_endpoints p ! i) \<Longrightarrow> counts i 0 0 (sys_start now p)"
  by (auto simp: counts_def sys_start_def fresh_def blank_endpoint_def uncounted_def span_ok_def)

section \<open>The scans of goroutines\<close>

text \<open>What a goroutine has summed up and the positions it has still to visit.\<close>

fun scanned :: "nat \<Rightarrow> pc \<Rightarrow> bool" where
  "scanned n (Scanning job is cs tot) \<longleftrightarrow> distinct (map fst cs @ is) \<and> length cs + length is \<le> n \<and>
     set is \<subseteq> {..<n} \<and> (\<forall>w \<in> set (map snd cs). below 100 w) \<and> tot = foldl fadd (FNum 0) (map snd cs)"
| "scanned n pc \<longleftrightarrow> True"

lemma scanned_other [simp]:
  "scanned n (leave job j so res)" "scanned n (refused job j err)" "scanned n (counted job j so err)"
  "scanned n (released job j res)" "scanned n (end_scan job cs tot u)" "scanned n (judged S d j s idx out)"
  "(\<And>s. scanned n (next s)) \<Longrightarrow> scanned n (acquired job j next r)"
  "answered job j s out = Done c \<Longrightarrow> scanned n c"
proof -
  have r: "scanned n (refused job j err)" for err by (cases job) simp_all
  show "scanned n (refused job j err)" by (rule r)
  show "(\<And>s. scanned n (next s)) \<Longrightarrow> scanned n (acquired job j next r)" by (simp add: acquired_def r split: sum.split)
  show "scanned n (counted job j so err)" by (cases job) simp_all
  show "scanned n (released job j res)" by (cases job; cases res) simp_all
  show "answered job j s out = Done c \<Longrightarrow> scanned n c" by (cases job) auto
qed (simp_all add: leave_def end_scan_def judged_def split: option.split list.split prod.split)

lemma begin_job_scanned:
  "begin_job job p = (c, p') \<Longrightarrow> scanned (length (pool_endpoints p)) c \<and> pool_domains p' = pool_domains p"
  by (cases job) (auto simp: Let_def split: if_splits)

lemma single_weighed:
  assumes "scan d (quiet now p) [i] cs tot t = (cs', tot', t')" "sane_stats (pool_endpoints p ! i)" "penalty_ok t"
  shows "cs' = cs \<and> tot' = tot \<or> (\<exists>w. cs' = cs @ [(i, w)] \<and> tot' = fadd tot w \<and> below 100 w)" "penalty_ok t'"
proof -
  have ok: "obs_ok (Suc i) (\<lambda>_. quiet now p i)" using assms(2) by (simp add: obs_ok_def quiet_def)
  note w = scan_weight_below[OF ok, of i t d] scan_weight_tracker[OF ok, of i d t]
  show "cs' = cs \<and> tot' = tot \<or> (\<exists>w. cs' = cs @ [(i, w)] \<and> tot' = fadd tot w \<and> below 100 w)"
    using assms(1,3) w(1) by (auto split: if_splits prod.splits)
  show "penalty_ok t'"
    using assms(1,3) w(2) by (auto simp: penalty_ok_def quiet_def split: if_splits prod.splits)
qed

lemma advance_scanned:
  assumes "advance S ch now c p = Done (c', p')" "scanned n c" "n = length (pool_endpoints p)"
    and "\<And>i. i < n \<Longrightarrow> sane_stats (pool_endpoints p ! i)" "penalty_ok (pool_domains p)"
  shows "scanned n c' \<and> penalty_ok (pool_domains p')"
  using assms(1)
proof (cases "(S, ch, now, c, p)" rule: advance.cases)
  case (1 S' ch now job q)
  with assms begin_job_scanned[of job p c' p'] show ?thesis by simp
next
  case (2 S' ch' now' job i "is" cs tot q)
  obtain cs' tot' t where sc: "scan (job_domain job) (quiet now p) [i] cs tot (pool_domains p) = (cs', tot', t)"
    by (metis prod_cases3)
  have c: "c' = Scanning job is cs' tot'" "p' = p\<lparr>pool_domains := t\<rparr>" using 2 assms(1) sc by (simp_all del: scan.simps)
  have "i < n" using 2 assms(2) by simp
  note w = single_weighed[OF sc assms(4)[OF this] assms(5)]
  from w(1) have "scanned n (Scanning job is cs' tot')" using 2 assms(2) by (elim disjE exE conjE) simp_all
  then show ?thesis using w(2) by (simp add: c)
qed (use assms in \<open>auto simp: recordDomainBlock_def penalty_ok_def update_ep_def run_ep_def
      split: option.splits decision.splits if_splits prod.splits\<close>)

text \<open>In a run with sane measurements every scan is weighed by sane statistics.\<close>

lemma sane_counts: "counts i T U s \<Longrightarrow> sane_stats (pool_endpoints (sy_pool s) ! i)"
  by (auto simp: counts_def sane_stats_def span_ok_def Let_def)

lemma exec_scanned:
  assumes "sys_exec S ev s = Some s'" "\<forall>c \<in> set (sy_gos s). scanned n c" "n = length (pool_endpoints (sy_pool s))"
    and "\<And>i. i < n \<Longrightarrow> sane_stats (pool_endpoints (sy_pool s) ! i)" "penalty_ok (pool_domains (sy_pool s))"
  shows "(\<forall>c \<in> set (sy_gos s'). scanned n c) \<and> penalty_ok (pool_domains (sy_pool s'))"
proof (cases ev)
  case (Go k ch)
  then obtain c p where k: "k < length (sy_gos s)" and adv: "advance S ch (sy_now s) (sy_gos s ! k) (sy_pool s) = Done (c, p)"
    and s': "s' = s\<lparr>sy_gos := (sy_gos s)[k := c], sy_pool := p\<rparr>"
    using assms(1) by (auto split: if_splits run.splits)
  have "scanned n c \<and> penalty_ok (pool_domains p)"
    by (rule advance_scanned[OF adv _ assms(3-5)]) (use k assms(2) in auto)
  then show ?thesis using assms(2) set_update_subset_insert[of "sy_gos s" k c] by (auto simp: s')
qed (use assms in \<open>auto simp: guarded_def put_view_def update_ep_def split: if_splits option.splits\<close>)

lemma run_scanned:
  assumes "sys_run S evs s = Some t" "\<forall>ev \<in> set evs. sane_event ev" "sys_ok S s" "n = length (pool_endpoints (sy_pool s))"
    and "\<And>i. i < n \<Longrightarrow> counts i (T i) (U i) s \<and> T i + int (length evs) \<le> max_int64"
    and "\<forall>c \<in> set (sy_gos s). scanned n c" "penalty_ok (pool_domains (sy_pool s))"
  shows "\<forall>c \<in> set (sy_gos t). scanned n c"
  using assms
proof (induction evs arbitrary: s T U)
  case (Cons ev evs)
  then obtain y where y: "sys_exec S ev s = Some y" "sys_run S evs y = Some t" by (auto simp: bind_eq_Some_conv)
  have y': "(\<forall>c \<in> set (sy_gos y). scanned n c) \<and> penalty_ok (pool_domains (sy_pool y))"
    by (rule exec_scanned[OF y(1) Cons.prems(6,4) _ Cons.prems(7)]) (use Cons.prems(5) sane_counts in blast)
  let ?j = "\<lambda>P i. int (at_pc (P i) ev s)"
  have one: "?j P i \<le> 1" for P :: "nat \<Rightarrow> pc \<Rightarrow> bool" and i by (cases ev) simp_all
  have "counts i (T i + ?j judging_at i) (U i + ?j succeeding_at i) y \<and> T i + ?j judging_at i + int (length evs) \<le> max_int64"
    if "i < n" for i
    using exec_counts[OF y(1), of i "T i" "U i"] Cons.prems(2,4) Cons.prems(5)[OF that] that one[of judging_at i] by auto
  then show ?case
    using Cons.IH[OF y(2), of "\<lambda>i. T i + ?j judging_at i" "\<lambda>i. U i + ?j succeeding_at i"] Cons.prems(2-4) y' sys_exec_ok[OF y(1)]
    by simp
qed simp

section \<open>Properties\<close>

lemma built_tracker:
  "newPoolWithFactory q parse cfg retry factory k = (Inr p, dropped, k') \<Longrightarrow>
     validate q parse cfg = None \<and> pool_domains p = NewTracker (pc_DomainBlockTTL cfg) (pc_DomainBlockPenalty cfg)"
  by (auto simp: newPoolWithFactory_def blank_pool_def split: option.splits prod.splits)


text \<open>C12. The draw is weighted in every interleaving: a goroutine that has finished its scan, whoever changed
  endpoints and blocked domains between its steps, draws candidate \<open>k\<close> exactly when the random number times
  the total lies in the interval of \<open>k\<close> among the partial sums of the weights it has seen, and its loop
  never falls through.\<close>

theorem concurrent_draw_is_weighted:
  assumes "newPoolWithFactory q parse cfg (st_retry S) factory k = (Inr p, dropped, k')"
    and "pc_DomainBlockPenalty cfg \<noteq> FNaN" and "length (pool_endpoints p) \<le> 2 ^ 53"
    and "sys_run S evs (sys_start now p) = Some s"
    and "\<forall>ev \<in> set evs. sane_event ev" and "int (length evs) \<le> max_int64"
    and "Scanning job [] cs tot \<in> set (sy_gos s)" and "0 \<le> x" and "x \<le> 1" and "m < length cs"
  shows "pick (fmul (FNum x) tot) (FNum 0) cs \<noteq> None \<and>
    (advance S (Random (FNum x)) (sy_now s) (Scanning job [] cs tot) (sy_pool s) = Done (Entering job (fst (cs ! m)), sy_pool s) \<longleftrightarrow>
      (0 < m \<longrightarrow> \<not> fle (fmul (FNum x) tot) (cumulated cs m)) \<and> fle (fmul (FNum x) tot) (cumulated cs (Suc m)))"
proof -
  let ?n = "length (pool_endpoints p)"
  have "penalty_ok (pool_domains p)"
    using built_tracker[OF assms(1)] assms(2) NewTracker_penalty_ok by (simp add: validate_None_iff)
  moreover have "counts i 0 0 (sys_start now p)" if "i < ?n" for i
    by (rule start_counts) (use built_pool(2)[OF assms(1)] that in simp)
  ultimately have "\<forall>c \<in> set (sy_gos s). scanned ?n c"
    by (intro run_scanned[OF assms(4,5), where T = "\<lambda>_. 0" and U = "\<lambda>_. 0"])
      (use assms(6) built_pool(1)[OF assms(1)] in \<open>simp_all add: sys_start_def sys_ok_def\<close>)
  with assms(7) have "scanned ?n (Scanning job [] cs tot)" by blast
  with assms(3) have w: "weighed cs tot" by (simp add: weighed_def)
  have ne: "cs \<noteq> []" using assms(10) by auto
  note reached = weighed_reached[OF w ne assms(8,9)]
  have "end_scan job cs tot (FNum x) = Entering job (draw (FNum x) cs tot)"
  proof (cases "\<exists>c. cs = [c]")
    case True
    then obtain c where "cs = [c]" by blast
    with reached show ?thesis by (cases c) (auto simp: end_scan_def draw_def Let_def)
  next
    case False
    then show ?thesis using ne by (auto simp: end_scan_def split: list.split)
  qed
  then show ?thesis using reached weighed_draw[OF w assms(8-10)] by simp
qed

section \<open>Witnesses\<close>


text \<open>A pool of two fresh endpoints: a request scans both.\<close>

definition pair :: Pool where
  "pair = blank_pool sample_config DefaultRetryConfig
     [(blank_endpoint ''http://a:1'' 1 2 (FNum 0))\<lparr>ep_sessions := [0, 1]\<rparr>, (blank_endpoint ''http://b:1'' 2 2 (FNum 0))\<lparr>ep_sessions := [2, 3]\<rparr>]"

lemma pair_built: "newPoolWithFactory q sample_parse sample_config DefaultRetryConfig (\<lambda>j _. Inr j) 0 = (Inr pair, [], 4)"
  unfolding newPoolWithFactory_def sample_config_valid
  by (simp add: pair_def sample_config_def sessionPoolSize_def newEndpointWithFactory_def blank_endpoint_def numeral_2_eq_2
      blank_pool_def startHealthCheck_def)

lemma pair_scanned:
  "\<exists>s. sys_run demo [Spawn SendPing, Go 0 Plain, Go 0 Plain, Go 0 Plain] (sys_start 0 pair) = Some s \<and>
     Scanning SendPing [] [(1, FNum 1), (0, FNum 1)] (FNum 2) \<in> set (sy_gos s)"
  by (simp add: pair_def sys_start_def guarded_def blank_pool_def blank_endpoint_def Let_def duo_positions[unfolded numeral_2_eq_2] quiet_def isAvailable_def
      scan_weight_def base_weight_def weight_def)

theorem concurrent_draw_is_weighted_witness:
  "\<exists>s. sys_run demo [Spawn SendPing, Go 0 Plain, Go 0 Plain, Go 0 Plain] (sys_start 0 pair) = Some s \<and>
     advance demo (Random (FNum (1/4))) (sy_now s) (Scanning SendPing [] [(1, FNum 1), (0, FNum 1)] (FNum 2)) (sy_pool s) =
     Done (Entering SendPing 1, sy_pool s)"
proof -
  obtain s where s: "sys_run demo [Spawn SendPing, Go 0 Plain, Go 0 Plain, Go 0 Plain] (sys_start 0 pair) = Some s"
    "Scanning SendPing [] [(1, FNum 1), (0, FNum 1)] (FNum 2) \<in> set (sy_gos s)" using pair_scanned by blast
  have h: "pc_DomainBlockPenalty sample_config \<noteq> FNaN" "length (pool_endpoints pair) \<le> 2 ^ 53"
    "\<forall>ev \<in> set [Spawn SendPing, Go 0 Plain, Go 0 Plain, Go 0 Plain]. sane_event ev"
    "int (length [Spawn SendPing, Go 0 Plain, Go 0 Plain, Go 0 Plain]) \<le> max_int64"
    by (simp_all add: sample_config_def pair_def blank_pool_def max_int64_def)
  have half: "rnd (1/2) = FNum (1/2)"
    using representable_powi[of "- 1"] by (intro rnd_representable) (simp_all add: power_int_minus)
  have "fle (fmul (FNum (1/4)) (FNum 2)) (cumulated [(1, FNum 1), (0, FNum 1)] (Suc 0))" by (simp add: cumulated_def half)
  with concurrent_draw_is_weighted[OF pair_built[folded demo_fields(1)] h(1,2) s(1) h(3,4) s(2), of "1/4" 0, THEN conjunct2]
  have "advance demo (Random (FNum (1/4))) (sy_now s) (Scanning SendPing [] [(1, FNum 1), (0, FNum 1)] (FNum 2)) (sy_pool s) =
     Done (Entering SendPing 1, sy_pool s)" by (simp del: advance.simps)
  with s(1) show ?thesis by blast
qed

end
