(* ===== verification/Example.thy ===== *)
theory Example
  imports Administration
begin

text \<open>
  \<open>examples/basic/main.go\<close>: the program that sends one request through one proxy.  The environment
  variables are a function from names to values (empty when unset, as \<open>os.Getenv\<close> has it); writing
  to the standard output is an argument that says how many bytes got through and the error.  The
  program is the public interface from end to end: it builds a client, runs a request, closes the
  client by \<open>defer\<close> on every path, and tells its caller what happened.
\<close>

section \<open>The program\<close>

definition mainPool :: string where
  "mainPool = ''main''"

definition example_pool :: "string \<Rightarrow> PoolConfig" where
  "example_pool proxyURL =
     \<lparr> pc_Name = mainPool, pc_Endpoints = [proxyURL], pc_SessionPoolSize = 1,
       pc_RequestsPerSecond = FNum 0, pc_HealthCheckInterval = 0, pc_HealthCheckURL = [], pc_HealthCheckTimeout = 0,
       pc_DomainBlockTTL = 0, pc_DomainBlockPenalty = FNum 0 \<rparr>"

definition example_config :: "string \<Rightarrow> Config" where
  "example_config proxyURL =
     \<lparr> cfg_Pools = [example_pool proxyURL],
       cfg_Retry = \<lparr> rc_MaxAttempts = 0, rc_InitialDelay = 0, rc_MaxDelay = 0, rc_CooldownPeriod = 0,
         rc_MaxCooldown = 0, rc_FailThreshold = 0 \<rparr>,
       cfg_Detector = None, cfg_SessionFactory = None \<rparr>"

text \<open>The URL the program requests.\<close>

definition target_url :: "(string \<Rightarrow> string) \<Rightarrow> string" where
  "target_url getenv = (if getenv ''TARGET_URL'' = [] then ''https://example.com'' else getenv ''TARGET_URL'')"

text \<open>\<open>fmt.Printf\<close> with the format \<open>%s\<close>, newline, \<open>%s\<close>, newline: the text, what of it is written, the error.\<close>

type_synonym writer = "string \<Rightarrow> nat \<times> gerr option"

definition printed :: "Response \<Rightarrow> string" where
  "printed r = resp_Status r @ ''\<newline>'' @ resp_Body r @ ''\<newline>''"

text \<open>What the program does with the outcome of the request: what it writes, and the error it returns.\<close>

definition report :: "writer \<Rightarrow> string \<Rightarrow> outcome \<Rightarrow> (string \<times> gerr option) run" where
  "report write targetURL out =
     (case out of
        (Some response, Some err) \<Rightarrow>
          Done ([], Some (ErrWrap (''request '' @ targetURL @ '' (last status '' @ resp_Status response @ ''): '') err []))
      | (None, Some err) \<Rightarrow> Done ([], Some (ErrWrap (''request '' @ targetURL @ '': '') err []))
      | (None, None) \<Rightarrow> Panic
      | (Some response, None) \<Rightarrow>
          (case write (printed response) of
             (n, Some err) \<Rightarrow> Done (take n (printed response), Some (ErrWrap ''write response: '' err []))
           | (n, None) \<Rightarrow> Done (take n (printed response), None)))"

text \<open>The result of the program: its error, what it wrote, and what it leaves of the client: the
  client itself if there was one, and endpoints a failed construction dropped.\<close>

record example_result =
  ex_err :: "gerr option"
  ex_out :: string
  ex_client :: "Client option"
  ex_dropped :: "endpoint list"

definition example_run ::
  "retry_fun \<Rightarrow> (string \<Rightarrow> string) \<Rightarrow> regexp_env \<Rightarrow> (string \<Rightarrow> string) \<Rightarrow> (string \<Rightarrow> gerr + url) \<Rightarrow>
   (nat \<Rightarrow> string \<Rightarrow> gerr option) \<Rightarrow> 'v session_do \<Rightarrow> (nat \<Rightarrow> attempt_env) \<Rightarrow> (string \<Rightarrow> string) \<Rightarrow> writer \<Rightarrow> nat \<Rightarrow>
   example_result run" where
  "example_run retry_do q rx uni parse set_proxy session_do envs getenv write k =
     (let proxyURL = getenv ''PROXY_URL'' in
      if proxyURL = [] then
        Done \<lparr> ex_err = Some (ErrText ''set PROXY_URL to a complete proxy URL''), ex_out = [], ex_client = None, ex_dropped = [] \<rparr>
      else
        (let targetURL = target_url getenv in
         case New q rx uni parse set_proxy (example_config proxyURL) k of
           (Inl err, (left, dropped), _) \<Rightarrow>
             Done \<lparr> ex_err = Some (ErrWrap ''create client: '' err []), ex_out = [], ex_client = left, ex_dropped = dropped \<rparr>
         | (Inr client, _) \<Rightarrow>
             bind_run (Get retry_do q rx uni parse session_do envs mainPool targetURL client)
               (\<lambda>(out, client).
                  bind_run (report write targetURL out) (\<lambda>(written, err).
                    Done \<lparr> ex_err = err, ex_out = written, ex_client = Some (Client_Close client), ex_dropped = [] \<rparr>))))"

text \<open>\<open>main\<close>: the exit status and what \<open>log.Fatal\<close> writes to the standard error, after a time stamp.\<close>

definition example_main :: "(string \<Rightarrow> string) \<Rightarrow> string \<Rightarrow> example_result \<Rightarrow> nat \<times> string" where
  "example_main q stamp r =
     (case ex_err r of
        Some err \<Rightarrow> (1, stamp @ error_text q err @ ''\<newline>'')
      | None \<Rightarrow> (0, []))"

section \<open>What every endpoint keeps over a request\<close>

text \<open>
  A predicate of endpoints that the operations of a request keep holds of every endpoint of the pool
  after the request, if the surroundings keep it too.
\<close>

locale endpoint_property =
  fixes Q :: "endpoint \<Rightarrow> bool"
  assumes plain: "Q e \<Longrightarrow> Q (incrementFailCount e)" "Q e \<Longrightarrow> Q (resetFailCount e)" "Q e \<Longrightarrow> Q (recordSuccess e)"
      "Q e \<Longrightarrow> Q (recordLatency_among ws d e)" "Q e \<Longrightarrow> Q (releaseSession s e)" "Q e \<Longrightarrow> Q (close_session n e)"
    and received: "acq_select c e = Done (r, e') \<Longrightarrow> Q e \<Longrightarrow> Q e'"
    and cooled: "markFailed now b m e = Done e' \<Longrightarrow> Q e \<Longrightarrow> Q e'"
begin

definition everywhere :: "Pool \<Rightarrow> bool" where
  "everywhere p \<longleftrightarrow> (\<forall>e \<in> set (pool_endpoints p). Q e)"

definition respected :: "attempt_env \<Rightarrow> bool" where
  "respected env \<longleftrightarrow>
     (\<forall>p. everywhere p \<longrightarrow> everywhere (ae_before env p) \<and> everywhere (ae_selected env p) \<and>
        everywhere (ae_during env p) \<and> everywhere (ae_counted env p)) \<and>
     (\<forall>e. Q e \<longrightarrow> Q (aq_during_wait (ae_acquire env) e) \<and> Q (aq_during_select (ae_acquire env) e) \<and>
        Q (aq_before_recheck (ae_acquire env) e))"

lemma everywhere_update: "everywhere p \<Longrightarrow> (\<And>e. Q e \<Longrightarrow> Q (f e)) \<Longrightarrow> everywhere (update_ep i f p)"
proof (cases "i < length (pool_endpoints p)")
  case True
  assume "everywhere p" "\<And>e. Q e \<Longrightarrow> Q (f e)"
  then show ?thesis using True set_update_subset_insert[of "pool_endpoints p" i "f (pool_endpoints p ! i)"]
    by (auto simp: everywhere_def update_ep_def)
qed (simp add: everywhere_def update_ep_def list_update_beyond)

lemma everywhere_set: "everywhere p \<Longrightarrow> (i < length (pool_endpoints p) \<Longrightarrow> Q e) \<Longrightarrow> everywhere (update_ep i (\<lambda>_. e) p)"
  using set_update_subset_insert[of "pool_endpoints p" i e]
  by (cases "i < length (pool_endpoints p)") (auto simp: everywhere_def update_ep_def list_update_beyond)

lemma everywhere_nth: "everywhere p \<Longrightarrow> i < length (pool_endpoints p) \<Longrightarrow> Q (pool_endpoints p ! i)"
  by (simp add: everywhere_def)

lemma acquire_keeps:
  assumes "acquireSession (ae_acquire env) e = Done (r, e')" "respected env" "Q e"
  shows "Q e'"
  using assms(1)
proof (cases rule: acquireSession_cases)
  case (refused err)
  then show ?thesis using assms(2,3) received[OF refused(1)] by (auto simp: respected_def split: option.splits)
next
  case (taken s e2)
  have "Q e2" using assms(2,3) received[OF taken(1)] by (auto simp: respected_def split: option.splits)
  then have "Q (aq_before_recheck (ae_acquire env) e2)" using assms(2) by (simp add: respected_def)
  then show ?thesis using taken(2) plain(6) by (auto simp: acq_recheck_def split: if_splits)
qed (use assms(2,3) in \<open>auto simp: respected_def split: option.splits\<close>)

lemma penalise_keeps:
  assumes "penalise now others retry th d i p = Done p'" "everywhere p" "\<And>p. everywhere p \<Longrightarrow> everywhere (others p)"
  shows "everywhere p'"
proof -
  have "everywhere (the (recordDomainBlock now x d (Some p)))" if "everywhere p" for x p
    using that by (simp add: recordDomainBlock_def everywhere_def)
  then have o: "everywhere (others (the (recordDomainBlock now x d (Some (update_ep i incrementFailCount p)))))" for x
    using assms(2,3) everywhere_update plain(1) by blast
  show ?thesis
    using assms(1) o cooled everywhere_set everywhere_nth
    by (auto simp: penalise_def Let_def run_ep_def split: if_splits)
qed

lemma settle_keeps:
  assumes "settle q rx uni det retry th d env i out p = Done (res, p')" "everywhere p" "respected env"
  shows "everywhere p'"
proof -
  let ?p = "update_ep i (recordLatency_among (ae_latencies env) (ae_elapsed env)) p"
  have p: "everywhere ?p" by (rule everywhere_update[OF assms(2)]) (rule plain(4))
  have pen: "everywhere p2" if "penalise (ae_now env) (ae_counted env) retry th d i ?p = Done p2" for p2
    using penalise_keeps[OF that p] assms(3) by (simp add: respected_def)
  have ok: "everywhere (update_ep i (\<lambda>e. resetFailCount (recordSuccess e)) ?p)"
    by (rule everywhere_update[OF p]) (rule plain(2)[OF plain(3)])
  obtain resp err where out: "out = (resp, err)" by fastforce
  have "p' = ?p \<or> p' = update_ep i (\<lambda>e. resetFailCount (recordSuccess e)) ?p \<or>
      penalise (ae_now env) (ae_counted env) retry th d i ?p = Done p'"
    using assms(1) by (auto simp: settle_def Let_def out split: option.splits if_splits)
  then show ?thesis using p pen ok by blast
qed

lemma attempt_keeps:
  assumes "attempt q rx uni det retry th d envs st = Done (res, st')" "everywhere (cs_pool st)" "\<And>k. respected (envs k)"
  shows "everywhere (cs_pool st')"
proof -
  let ?env = "envs (cs_attempts st)"
  have r: "respected ?env" by (rule assms(3))
  have sel: "everywhere (the p')" "everywhere (ae_selected ?env (the p'))"
    if "getNextEndpointForDomain d obs u (Some (ae_before ?env (cs_pool st))) = (sl, p')" for obs u sl p'
  proof -
    have "everywhere (ae_before ?env (cs_pool st))" using r assms(2) by (simp add: respected_def)
    then show "everywhere (the p')"
      using getNext_alive[of d obs u "ae_before ?env (cs_pool st)" _ p'] getNext_none[of d obs u "ae_before ?env (cs_pool st)" _ p'] that
      by (cases sl) (auto simp: everywhere_def)
    then show "everywhere (ae_selected ?env (the p'))" using r by (simp add: respected_def)
  qed
  have acq: "everywhere (update_ep i (\<lambda>_. e) (ae_selected ?env (the p')))"
    if "getNextEndpointForDomain d obs u (Some (ae_before ?env (cs_pool st))) = (sl, p')"
      "acquireSession (ae_acquire ?env) (pool_endpoints (ae_selected ?env (the p')) ! i) = Done (x, e)" for obs u sl p' i x e
    by (rule everywhere_set[OF sel(2)[OF that(1)]]) (rule acquire_keeps[OF that(2) r everywhere_nth[OF sel(2)[OF that(1)]]])
  show ?thesis
  proof (cases rule: attempt_cases[OF assms(1)])
    case (1 p')
    then show ?thesis using sel(1)[OF 1(1)] by simp
  next
    case (2 i p' err e)
    then show ?thesis using acq[OF 2(1,2)] by simp
  next
    case (3 i p' s e p4)
    have "everywhere (ae_during ?env (update_ep i (\<lambda>_. e) (ae_selected ?env (the p'))))"
      using acq[OF 3(1,2)] r by (simp add: respected_def)
    from settle_keeps[OF 3(3) this r] show ?thesis using everywhere_update plain(5) 3(4) by simp
  qed
qed

end

text \<open>An endpoint nobody has closed, and closing is the only operation that changes that.\<close>

definition unclosed :: "endpoint \<Rightarrow> bool" where
  "unclosed e \<longleftrightarrow> \<not> ep_closeOnce e"

lemma acq_select_closeOnce: "acq_select c e = Done (r, e') \<Longrightarrow> ep_closeOnce e' = ep_closeOnce e"
  by (cases "(c, e)" rule: acq_select.cases) (auto simp: acq_select.simps split: list.splits if_splits)

lemma markFailed_closeOnce: "markFailed now b m e = Done e' \<Longrightarrow> ep_closeOnce e' = ep_closeOnce e"
  by (auto simp: markFailed_def Let_def cancel_timer_def split: option.splits)

interpretation open_ep: endpoint_property unclosed
  by unfold_locales
    (auto simp: unclosed_def incrementFailCount_def resetFailCount_def recordSuccess_def resetTier_def countSuccess_def
      recordLatency_among_def close_session_def releaseSession_def acq_select_closeOnce markFailed_closeOnce
      split: option.splits)

definition leaves_open :: "attempt_env \<Rightarrow> bool" where
  "leaves_open env \<longleftrightarrow>
     (\<forall>p. (\<forall>e \<in> set (pool_endpoints p). unclosed e) \<longrightarrow>
        (\<forall>f \<in> {ae_before env, ae_selected env, ae_during env, ae_counted env}. \<forall>e \<in> set (pool_endpoints (f p)). unclosed e)) \<and>
     (\<forall>e. unclosed e \<longrightarrow> (\<forall>f \<in> {aq_during_wait (ae_acquire env), aq_during_select (ae_acquire env),
        aq_before_recheck (ae_acquire env)}. unclosed (f e)))"

lemma leaves_open_respected: "leaves_open env \<Longrightarrow> open_ep.respected env"
  unfolding leaves_open_def open_ep.respected_def open_ep.everywhere_def by blast

section \<open>The client of the program\<close>

lemma example_fields:
  "cfg_Pools (example_config url) = [example_pool url]" "cfg_Detector (example_config url) = None"
  "withDefaults (cfg_Retry (example_config url)) = DefaultRetryConfig"
  "pc_Name (example_pool url) = mainPool" "pc_Endpoints (example_pool url) = [url]" "sessionPoolSize (example_pool url) = 1"
  by (simp_all add: example_config_def example_pool_def sessionPoolSize_def withDefaults_def DefaultRetryConfig_def)

lemma example_factory: "session_factory set_proxy (example_config url) j u = Inr s \<Longrightarrow> s = j"
  by (simp add: session_factory_def example_config_def defaultSessionFactory_def azure_New_def split: option.splits)

text \<open>One pool with one endpoint that has the one session, number \<open>k\<close> of the library.\<close>

lemma example_endpoint:
  assumes "newPoolWithFactory q parse (example_pool url) retry (session_factory set_proxy (example_config url)) k = (Inr p, dr, k')"
  obtains e where "pool_endpoints p = [e]" "ep_owned e = {#k#}" "unclosed e"
proof -
  let ?f = "session_factory set_proxy (example_config url)"
  obtain res eps failed k2 where ne: "new_endpoints 1 (pc_RequestsPerSecond (example_pool url)) ?f 1 [url] k = (res, eps, failed, k2)"
    by (metis prod_cases4)
  have eps: "res = None" "pool_endpoints p = eps"
    using assms ne by (auto simp: newPoolWithFactory_def blank_pool_def example_fields split: option.splits)
  have "length eps = 1" using new_endpoints_index[OF ne] eps(1) by simp
  then obtain e where e: "eps = [e]" by (auto simp: length_Suc_conv)
  note own = new_endpoints_owned[OF ne]
  have o: "ep_owned e = mset (pool_created ?f [url] 1 k (Suc k))" and b: "\<exists>u i ss. e = (blank_endpoint u i 1 (pc_RequestsPerSecond (example_pool url)))\<lparr>ep_sessions := ss\<rparr>"
    using own eps(1) e by auto
  have "fresh e" using newPool_outcome[OF assms] eps(2) e by simp
  then have "ep_owned e \<noteq> {#}" using b unfolding fresh_def by (auto simp: ep_owned_def blank_endpoint_def Let_def)
  then obtain s where "?f k url = Inr s" using o by (auto simp: pool_created_def split: sum.splits)
  with example_factory have "ep_owned e = {#k#}" using o by (simp add: pool_created_def)
  moreover have "unclosed e" using b by (auto simp: unclosed_def blank_endpoint_def Let_def)
  ultimately show thesis using that e eps(2) by simp
qed

lemma example_client:
  assumes "New q rx uni parse set_proxy (example_config url) k = (Inr c, rest, k')"
  obtains p e where "cl_pools c = [mainPool \<mapsto> p]" "pool_endpoints p = [e]" "ep_owned e = {#k#}" "unclosed e"
    "cl_detector c = default_detector uni" "cl_retry c = DefaultRetryConfig" "client_ok c"
proof -
  obtain r dr k1 where np: "newPoolWithFactory q parse (example_pool url) DefaultRetryConfig
      (session_factory set_proxy (example_config url)) k = (r, dr, k1)" by (metis prod_cases3)
  then obtain p where p: "r = Inr p" "cl_pools c = [mainPool \<mapsto> p]" "cl_detector c = default_detector uni" "cl_retry c = DefaultRetryConfig"
    using assms by (cases r) (auto simp: New_def example_fields default_detector_built)
  from example_endpoint[OF np[unfolded p(1)]] obtain e where "pool_endpoints p = [e]" "ep_owned e = {#k#}" "unclosed e" .
  with that[OF p(2)] p(3,4) built_pools(2)[OF assms] show thesis by simp
qed

text \<open>A construction that fails has no pool to keep, and drops closed endpoints only.\<close>

lemma failed_example:
  assumes "New q rx uni parse set_proxy (example_config url) k = (Inl err, (left, dropped), k')"
  shows "(\<forall>e \<in> set dropped. shut e) \<and> (\<forall>c name. left = Some c \<longrightarrow> cl_pools c name = None)"
proof -
  obtain r dr k1 where np: "newPoolWithFactory q parse (example_pool url) DefaultRetryConfig
      (session_factory set_proxy (example_config url)) k = (r, dr, k1)" by (metis prod_cases3)
  with assms newPool_outcome[OF np] show ?thesis
    by (cases r) (auto simp: New_def example_fields default_detector_built Client_Close_def Pool_Close_def)
qed

section \<open>The request of the program\<close>

lemma with_request_kept:
  "neutral (with_request session_do r envs j) = neutral (envs j)"
  "leaves_open (with_request session_do r envs j) = leaves_open (envs j)"
  by (simp_all add: with_request_def neutral_def leaves_open_def)

lemma request_leaves_open:
  assumes "retrier retry_do" "client_ok c" "\<And>j. neutral (envs j)" "\<And>j. leaves_open (envs j)"
    and "DoForDomain retry_do q rx uni envs pn d c = Done (out, c')" "cl_pools c = [name \<mapsto> p]"
    and "\<forall>e \<in> set (pool_endpoints p). unclosed e"
  obtains p' where "cl_pools c' = [name \<mapsto> p']" "owned p' = owned p" "\<forall>e \<in> set (pool_endpoints p'). unclosed e"
proof (cases rule: DoForDomain_cases[OF assms(5,2)])
  case (1 err)
  with assms(6,7) that show thesis by simp
next
  case (2 n p0 err st)
  then have n: "n = name" "p0 = p" using assms(6) by (auto split: if_splits)
  let ?P = "\<lambda>s. owned (cs_pool s) = owned p \<and> open_ep.everywhere (cs_pool s)"
  have "?P st"
    using retrier.keeps[OF assms(1) attempts_positive[OF assms(2)] 2(3), where P = ?P] assms(3,4,7)
      owned_attempt open_ep.attempt_keeps leaves_open_respected n
    by (simp add: start_call_def open_ep.everywhere_def)
  then show thesis using that[of "cs_pool st"] 2(5) assms(6) n by (simp add: open_ep.everywhere_def)
qed

lemma example_cases:
  assumes "example_run retry_do q rx uni parse set_proxy session_do envs getenv write k = Done r"
  obtains (unset) "ex_err r = Some (ErrText ''set PROXY_URL to a complete proxy URL'')" "ex_out r = []" "ex_client r = None" "ex_dropped r = []"
  | (no_client) err left dropped k' where
      "New q rx uni parse set_proxy (example_config (getenv ''PROXY_URL'')) k = (Inl err, (left, dropped), k')"
      "ex_err r = Some (ErrWrap ''create client: '' err [])" "ex_out r = []" "ex_client r = left" "ex_dropped r = dropped"
  | (requested) c rest k' out c' where
      "New q rx uni parse set_proxy (example_config (getenv ''PROXY_URL'')) k = (Inr c, rest, k')"
      "Get retry_do q rx uni parse session_do envs mainPool (target_url getenv) c = Done (out, c')"
      "report write (target_url getenv) out = Done (ex_out r, ex_err r)" "ex_client r = Some (Client_Close c')" "ex_dropped r = []"
proof (cases "getenv ''PROXY_URL'' = []")
  case True
  then show thesis using assms unset by (auto simp: example_run_def)
next
  case set: False
  obtain res left dropped k' where new: "New q rx uni parse set_proxy (example_config (getenv ''PROXY_URL'')) k = (res, (left, dropped), k')"
    by (metis surj_pair)
  note run = assms[unfolded example_run_def Let_def new prod.case if_not_P[OF set]]
  show thesis
  proof (cases res)
    case (Inl err)
    then show thesis using no_client[of err left dropped k'] run new by auto
  next
    case (Inr c)
    then obtain out c' where get: "Get retry_do q rx uni parse session_do envs mainPool (target_url getenv) c = Done (out, c')"
      using run by auto
    then obtain msg err where "report write (target_url getenv) out = Done (msg, err)" using run Inr by auto
    then show thesis using requested[of c "(left, dropped)" k' out c'] run new get Inr by auto
  qed
qed

section \<open>Properties\<close>

text \<open>C33. The program leaves no session open: on every path it takes, from a missing variable to a response
  that cannot be printed, every endpoint of the client it leaves is closed with an empty channel;
  a client that was built has closed exactly the one session the library had created for it, once.\<close>

theorem example_closes_its_session:
  assumes "retrier retry_do" and "\<And>j. neutral (envs j)" and "\<And>j. leaves_open (envs j)"
    and "example_run retry_do q rx uni parse set_proxy session_do envs getenv write k = Done r"
  shows "(\<forall>e \<in> set (ex_dropped r). shut e) \<and>
    (\<forall>c name p e. ex_client r = Some c \<longrightarrow> cl_pools c name = Some p \<longrightarrow> e \<in> set (pool_endpoints p) \<longrightarrow>
       shut e \<and> ep_closedSessions e = [k])"
proof -
  from assms(4) show ?thesis
  proof (cases rule: example_cases)
    case (no_client err left dropped k')
    then show ?thesis using failed_example[OF no_client(1)] by auto
  next
    case (requested c rest k' out c')
    obtain p e where c: "cl_pools c = [mainPool \<mapsto> p]" "pool_endpoints p = [e]" "ep_owned e = {#k#}" "unclosed e" "client_ok c"
      using example_client[OF requested(1)] .
    obtain p' where p': "cl_pools c' = [mainPool \<mapsto> p']" "owned p' = owned p" "\<forall>e \<in> set (pool_endpoints p'). unclosed e"
      by (rule request_leaves_open[OF assms(1) c(5) _ _ requested(2)[unfolded Get_def] c(1)])
         (use assms(2,3) c in \<open>simp_all add: with_request_kept\<close>)
    then obtain e' where e': "pool_endpoints p' = [e']" "ep_owned e' = {#k#}" "unclosed e'"
      using c(2,3) by (auto simp: owned_def map_eq_Cons_conv)
    then have "shut (Close e')" "mset (ep_closedSessions (Close e')) = {#k#}"
      by (auto simp: Close_sessions shut_def unclosed_def ep_owned_def add.commute)
    then show ?thesis using requested(4,5) p'(1) e'(1) by (auto simp: Client_Close_def Pool_Close_def split: if_splits)
  qed simp
qed

text \<open>C34. What the program prints it has been answered: it returns nil, and \<open>main\<close> exits with 0, only if
  one of at most three requests on the library's session got a response without an error that the
  default detector does not take for a block, and then it has written the status line and the body of
  that response.  When it fails \<open>main\<close> exits with 1, and nothing was written unless the writing failed.\<close>

theorem example_prints_the_answer:
  assumes "retrier retry_do" and "\<And>s. snd (write s) = None \<Longrightarrow> length s \<le> fst (write s)"
    and "example_run retry_do q rx uni parse set_proxy session_do envs getenv write k = Done r"
  shows "if fst (example_main q stamp r) = 0
    then \<exists>j s resp. j < 3 \<and> ex_out r = resp_Status resp @ ''\<newline>'' @ resp_Body resp @ ''\<newline>'' \<and>
      session_do j s \<lparr> rq_Method = ''GET'', rq_URL = target_url getenv, rq_Body = NilBody, rq_Headers = [] \<rparr> = (Some resp, None) \<and>
      \<not> IsBlocked rx uni (Some (default_detector uni)) (Some resp)
    else fst (example_main q stamp r) = 1 \<and> (ex_out r = [] \<or> (\<exists>resp. snd (write (printed resp)) \<noteq> None))"
  using assms(3)
proof (cases rule: example_cases)
  case (requested c rest k' out c')
  obtain c: "cl_detector c = default_detector uni" "cl_retry c = DefaultRetryConfig" "client_ok c"
    using example_client[OF requested(1)] .
  show ?thesis
  proof (cases "snd out")
    case (Some err)
    then have "ex_out r = []" "ex_err r \<noteq> None"
      using requested(3)[symmetric] by (cases "fst out", auto simp: report_def split: prod.splits)+
    then show ?thesis by (auto simp: example_main_def)
  next
    case None
    obtain resp where out: "out = (resp, None)" using None by (cases out) simp
    obtain a j s where g: "resp = Some a" "j < 3" "ae_fn (with_request session_do
        \<lparr> rq_Method = ''GET'', rq_URL = target_url getenv, rq_Body = NilBody, rq_Headers = [] \<rparr> envs j) s = (Some a, None)"
      "\<not> IsBlocked rx uni (Some (default_detector uni)) (Some a)"
      using genuine_success[OF assms(1) c(3) requested(2)[unfolded Get_def out]] c(1,2) by (auto simp: solo_attempts)
    have w: "ex_out r = take (fst (write (printed a))) (printed a)" "ex_err r = None \<longleftrightarrow> snd (write (printed a)) = None"
      using requested(3)[symmetric] out g(1) by (auto simp: report_def split: prod.splits option.splits)
    show ?thesis
    proof (cases "ex_err r")
      case None
      then have "ex_out r = printed a" using w assms(2) by simp
      then show ?thesis using None g by (auto simp: example_main_def printed_def with_request_def)
    next
      case (Some err)
      then show ?thesis using w(2) by (auto simp: example_main_def)
    qed
  qed
qed (simp_all add: example_main_def)

section \<open>A run\<close>

definition proxy_env :: "string \<Rightarrow> string" where
  "proxy_env name = (if name = ''PROXY_URL'' then ''http://p:1'' else [])"

definition full_write :: writer where
  "full_write s = (length s, None)"

definition hello :: "nat session_do" where
  "hello j s r = (Some ok_response, None)"

definition hello_run :: "example_result run" where
  "hello_run = example_run retry_loop id no_rx id sample_parse (\<lambda>_ _. None) hello (\<lambda>_. quiet_env (\<lambda>_. (None, None))) proxy_env full_write 0"

lemma accepted_pool:
  "newPoolWithFactory id sample_parse (example_pool ''http://p:1'') DefaultRetryConfig
     (session_factory (\<lambda>_ _. None) (example_config ''http://p:1'')) 0 =
   (Inr (blank_pool (example_pool ''http://p:1'') DefaultRetryConfig
      [(blank_endpoint ''http://p:1'' 1 1 (FNum 0))\<lparr>ep_sessions := [0]\<rparr>]), [], 1)"
proof -
  have "validate id sample_parse (example_pool ''http://p:1'') = None"
    by (simp add: example_pool_def mainPool_def sample_parse_def validate_None_iff)
  moreover have "session_factory (\<lambda>_ _. None) (example_config ''http://p:1'') = (\<lambda>j _. Inr j)"
    by (rule accepting_factory) (simp add: example_config_def)
  ultimately show ?thesis
    by (simp add: newPoolWithFactory_def example_pool_def sessionPoolSize_def newEndpointWithFactory_def blank_endpoint_def startHealthCheck_def
        blank_pool_def)
qed

lemma quiet_leaves_open: "leaves_open (quiet_env fn)"
  by (simp add: leaves_open_def quiet_env_def quiet_acquire_def)

lemma hello_runs:
  "\<exists>r c p e. hello_run = Done r \<and> ex_err r = None \<and> ex_client r = Some c \<and> cl_pools c ''main'' = Some p \<and> e \<in> set (pool_endpoints p)"
proof -
  let ?e = "(blank_endpoint ''http://p:1'' 1 1 (FNum 0))\<lparr>ep_sessions := [0]\<rparr>"
  let ?p = "blank_pool (example_pool ''http://p:1'') DefaultRetryConfig [?e]"
  obtain c where new: "New id no_rx id sample_parse (\<lambda>_ _. None) (example_config ''http://p:1'') 0 = (Inr c, (None, []), 1)"
    "cl_pools c = [''main'' \<mapsto> ?p]" "cl_detector c = default_detector id" "cl_retry c = DefaultRetryConfig"
    by (simp add: New_def example_fields default_detector_built accepted_pool mainPool_def)
  let ?env = "quiet_env (\<lambda>_. (Some ok_response, None))"
  have envs: "with_request hello r (\<lambda>_. quiet_env (\<lambda>_. (None, None))) = (\<lambda>_. ?env)" for r
    by (simp add: with_request_def quiet_env_def hello_def fun_eq_iff)
  have e: "isAvailable ?e" "\<not> ep_closed ?e" "ep_limiter ?e = None" "ep_sessions ?e = [0]"
    by (simp_all add: blank_endpoint_def isAvailable_def)
  have s: "settle id no_rx id (default_detector id) DefaultRetryConfig th d ?env 0 (Some ok_response, None) p =
      Done (None, update_ep 0 (\<lambda>e. resetFailCount (recordSuccess e))
        (update_ep 0 (recordLatency_among (ae_latencies ?env) (ae_elapsed ?env)) p))" for th d p
    by (simp add: settle_def Let_def ok_not_blocked)
  have at: "\<exists>st. attempt id no_rx id (default_detector id) DefaultRetryConfig th d (\<lambda>_. ?env) (start_call ?p) = Done (None, st) \<and>
      cs_lastResp st = Some ok_response \<and> pool_endpoints (cs_pool st) \<noteq> []" for th d
    using solo_attempt[of "\<lambda>_. ?env" "start_call ?p" "\<lambda>_. (Some ok_response, None)" ?e 0 "[]"] e
    by (simp add: start_call_def blank_pool_def s update_ep_def)
  obtain st where st: "attempt id no_rx id (default_detector id) DefaultRetryConfig (failThreshold DefaultRetryConfig)
      (FromURL sample_parse ''https://example.com'') (\<lambda>_. ?env) (start_call ?p) = Done (None, st)"
      "cs_lastResp st = Some ok_response" "pool_endpoints (cs_pool st) \<noteq> []"
    using at by blast
  have get: "Get retry_loop id no_rx id sample_parse hello (\<lambda>_. quiet_env (\<lambda>_. (None, None))) ''main'' ''https://example.com'' c =
      Done ((Some ok_response, None), c\<lparr>cl_pools := (cl_pools c)(''main'' \<mapsto> cs_pool st)\<rparr>)"
    by (simp add: Get_def DoForDomain_def resolvePool_def new(2-4) envs solo_attempts numeral_3_eq_3 st result_of_def)
  obtain r where r: "hello_run = Done r" "ex_err r = None"
    "ex_client r = Some (Client_Close (c\<lparr>cl_pools := (cl_pools c)(''main'' \<mapsto> cs_pool st)\<rparr>))"
    using new(1) get by (simp add: hello_run_def example_run_def proxy_env_def target_url_def mainPool_def report_def full_write_def)
  have p: "cl_pools (Client_Close (c\<lparr>cl_pools := (cl_pools c)(''main'' \<mapsto> cs_pool st)\<rparr>)) ''main'' = Pool_Close (Some (cs_pool st))"
    by (simp add: Client_Close_def)
  then obtain p' where p': "Pool_Close (Some (cs_pool st)) = Some p'" "pool_endpoints p' \<noteq> []"
    using st(3) by (simp add: Pool_Close_def)
  then obtain e where "e \<in> set (pool_endpoints p')" by (metis list.set_sel(1))
  then show ?thesis using r p p'(1) by metis
qed

theorem example_closes_its_session_witness:
  "\<exists>r c p e. hello_run = Done r \<and> ex_client r = Some c \<and> cl_pools c ''main'' = Some p \<and> e \<in> set (pool_endpoints p) \<and>
     ep_closedSessions e = [0]"
proof -
  obtain r c p e where r: "hello_run = Done r" "ex_client r = Some c" "cl_pools c ''main'' = Some p" "e \<in> set (pool_endpoints p)"
    using hello_runs by blast
  from example_closes_its_session[OF loop.retrier_axioms quiet_env_neutral quiet_leaves_open r(1)[unfolded hello_run_def]] r
  show ?thesis by blast
qed

theorem example_prints_the_answer_witness:
  "\<exists>r. hello_run = Done r \<and> fst (example_main id [] r) = 0 \<and> ex_out r = ''200 OK'' @ ''\<newline>'' @ ''hello'' @ ''\<newline>''"
proof -
  obtain r where r: "hello_run = Done r" "ex_err r = None" using hello_runs by blast
  then have "fst (example_main id [] r) = 0" by (simp add: example_main_def)
  with example_prints_the_answer[OF loop.retrier_axioms _ r(1)[unfolded hello_run_def], where stamp = "[]"] r(1) show ?thesis
    by (auto simp: full_write_def hello_def ok_response_def)
qed

end
