(* ===== verification/Spec2Isabelle.thy ===== *)
theory Spec2Isabelle
  imports Health Sticky Alone Calls Sessions Statistics Example
begin

text \<open>
  \<^bold>\<open>Verification of go-proxator\<close>

  go-proxator routes requests through pools of rotating HTTP proxies.  A \<open>Client\<close> holds named
  \<open>Pool\<close>s; a pool holds \<open>endpoint\<close>s, one per proxy URL; an endpoint holds a buffered channel of
  transport sessions and the statistics its selection weight is computed from.  A request picks an
  endpoint of its pool by a weighted random draw, borrows a session, runs the caller's function on it,
  and settles the outcome: latency and success are counted, a response or an error that reads as a
  block is charged to the endpoint and remembered for the target domain, and enough blocks in a row
  put the endpoint into a cooldown that escalates and ends by itself.  A retry library drives the
  attempts; a background health checker probes the endpoints and charges them the same way.

  \<^bold>\<open>Theories, in the order of the program's layers\<close>

  \<^item> \<open>Prox_Prelude\<close>: machine words, \<open>time.Since\<close>, the outcomes of Go code (\<open>run\<close>: done, panic, blocked).
  \<^item> \<open>Float64\<close>: IEEE 754 doubles as exact rationals with round to nearest even, infinities and NaN.
  \<^item> \<open>Go_Strings\<close>, \<open>Go_Errors\<close>: the operations of \<open>strings\<close>, \<open>strconv\<close> and \<open>fmt\<close> the program uses, and
    error values (\<open>gerr\<close>) with wrapping, \<open>errors.Is\<close>, \<open>errors.As\<close> and their texts.
  \<^item> \<open>Config\<close> (\<open>config.go\<close>): states, defaults, \<open>PoolConfig.validate\<close>, \<open>RetryConfig.withDefaults\<close>.
    \<open>Sticky\<close> (\<open>config.go\<close>): \<open>StickyEndpoints\<close>, \<open>renderUsername\<close>.
  \<^item> \<open>Endpoint\<close> (\<open>endpoint.go\<close>): the record \<open>endpoint\<close> and one definition per method or atomic section.
    \<open>Cooldown\<close>: the step relation \<open>ep_step\<close> of all goroutines that act on one endpoint, its invariant,
    recovery.  \<open>Weight\<close>: the moving average and the selection weight in float arithmetic.
  \<^item> \<open>Domain_Tracker\<close> (\<open>internal/domain/tracker.go\<close>): blocks per endpoint and domain, expiry, the race of
    a reader that deletes with a writer that renews.
  \<^item> \<open>Pool_Model\<close> (\<open>pool.go\<close>): construction with its clean-up, \<open>Close\<close>, lookup, statistics.
    \<open>Selection\<close> (\<open>pool.go\<close>): \<open>getNextEndpointForDomain\<close>: the scan, the weights, the draw.
  \<^item> \<open>Transport\<close> (\<open>transport*.go\<close>): requests, responses, the net/http and the azuretls adapter.
  \<^item> \<open>Detector\<close> (\<open>detector.go\<close>), \<open>Transient\<close> (\<open>transient.go\<close>): classification of responses and errors.
  \<^item> \<open>Retry\<close>: the documented behaviour of \<open>retry.Do\<close> as the locale \<open>retrier\<close>, met by a plain loop.
  \<^item> \<open>Client\<close> (\<open>client.go\<close>): \<open>New\<close>, \<open>DoForDomain\<close> and the shorthands, \<open>Ping\<close>, administration, and the
    default session factory.
  \<^item> \<open>Requests\<close>, \<open>Administration\<close>, \<open>Termination\<close>: what a request does, construction and closing, that a
    request returns.  \<open>Health\<close> (\<open>health.go\<close>): probes, rounds, the loop of the checker.
  \<^item> \<open>Goroutines\<close> (\<open>client.go\<close>, \<open>pool.go\<close>, \<open>health.go\<close>): the retried function of \<open>DoForDomain\<close>, \<open>Ping\<close> and the
    loop body of \<open>checkAll\<close> as program counters (\<open>pc\<close>) with one shared access per step (\<open>advance\<close>), and the
    pool with any number of them at work (\<open>sys\<close>, \<open>sys_reach\<close>).  \<open>Interleaving\<close>: what holds of it in every
    interleaving.  \<open>Progress\<close>: that goroutines end.  \<open>Calls\<close> (\<open>client.go\<close>): whole requests with their retries
    on that pool, each attempt a goroutine (\<open>call\<close>, \<open>calls_exec\<close>).  \<open>Sessions\<close>: the life of one session and
    the calls its library object gets.  \<open>Statistics\<close> (\<open>endpoint.go\<close>, \<open>pool.go\<close>): the counters of an endpoint
    in every interleaving, and the weighted draw of goroutines whose scans others interrupt.  \<open>Alone\<close>: run by themselves the program counters do what
    \<open>Client\<close> and \<open>Health\<close> define.
  \<^item> \<open>Example\<close> (\<open>examples/basic/main.go\<close>): the program that uses the library end to end, from its
    environment to what it prints and its exit status.
  \<^item> This theory, after the header: two properties of the components together, the life of a blocked
    endpoint from the request that blocks it to its recovery, and a new client that serves.

  \<^bold>\<open>State and operations\<close>

  A struct is a record with the fields of the source, a method a definition with its name (prefixed
  where Go overloads it: \<open>Pool_Close\<close>, \<open>Client_Close\<close>).  Left out of the records are loggers, mutexes,
  and the contexts that only carry cancellation.  A pointer to an endpoint is its position in the pool.
  Go's \<open>int\<close>, \<open>int64\<close> and \<open>time.Duration\<close> are 64-bit words, \<open>int32\<close> counters 32-bit words, read with
  \<open>sint\<close>; additions wrap.  Instants are unbounded nanoseconds of the monotonic clock.  A nil error is
  \<open>None\<close>; a function that returns a value or an error gives a sum.  Panics and waiting for ever are
  values of \<open>run\<close>.  A session is a number; \<open>ep_closedSessions\<close> records which were closed.

  Concurrency enters in three ways.  For one endpoint, \<open>Cooldown.ep_step\<close> interleaves the atomic
  sections of all methods and of the recovery goroutines.  For a pool, \<open>Goroutines.sys_exec\<close> interleaves
  any number of requests, pings and probes step by step with the recovery goroutines, administration
  and \<open>Close\<close>; a step of the scan visits one endpoint, and a goroutine that would panic takes no step.
  The pool simulates the machines of its endpoints (\<open>pool_refines_endpoints\<close>), so that what is proved of
  \<open>ep_step\<close> holds in it.  \<open>Calls.calls_exec\<close> puts whole requests on this machine: each call keeps
  \<open>lastResp\<close>, \<open>lastErr\<close> and the attempts it has left, runs an attempt as a goroutine of its own, and takes
  between attempts the steps the retry library is documented to take.  For a request, a ping and a
  round of probes as one computation, a record
  of hooks (\<open>attempt_env\<close>, \<open>acq_env\<close>, \<open>probe_env\<close>) gives what other goroutines do to the pool between two
  steps, what the scan of the selection reads of each endpoint (\<open>scan_obs\<close>), the clock and the random
  number; properties quantify over these hooks and name what they need of them (\<open>neutral\<close>: the others
  give back the sessions they borrow; \<open>keeps_closed\<close>, \<open>steady\<close>).  \<open>PenaltyFor\<close> is also given split at
  its atomic accesses.  The reads of one endpoint's counters that make up its weight are taken as one
  snapshot, \<open>Close\<close>'s drain of the channel as one step, and its lock as held.

  \<^bold>\<open>Parameters: code outside the repository\<close>

  \<^item> \<open>retry.Do\<close> of retry-go: an argument with the documented behaviour \<open>Retry.retry_allowed\<close>: at most the
    given number of attempts, a success ends it, \<open>RetryIf\<close> ends it, the context may end it before any
    attempt; the error is that of the last attempt, possibly without its \<open>Unrecoverable\<close> wrapper.
  \<^item> The rate limiter: whether \<open>Wait\<close> fails.  The session factory and the sessions: arguments; that a
    session answers nil without an error is possible and then shows as \<open>Panic\<close> where the code dereferences.
  \<^item> \<open>url.Parse\<close>, \<open>json.Marshal\<close>, \<open>net/http\<close> and azuretls-client: arguments.  The Unicode parts of \<open>ToLower\<close>
    and \<open>%q\<close>: arguments; on ASCII they are computed.  Regular expressions that are case-insensitive
    literals with dots are computed, others are an argument (\<open>regexp_env\<close>).  \<open>Sprintf\<close> is computed for
    formats of text and \<open>%s %d %v %%\<close>.
  \<^item> The request function is assumed to return (it neither panics nor runs for ever).

  \<^bold>\<open>What the lemmas show\<close>

  Sessions: none is lost, leaked or closed twice, under any interleaving (\<open>sessions_conserved\<close>,
  \<open>session_exclusive\<close>, \<open>session_life\<close>, \<open>all_closed_in_the_end\<close>), over a whole request, ping or health
  check (\<open>request_returns_sessions\<close>, \<open>ping_is_honest\<close>, \<open>health_loop_returns_sessions\<close>, all through the
  locale \<open>session_lender\<close>), and in a construction that fails (\<open>failed_pool_closes_everything\<close>, \<open>failed_client_closes_everything\<close>).  Cooldown: escalation and cap,
  one live recovery per cooldown, recovery in time, dead endpoints stay dead.  Domain blocks: the
  tracker refines a log that never forgets; blocks do not leak to other domains or endpoints.
  Selection: only endpoints seen alive; the draw is the weighted one, rounding included, under
  any interference (\<open>draw_is_weighted\<close>) and in every interleaving (\<open>concurrent_draw_is_weighted\<close>), where the
  counters are exact (\<open>statistics_are_exact\<close>); equal weights give round-robin; weights follow speed and success.  Concurrency: no deadlock
  (\<open>everybody_can_finish\<close>, \<open>every_call_returns\<close>), no release that finds the channel full, at most
  \<open>17 + n\<close> steps for a goroutine and \<open>MaxAttempts * (19 + n)\<close> for a request on a pool of \<open>n\<close> endpoints
  (\<open>work_is_bounded\<close>, \<open>call_work_is_bounded\<close>), genuine responses (\<open>call_response_is_genuine\<close>), the
  documented protocol of the retry library (\<open>calls_refine_retry\<close>); run alone the goroutines do what the sequential
  definitions say (\<open>request_alone\<close>, \<open>ping_alone\<close>, \<open>probe_alone\<close>).  Requests: a success is a genuine response, at
  most \<open>MaxAttempts\<close> attempts, the effect of every kind of outcome, termination.  The example program
  closes its session on every path and prints only what it was answered (\<open>example_closes_its_session\<close>,
  \<open>example_prints_the_answer\<close>).  Classification: what
  the defaults decide, and what wrapping preserves.  Interfaces are the locales \<open>block_memory\<close>,
  \<open>wrap_stable\<close>, \<open>retrier\<close> and \<open>session_lender\<close>, each interpreted on the model's definitions.

  Some theorems record behaviour that contradicts the documentation: \<open>dead_endpoint_revived\<close>,
  \<open>superseded_timer_recovers\<close>, \<open>burst_escalates\<close>, \<open>all_blocked_is_masked\<close>, \<open>nan_penalty_prefers_blocked\<close>,
  \<open>health_check_cools_closed_pool\<close>.

  \<^bold>\<open>Bounds\<close>

  The machine of a pool is stated for pools as they are built; \<open>every_call_returns\<close> needs cooldown
  tiers below \<open>2 ^ 31 - 1\<close> with room for one cooldown per remaining step (above, \<open>markFailed\<close> panics).
  Durations up to \<open>2 ^ 51\<close> ns (26 days) in the statements on the moving average
  and as what \<open>Statistics\<close> calls a sane event (\<open>span_ok\<close>), runs of fewer than \<open>2 ^ 63\<close> steps, pools of up to \<open>2 ^ 53\<close> endpoints where weights are added up, counters below the top of their words where a
  statement says "plus one".  There is no fuel: every recursion is structural or on an argument that
  shrinks, and the loops that wait (the compare-and-swap of \<open>recordLatency\<close>, the retries, the health
  loop) run along the list of what they meet.  Float arithmetic is that of amd64 (no fused
  multiply-add); the sign of zero is not kept.

  \<^bold>\<open>Not modelled\<close>

  Logging; what the transport libraries do with the calls the adapters make; the delay between retries;
  the package comment \<open>doc.go\<close>, which declares nothing.
\<close>

section \<open>Components together\<close>

text \<open>C11. A block at the threshold takes the endpoint out of rotation until its cooldown ends: when an
  answer that reads as a block brings the fail count to the threshold, no selection on the pool returns
  the endpoint any more, for any domain, random number and time, and one recovery goroutine, due when the
  escalated cooldown elapses, puts it back into service with a clean record.\<close>

theorem blocked_endpoint_rests:
  assumes "i < length (pool_endpoints p)" and "e = pool_endpoints p ! i" and "ae_counted env = (\<lambda>p. p)"
    and "IsBlocked rx uni (Some det) (Some resp)" and "sint th \<le> sint (ep_failCount e) + 1"
    and "sint (ep_failCount e) < 2 ^ 31 - 1" and "0 \<le> sint (ep_cooldownTier e)" and "sint (ep_cooldownTier e) < 2 ^ 31 - 1"
  shows "\<exists>err p' d t. settle q rx uni det retry th dm env i (Some resp, None) p = Done (Some err, p') \<and>
    fst (getNextEndpointForDomain dm' (quiet now p') u (Some p')) \<noteq> Inr i \<and>
    cooldown_duration (rc_CooldownPeriod retry) (rc_MaxCooldown retry) (ep_cooldownTier e + 1) = Done d \<and>
    t \<in> set (ep_timers (pool_endpoints p' ! i)) \<and> \<not> tm_cancelled t \<and> tm_due t = ae_now env + sint d \<and>
    isAvailable (timer_recover (tm_id t) (pool_endpoints p' ! i)) \<and>
    ep_failCount (timer_recover (tm_id t) (pool_endpoints p' ! i)) = 0"
proof -
  let ?s = "recordLatency_among (ae_latencies env) (ae_elapsed env)"
  let ?p = "update_ep i ?s p" and ?e = "incrementFailCount (?s e)"
  have e: "pool_endpoints ?p ! i = ?s e" "i < length (pool_endpoints ?p)" using assms(1,2) by simp_all
  have f: "ep_failCount (?s e) = ep_failCount e" "ep_cooldownTier ?e = ep_cooldownTier e"
    by (simp_all add: recordLatency_among_def incrementFailCount_def)
  obtain d where d: "cooldown_duration (rc_CooldownPeriod retry) (rc_MaxCooldown retry) (ep_cooldownTier e + 1) = Done d"
    using tier_inc[OF assms(7,8)] by blast
  then have mf: "markFailed (ae_now env) (rc_CooldownPeriod retry) (rc_MaxCooldown retry) ?e = Done (cooled (ae_now env) d ?e)"
    using f by (simp add: markFailed_Done)
  define p1 where "p1 = the (recordDomainBlock (ae_now env) (ep_index (?s e)) dm (Some (update_ep i incrementFailCount ?p)))"
  define p' where "p' = update_ep i (\<lambda>_. cooled (ae_now env) d ?e) p1"
  have "penalise (ae_now env) (ae_counted env) retry th dm i ?p = Done p'"
    using penalise_endpoint[OF e(2), of "ae_now env" retry th dm] assms(5,6) f mf
    unfolding assms(3) e(1) p'_def p1_def by (simp add: Let_def)
  then obtain err where run: "settle q rx uni det retry th dm env i (Some resp, None) p = Done (Some err, p')"
    using assms(4) by (simp add: settle_def Let_def)
  have e': "pool_endpoints p' ! i = cooled (ae_now env) d ?e"
    using assms(1) by (simp add: p'_def p1_def recordDomainBlock_def)
  have "\<not> isAvailable (so_avail (quiet now p' i))" by (simp add: quiet_def e' isAvailable_def cooled_def)
  then have sel: "fst (getNextEndpointForDomain dm' (quiet now p') u (Some p')) \<noteq> Inr i"
    using getNext_alive[of dm' "quiet now p'" u p' i] by (metis prod.collapse)
  define t where "t = \<lparr>tm_id = ep_nextTimer ?e, tm_due = ae_now env + sint d, tm_cancelled = False, tm_phase = Sleeping\<rparr>"
  have "t \<in> set (ep_timers (pool_endpoints p' ! i))" by (simp add: e' cooled_def t_def)
  moreover have "timer_recover j (pool_endpoints p' ! i) = timer_finish j (pool_endpoints p' ! i)" for j
    by (simp add: timer_recover_def e' cooled_def)
  ultimately show ?thesis
    using run sel d by (intro exI[of _ err] exI[of _ p'] exI[of _ d] exI[of _ t]) (simp add: t_def isAvailable_def timer_finish_alive)
qed

theorem blocked_endpoint_rests_witness:
  "\<exists>err p' t. settle id no_rx id (default_detector id) DefaultRetryConfig 1 ''d'' (quiet_env (\<lambda>_. (None, None))) 0
       (Some (challenge_page\<lparr>resp_StatusCode := 403\<rparr>), None) solo = Done (Some err, p') \<and>
     fst (getNextEndpointForDomain [] (quiet 5 p') (FNum 0) (Some p')) \<noteq> Inr 0 \<and>
     t \<in> set (ep_timers (pool_endpoints p' ! 0)) \<and> isAvailable (timer_recover (tm_id t) (pool_endpoints p' ! 0))"
proof -
  have b: "IsBlocked no_rx id (Some (default_detector id)) (Some (challenge_page\<lparr>resp_StatusCode := 403\<rparr>))"
    by (simp add: IsBlocked_def default_codes)
  have "0 < length (pool_endpoints solo)" "ae_counted (quiet_env (\<lambda>_. (None, None))) = (\<lambda>p. p)"
    by (simp_all add: solo_fields quiet_env_def)
  from blocked_endpoint_rests[OF this(1) refl this(2) b, of 1 id DefaultRetryConfig "''d''" "[]" 5 "FNum 0"]
  show ?thesis by (auto simp: solo_fields sample_endpoint_eq blank_endpoint_def)
qed

section \<open>A new client serves\<close>

lemma fresh_lends:
  assumes "fresh e"
  shows "\<exists>s ss. ep_sessions e = s # ss \<and> acquireSession quiet_acquire e = Done (Inr s, e\<lparr>ep_sessions := ss\<rparr>)"
    and "isAvailable e"
proof -
  from assms obtain u i n r ss where e: "e = (blank_endpoint u i n r)\<lparr>ep_sessions := ss\<rparr>" "int (length ss) = sint (ep_poolSize e)"
    unfolding fresh_def by blast
  have "0 < sint (ep_poolSize e)" by (simp add: e(1) blank_endpoint_def Let_def defaultSessionPoolSize_def)
  then obtain s ss' where s: "ep_sessions e = s # ss'" using e by (cases ss) auto
  moreover have "\<not> ep_closed e" by (simp add: e(1) blank_endpoint_def Let_def)
  ultimately have "acquireSession quiet_acquire e = Done (Inr s, e\<lparr>ep_sessions := ss'\<rparr>)"
    by (simp add: acquireSession_def quiet_acquire_def acq_enter_def acq_limited_def acq_recheck_def acq_select.simps split: option.split)
  with s show "\<exists>s ss. ep_sessions e = s # ss \<and> acquireSession quiet_acquire e = Done (Inr s, e\<lparr>ep_sessions := ss\<rparr>)" by blast
  show "isAvailable e" by (simp add: e(1) isAvailable_def blank_endpoint_def Let_def)
qed

definition calm :: "(session \<Rightarrow> outcome) \<Rightarrow> instant \<Rightarrow> f64 \<Rightarrow> duration \<Rightarrow> attempt_env" where
  "calm fn now u d = (quiet_env fn)\<lparr>ae_obs := quiet now, ae_rand := u, ae_elapsed := d\<rparr>"

lemma fresh_attempt:
  assumes "pool_endpoints (cs_pool st) \<noteq> []" and "\<forall>e \<in> set (pool_endpoints (cs_pool st)). fresh e"
    and "\<And>s. \<exists>r. fn s = (Some r, None) \<and> \<not> IsBlocked rx uni (Some det) (Some r)" and "envs (cs_attempts st) = calm fn now u dt"
  shows "\<exists>i s st'. attempt q rx uni det retry th d envs st = Done (None, st') \<and> i < length (pool_endpoints (cs_pool st)) \<and>
    s \<in> set (ep_sessions (pool_endpoints (cs_pool st) ! i)) \<and> cs_lastResp st' = fst (fn s)"
proof -
  let ?p = "cs_pool st"
  have env: "ae_before (calm fn now u dt) = (\<lambda>p. p)" "ae_obs (calm fn now u dt) = quiet now" "ae_rand (calm fn now u dt) = u"
    "ae_selected (calm fn now u dt) = (\<lambda>p. p)" "ae_acquire (calm fn now u dt) = quiet_acquire" "ae_fn (calm fn now u dt) = fn"
    "ae_during (calm fn now u dt) = (\<lambda>p. p)"
    by (simp_all add: calm_def quiet_env_def)
  obtain sel p' where sel: "getNextEndpointForDomain d (quiet now ?p) u (Some ?p) = (sel, p')" by fastforce
  have "isAvailable (so_avail (quiet now ?p 0))" using assms(1,2) fresh_lends(2) by (simp add: quiet_def)
  then obtain i where i: "sel = Inr i" using getNext_none[of d "quiet now ?p" u ?p] sel assms(1) by (cases sel) auto
  then obtain p2 where p2: "i < length (pool_endpoints ?p)" "p' = Some p2" "pool_endpoints p2 = pool_endpoints ?p"
    using getNext_alive[of d "quiet now ?p" u ?p i p'] sel by blast
  obtain s ss where s: "ep_sessions (pool_endpoints ?p ! i) = s # ss"
    "acquireSession quiet_acquire (pool_endpoints ?p ! i) = Done (Inr s, (pool_endpoints ?p ! i)\<lparr>ep_sessions := ss\<rparr>)"
    using fresh_lends(1) assms(2) p2(1) by (meson nth_mem)
  obtain r where r: "fn s = (Some r, None)" "\<not> IsBlocked rx uni (Some det) (Some r)" using assms(3) by blast
  have "\<exists>p4. settle q rx uni det retry th d (calm fn now u dt) i (Some r, None) p3 = Done (None, p4)" for p3
    by (simp add: settle_def Let_def r(2))
  then obtain p4 where p4: "settle q rx uni det retry th d (calm fn now u dt) i (Some r, None)
     (update_ep i (\<lambda>_. (pool_endpoints ?p ! i)\<lparr>ep_sessions := ss\<rparr>) p2) = Done (None, p4)" by blast
  show ?thesis
    unfolding attempt_def Let_def assms(4) env
    using sel i p2 s r(1) p4 by (intro exI[of _ i] exI[of _ s]) simp
qed

text \<open>C17. A new client serves: whatever retry library drives it, a request on any pool of a client that
  \<open>New\<close> has just built, run alone with a request function that is not blocked, gives the outcome of
  one of the pool's own sessions; otherwise the context ended before the first attempt, the error
  says so and the client is untouched.\<close>

theorem new_client_serves:
  assumes "New q rx uni parse set_proxy cfg k = (Inr c, rest, k')" and "resolvePool q poolName c = Inr name" and "retrier retry_do"
    and "\<And>s. \<exists>r. fn s = (Some r, None) \<and> \<not> IsBlocked rx uni (Some (cl_detector c)) (Some r)" and "envs 0 = calm fn now u dt"
  shows "\<exists>out c' p. DoForDomain retry_do q rx uni envs poolName d c = Done (out, c') \<and> cl_pools c name = Some p \<and>
    ((\<exists>e \<in> set (pool_endpoints p). \<exists>s \<in> set (ep_sessions e). out = fn s) \<or> (\<exists>err. out = (None, Some err)) \<and> c' = c)"
proof -
  note b = built_pools[OF assms(1)]
  obtain p where p: "cl_pools c name = Some p" using resolvePool_found[OF assms(2) b(2)] by blast
  let ?n = "unat (rc_MaxAttempts (cl_retry c))" and ?f = "attempt q rx uni (cl_detector c) (cl_retry c) (failThreshold (cl_retry c)) d envs"
  have fr: "pool_endpoints (cs_pool (start_call p)) \<noteq> []" "\<forall>e \<in> set (pool_endpoints (cs_pool (start_call p))). fresh e"
    "envs (cs_attempts (start_call p)) = calm fn now u dt"
    using b(1) p assms(5) by (auto simp: pools_ok_def start_call_def)
  obtain i s st where at: "?f (start_call p) = Done (None, st)" "i < length (pool_endpoints p)"
    "s \<in> set (ep_sessions (pool_endpoints p ! i))" "cs_lastResp st = fst (fn s)"
    using fresh_attempt[where st = "start_call p" and envs = envs and fn = fn and rx = rx and uni = uni and det = "cl_detector c", OF fr(1,2) assms(4) fr(3)]
    by (fastforce simp: start_call_def)
  consider err where "retry_do ?n retry_if ?f (start_call p) = Done (Some err, start_call p)"
    | "retry_do ?n retry_if ?f (start_call p) = Done (None, st)"
    using retrier.first_try[OF assms(3) attempts_positive[OF b(2)], where f = ?f] at(1) by blast
  then show ?thesis
  proof cases
    case (1 err)
    then show ?thesis using assms(2) p by (auto simp: DoForDomain_def result_of_def start_call_def fun_upd_idem)
  next
    case 2
    obtain r where "fn s = (Some r, None)" using assms(4) by blast
    then have "DoForDomain retry_do q rx uni envs poolName d c = Done (fn s, c\<lparr>cl_pools := (cl_pools c)(name \<mapsto> cs_pool st)\<rparr>)"
      using 2 at(4) assms(2) p by (simp add: DoForDomain_def Let_def result_of_def)
    then show ?thesis using p at(2,3) by (auto intro!: bexI[of _ "pool_endpoints p ! i"])
  qed
qed

theorem new_client_serves_witness:
  "\<exists>c out c'. New id no_rx id sample_parse (\<lambda>_ _. None) (twin_config\<lparr>cfg_Pools := [sample_config]\<rparr>) 0 = (Inr c, (None, []), 4) \<and>
     DoForDomain retry_loop id no_rx id (\<lambda>_. calm (\<lambda>_. (Some ok_response, None)) 5 (FNum 0) 1000000) ''p'' [] c = Done (out, c') \<and>
     (out = (Some ok_response, None) \<or> c' = c)"
proof -
  obtain p where p: "newPoolWithFactory id sample_parse sample_config DefaultRetryConfig (\<lambda>j _. Inr j) 0 = (Inr p, [], 4)"
    using sample_pool_built[of id] by blast
  have w: "withDefaults DefaultRetryConfig = DefaultRetryConfig" by (rule withDefaults_id) (rule default_retry_positive)
  have n: "pc_Name sample_config = ''p''" by (simp add: sample_config_def)
  obtain c where r: "New id no_rx id sample_parse (\<lambda>_ _. None) (twin_config\<lparr>cfg_Pools := [sample_config]\<rparr>) 0 = (Inr c, (None, []), 4)"
    "cl_detector c = default_detector id" "cl_pools c = [''p'' \<mapsto> p]"
    by (simp add: New_def twin_config_def accepting_factory w p n)
  have "resolvePool id ''p'' c = Inr ''p''" using r(3) by (simp add: resolvePool_def)
  from new_client_serves[OF r(1) this loop.retrier_axioms, where fn = "\<lambda>_. (Some ok_response, None)" and
      envs = "\<lambda>_. calm (\<lambda>_. (Some ok_response, None)) 5 (FNum 0) 1000000" and d = "[]"] r(1,2)
  show ?thesis by (fastforce simp: ok_not_blocked)
qed

end
